(* ===== verification/Telemetry_Prelude.thy ===== *)
theory Telemetry_Prelude
  imports Main "HOL-Library.Word"
begin

text \<open>
  Shared vocabulary of the development: the machine integer types of the C++ sources, the
  collections of facts the component proofs share, and the generic lemmas on words, masks and
  lists the components need.

  The C++ code is compiled for an LP64 target: \<open>std::size_t\<close> and \<open>std::uint64_t\<close> are 64 bits
  wide, \<open>std::int64_t\<close> and \<open>std::ptrdiff_t\<close> are their two's complement readings. A signed 64-bit
  value is kept as the word of its bits and read with \<open>sint\<close>.
\<close>

unbundle bit_operations_syntax

type_synonym u8 = "8 word"
type_synonym u32 = "32 word"
type_synonym u64 = "64 word"

text \<open>\<open>ring_simps\<close>: index arithmetic of the masked counters; \<open>fifo_laws\<close>: what a ring promises.\<close>

named_theorems ring_simps
named_theorems fifo_laws

section \<open>Powers of two\<close>

text \<open>
  The ring buffers check \<open>(Capacity & (Capacity - 1)) == 0\<close> and \<open>Capacity > 0\<close> at compile time.
  That test accepts exactly the powers of two.
\<close>

lemma nat_and_pred_eq_0:
  fixes n :: nat
  assumes "n AND (n - 1) = 0" and "0 < n"
  shows "\<exists>k. n = 2 ^ k"
  using assms
proof (induction n rule: less_induct)
  case (less n)
  show ?case
  proof (cases "even n")
    case True
    then obtain m where m: "n = 2 * m" by (elim evenE)
    with less.prems(2) have pos: "0 < m" by simp
    have "n AND (n - 1) = 2 * (m AND (m - 1))"
    proof -
      from pos have "(2 * m - 1) div 2 = m - 1" by (cases m) auto
      then show ?thesis by (simp add: m and_rec [of "2 * m"])
    qed
    with less.prems(1) have "m AND (m - 1) = 0" by simp
    with pos m obtain k where "m = 2 ^ k" using less.IH [of m] by auto
    then have "n = 2 ^ Suc k" by (simp add: m)
    then show ?thesis by blast
  next
    case False
    then obtain m where m: "n = 2 * m + 1" by (elim oddE)
    have "n AND (n - 1) = 2 * m"
      by (simp add: m and_rec [of "Suc (2 * m)"])
    with less.prems(1) m have "n = 2 ^ 0" by simp
    then show ?thesis by blast
  qed
qed

lemma word_and_pred_eq_0:
  fixes c :: "'a::len word"
  assumes "c AND (c - 1) = 0" and "0 < c"
  shows "\<exists>k < LENGTH('a). c = 2 ^ k"
proof -
  from assms(2) have pos: "0 < unat c" by (simp add: word_less_nat_alt)
  then have "unat (c - 1) = unat c - 1"
    using assms(2) by (simp add: unat_minus_one)
  moreover have "unat (c AND (c - 1)) = unat c AND unat (c - 1)"
    by (simp add: unsigned_and_eq)
  ultimately have "unat c AND (unat c - 1) = 0" using assms(1) by simp
  with pos obtain k where k: "unat c = 2 ^ k" using nat_and_pred_eq_0 by blast
  moreover have "unat c < 2 ^ LENGTH('a)" by simp
  ultimately have "k < LENGTH('a)" by simp
  moreover have "c = of_nat (unat c)" by simp
  then have "c = 2 ^ k" by (simp only: k of_nat_power of_nat_numeral)
  ultimately show ?thesis by blast
qed

lemma unat_pow2_word:
  assumes "k < LENGTH('a)"
  shows "unat ((2::'a::len word) ^ k) = 2 ^ k"
proof -
  have "(2::'a word) ^ k = of_nat (2 ^ k)" by simp
  then have "unat ((2::'a word) ^ k) = 2 ^ k mod 2 ^ LENGTH('a)" by (simp only: unat_of_nat)
  then show ?thesis using assms by simp
qed

lemma unat_and_pow2_mask:
  fixes w :: "'a::len word"
  assumes "k < LENGTH('a)"
  shows "unat (w AND (2 ^ k - 1)) = unat w mod 2 ^ k"
proof -
  have "w AND (2 ^ k - 1) = take_bit k w"
    by (simp add: take_bit_eq_mask mask_eq_exp_minus_1)
  then have "unat (w AND (2 ^ k - 1)) = take_bit k (unat w)"
    by (simp only: unsigned_take_bit_eq)
  then show ?thesis by (simp add: take_bit_eq_mod)
qed

lemma mod_cong_of_dvd:
  fixes a b c m :: nat
  assumes "m dvd c"
  shows "(a mod c) mod m = a mod m"
  using assms by (simp add: mod_mod_cancel)

lemma unat_add_of_nat_mod:
  fixes w :: "'a::len word"
  assumes "k < LENGTH('a)"
  shows "unat (w + of_nat i) mod 2 ^ k = (unat w + i) mod 2 ^ k"
proof -
  have d: "(2::nat) ^ k dvd 2 ^ LENGTH('a)"
    using assms by (simp add: le_imp_power_dvd)
  have "unat (w + of_nat i) = (unat w + i mod 2 ^ LENGTH('a)) mod 2 ^ LENGTH('a)"
    by (simp add: unat_word_ariths unat_of_nat)
  then have "unat (w + of_nat i) = (unat w + i) mod 2 ^ LENGTH('a)"
    by (simp add: mod_add_right_eq)
  with d show ?thesis by (simp add: mod_mod_cancel)
qed

lemma mod_add_eq_imp_eq:
  fixes a i j m :: nat
  assumes "(a + i) mod m = (a + j) mod m" and "i < m" and "j < m"
  shows "i = j"
proof -
  have "int m dvd int i - int j"
    using assms(1) by (metis add_diff_cancel_left mod_eq_dvd_iff of_nat_add zmod_int)
  moreover have "\<bar>int i - int j\<bar> < int m" using assms(2,3) by linarith
  ultimately have "int i - int j = 0" using zdvd_not_zless
    by (metis dvd_abs_iff zero_less_abs_iff)
  then show ?thesis by simp
qed

section \<open>Lists and results\<close>

lemma upt_Suc_snoc_map: "map f [0..<Suc n] = map f [0..<n] @ [f n]"
  by simp

lemma map_upt_Suc_Cons: "map f [0..<Suc n] = f 0 # map (\<lambda>i. f (Suc i)) [0..<n]"
  by (simp add: upt_conv_Cons map_Suc_upt [symmetric] comp_def del: upt_Suc)

section \<open>Reachable states of a step relation\<close>

text \<open>
  The concurrent models are step relations. \<open>reach init step\<close> is the set of states some run from
  an initial state passes through, and \<open>reach_invariant\<close> is how every safety property is proved.
\<close>

inductive reach :: "('s \<Rightarrow> bool) \<Rightarrow> ('s \<Rightarrow> 's \<Rightarrow> bool) \<Rightarrow> 's \<Rightarrow> bool" for init step where
  reach_init: "init s \<Longrightarrow> reach init step s"
| reach_step: "reach init step s \<Longrightarrow> step s t \<Longrightarrow> reach init step t"

lemma reach_invariant:
  assumes "reach init step s"
    and "\<And>s. init s \<Longrightarrow> I s"
    and "\<And>s t. I s \<Longrightarrow> step s t \<Longrightarrow> I t"
  shows "I s"
  using assms(1) by (induction rule: reach.induct) (auto intro: assms(2,3))

end
