(* ===== verification/Bounded_Fifo.thy ===== *)
theory Bounded_Fifo
  imports Telemetry_Prelude
begin

text \<open>
  The contract every ring buffer of \<open>include/core/ring_buffer.hpp\<close> gives its clients (the feed
  handler pushes, the detection thread pops): a first-in first-out queue of bounded length whose
  two operations say whether they took effect. \<open>try_push\<close> returns the C++ \<open>bool\<close> with the new
  ring, \<open>try_pop\<close> returns \<open>Some\<close> of the item stored through the out-parameter for \<open>true\<close> and
  \<open>None\<close> for \<open>false\<close>.

  A client history is a list of operations; \<open>fifo_run\<close> collects the items the ring accepted and
  the items it handed out. The lemmas of the locale speak about every history and are used by
  the clients through the interpretations on the modelled rings.
\<close>

datatype 'a fifo_op = Push 'a | Pop

fun fifo_step ::
  "('a \<Rightarrow> 'q \<Rightarrow> bool \<times> 'q) \<Rightarrow> ('q \<Rightarrow> 'a option \<times> 'q) \<Rightarrow>
   'a fifo_op \<Rightarrow> 'a list \<times> 'a list \<times> 'q \<Rightarrow> 'a list \<times> 'a list \<times> 'q" where
  "fifo_step push pop (Push x) (ins, outs, q) =
     (let (ok, q') = push x q in (if ok then ins @ [x] else ins, outs, q'))"
| "fifo_step push pop Pop (ins, outs, q) =
     (let (r, q') = pop q in (ins, (case r of None \<Rightarrow> outs | Some x \<Rightarrow> outs @ [x]), q'))"

fun fifo_run ::
  "('a \<Rightarrow> 'q \<Rightarrow> bool \<times> 'q) \<Rightarrow> ('q \<Rightarrow> 'a option \<times> 'q) \<Rightarrow>
   'a fifo_op list \<Rightarrow> 'a list \<times> 'a list \<times> 'q \<Rightarrow> 'a list \<times> 'a list \<times> 'q" where
  "fifo_run push pop [] st = st"
| "fifo_run push pop (x # xs) st = fifo_run push pop xs (fifo_step push pop x st)"

locale bounded_fifo =
  fixes push :: "'a \<Rightarrow> 'q \<Rightarrow> bool \<times> 'q"
    and pop :: "'q \<Rightarrow> 'a option \<times> 'q"
    and contents :: "'q \<Rightarrow> 'a list"
    and inv :: "'q \<Rightarrow> bool"
    and bound :: nat
  assumes push_room: "inv q \<Longrightarrow> length (contents q) < bound \<Longrightarrow>
      \<exists>q'. push x q = (True, q') \<and> inv q' \<and> contents q' = contents q @ [x]"
    and push_full: "inv q \<Longrightarrow> bound \<le> length (contents q) \<Longrightarrow> push x q = (False, q)"
    and pop_front: "inv q \<Longrightarrow> contents q = x # xs \<Longrightarrow>
      \<exists>q'. pop q = (Some x, q') \<and> inv q' \<and> contents q' = xs"
    and pop_empty: "inv q \<Longrightarrow> contents q = [] \<Longrightarrow> pop q = (None, q)"
    and contents_bound: "inv q \<Longrightarrow> length (contents q) \<le> bound"
begin

lemma push_cases:
  assumes "inv q"
  obtains (room) q' where "length (contents q) < bound" "push x q = (True, q')" "inv q'"
      "contents q' = contents q @ [x]"
    | (full) "length (contents q) = bound" "push x q = (False, q)"
  using assms push_room [of q x] push_full [of q x] contents_bound [of q]
  by (cases "length (contents q) < bound") auto

lemma pop_cases:
  assumes "inv q"
  obtains (front) x q' where "contents q = x # contents q'" "pop q = (Some x, q')" "inv q'"
    | (none) "contents q = []" "pop q = (None, q)"
proof (cases "contents q")
  case Nil
  with assms show ?thesis by (intro none) (auto simp: pop_empty)
next
  case (Cons x xs)
  with assms obtain q' where "pop q = (Some x, q')" "inv q'" "contents q' = xs"
    using pop_front by blast
  with Cons show ?thesis by (intro front) auto
qed

lemma push_inv: "inv q \<Longrightarrow> inv (snd (push x q))"
  by (cases rule: push_cases [of q x]) auto

lemma pop_inv: "inv q \<Longrightarrow> inv (snd (pop q))"
  by (cases rule: pop_cases [of q]) auto

lemma push_accepts_iff: "inv q \<Longrightarrow> fst (push x q) \<longleftrightarrow> length (contents q) < bound"
  by (cases rule: push_cases [of q x]) auto

lemma pop_result: "inv q \<Longrightarrow>
    fst (pop q) = (case contents q of [] \<Rightarrow> None | x # _ \<Rightarrow> Some x)"
  by (cases rule: pop_cases [of q]) auto

text \<open>Conservation over any history: what came in is what came out followed by what is held.\<close>

lemma step_conserves:
  assumes "inv q" and "st = (ins, outs, q)" and "pre @ ins = outs @ contents q"
    and "fifo_step push pop e st = (ins', outs', q')"
  shows "inv q' \<and> pre @ ins' = outs' @ contents q'"
proof (cases e)
  case (Push x)
  from assms(1) show ?thesis
  proof (cases rule: push_cases [of q x])
    case (room p)
    with assms Push show ?thesis by (auto simp flip: append_assoc)
  next
    case full
    with assms Push show ?thesis by auto
  qed
next
  case Pop
  from assms(1) show ?thesis
  proof (cases rule: pop_cases [of q])
    case (front x p)
    with assms Pop show ?thesis by auto
  next
    case none
    with assms Pop show ?thesis by auto
  qed
qed

lemma run_conserves:
  assumes "inv q" and "pre @ ins = outs @ contents q"
    and "fifo_run push pop es (ins, outs, q) = (ins', outs', q')"
  shows "inv q' \<and> pre @ ins' = outs' @ contents q'"
  using assms
proof (induction es arbitrary: ins outs q)
  case Nil
  then show ?case by simp
next
  case (Cons e es)
  obtain i o' p where s: "fifo_step push pop e (ins, outs, q) = (i, o', p)"
    by (cases "fifo_step push pop e (ins, outs, q)") auto
  from step_conserves [OF Cons.prems(1) refl Cons.prems(2) s]
  have "inv p" and "pre @ i = o' @ contents p" by simp_all
  moreover from s Cons.prems(3) have "fifo_run push pop es (i, o', p) = (ins', outs', q')" by simp
  ultimately show ?case by (rule Cons.IH)
qed

lemma run_from_empty:
  assumes "inv q" and "contents q = []"
    and "fifo_run push pop es ([], [], q) = (ins, outs, q')"
  shows "ins = outs @ contents q' \<and> length (contents q') \<le> bound"
  using run_conserves [of q "[]" "[]" "[]" es ins outs q'] assms contents_bound by auto

end

end
