(* ===== verification/Spsc_Ring.thy ===== *)
theory Spsc_Ring
  imports Bounded_Fifo
begin

text \<open>
  \<open>SpscRingBuffer\<open>\<close>\<close> of \<open>include/core/ring_buffer.hpp\<close>, as one thread sees it: the two unbounded
  counters \<open>head_\<close> and \<open>tail_\<close> (64-bit, wrapping), the storage array, and \<open>try_push\<close> and
  \<open>try_pop\<close> with the masked slot index. The interleavings of a producer and a consumer thread are
  in theory \<open>Spsc_Concurrent\<close>. The template argument \<open>Capacity\<close> is an argument of the operations;
  \<open>capacity_ok\<close> is the condition of the two \<open>static_assert\<close>s.
\<close>

definition capacity_ok :: "u64 \<Rightarrow> bool" where
  "capacity_ok cap \<longleftrightarrow> cap AND (cap - 1) = 0 \<and> cap > 0"

record 'a spsc =
  sp_head :: u64
  sp_tail :: u64
  sp_storage :: "'a list"

text \<open>The constructor sets the counters only; the array holds whatever \<open>junk\<close> it was born with.\<close>

definition spsc_init :: "'a list \<Rightarrow> 'a spsc" where
  "spsc_init junk = \<lparr>sp_head = 0, sp_tail = 0, sp_storage = junk\<rparr>"

definition slot_index :: "u64 \<Rightarrow> u64 \<Rightarrow> nat" where
  "slot_index cap i = unat (i AND (cap - 1))"

definition spsc_try_push :: "u64 \<Rightarrow> 'a \<Rightarrow> 'a spsc \<Rightarrow> bool \<times> 'a spsc" where
  "spsc_try_push cap item rb =
     (let tail = sp_tail rb; head = sp_head rb in
      if tail - head \<ge> cap then (False, rb)
      else (True, rb\<lparr>sp_storage := (sp_storage rb)[slot_index cap tail := item],
                     sp_tail := tail + 1\<rparr>))"

definition spsc_try_pop :: "u64 \<Rightarrow> 'a spsc \<Rightarrow> 'a option \<times> 'a spsc" where
  "spsc_try_pop cap rb =
     (let head = sp_head rb; tail = sp_tail rb in
      if head = tail then (None, rb)
      else (Some (sp_storage rb ! slot_index cap head), rb\<lparr>sp_head := head + 1\<rparr>))"

section \<open>Index arithmetic\<close>

lemma capacity_okE:
  assumes "capacity_ok cap"
  obtains k where "k < 64" "cap = 2 ^ k" "unat cap = 2 ^ k"
proof -
  from assms obtain k where "k < 64" "cap = 2 ^ k"
    using word_and_pred_eq_0 [of cap] by (auto simp: capacity_ok_def)
  then show ?thesis using that unat_pow2_word [of k, where 'a = 64] by simp
qed

lemma capacity_pos: "capacity_ok cap \<Longrightarrow> 0 < unat cap"
  by (elim capacity_okE) simp

lemma capacity_le_half: "capacity_ok cap \<Longrightarrow> unat cap \<le> 2 ^ 63"
proof (elim capacity_okE)
  fix k :: nat
  assume "k < 64" and "unat cap = 2 ^ k"
  moreover from \<open>k < 64\<close> have "(2::nat) ^ k \<le> 2 ^ 63" by (intro power_increasing) auto
  ultimately show ?thesis by simp
qed

lemma slot_index_mod [ring_simps]:
  "capacity_ok cap \<Longrightarrow> slot_index cap i = unat i mod unat cap"
  by (elim capacity_okE) (simp add: slot_index_def unat_and_pow2_mask)

lemma slot_index_less: "capacity_ok cap \<Longrightarrow> slot_index cap i < unat cap"
  by (simp add: slot_index_mod capacity_pos)

lemma slot_index_add [ring_simps]:
  "capacity_ok cap \<Longrightarrow> slot_index cap (h + of_nat i) = (unat h + i) mod unat cap"
  by (frule slot_index_mod [of cap "h + of_nat i"], elim capacity_okE)
    (simp add: unat_add_of_nat_mod)

text \<open>Counters less than one capacity apart never share a slot, also across the 2^64 wrap.\<close>

lemma slot_index_inj:
  assumes "capacity_ok cap" and "i < unat cap" and "j < unat cap"
    and "slot_index cap (h + of_nat i) = slot_index cap (h + of_nat j)"
  shows "i = j"
  using assms by (auto simp: slot_index_add intro: mod_add_eq_imp_eq)

section \<open>The queue a ring holds\<close>

definition spsc_size :: "'a spsc \<Rightarrow> nat" where
  "spsc_size rb = unat (sp_tail rb - sp_head rb)"

definition spsc_contents :: "u64 \<Rightarrow> 'a spsc \<Rightarrow> 'a list" where
  "spsc_contents cap rb =
     map (\<lambda>i. sp_storage rb ! slot_index cap (sp_head rb + of_nat i)) [0..<spsc_size rb]"

definition spsc_inv :: "u64 \<Rightarrow> 'a spsc \<Rightarrow> bool" where
  "spsc_inv cap rb \<longleftrightarrow> length (sp_storage rb) = unat cap \<and> spsc_size rb \<le> unat cap"

lemma length_spsc_contents [simp]: "length (spsc_contents cap rb) = spsc_size rb"
  by (simp add: spsc_contents_def)

lemma spsc_tail_eq: "sp_tail rb = sp_head rb + of_nat (spsc_size rb)"
  by (simp add: spsc_size_def)

lemma spsc_full_iff: "sp_tail rb - sp_head rb \<ge> cap \<longleftrightarrow> unat cap \<le> spsc_size rb"
  by (simp add: spsc_size_def word_le_nat_alt)

lemma spsc_empty_iff: "sp_head rb = sp_tail rb \<longleftrightarrow> spsc_size rb = 0"
  by (auto simp: spsc_size_def unat_eq_0)

lemma unat_Suc_less_pow:
  assumes "unat d < unat (cap::u64)"
  shows "unat ((d::u64) + 1) = Suc (unat d)"
proof -
  have "unat cap < 2 ^ 64" by (rule order_less_le_trans [OF unsigned_less]) simp
  with assms have "unat d + 1 < 2 ^ 64" by simp
  then show ?thesis by (simp add: unat_word_ariths)
qed

lemma spsc_push_room:
  assumes "capacity_ok cap" and "spsc_inv cap rb" and "spsc_size rb < unat cap"
  shows "\<exists>rb'. spsc_try_push cap x rb = (True, rb') \<and> spsc_inv cap rb' \<and>
           spsc_contents cap rb' = spsc_contents cap rb @ [x]"
proof -
  let ?t = "slot_index cap (sp_tail rb)"
  let ?rb = "rb\<lparr>sp_storage := (sp_storage rb)[?t := x], sp_tail := sp_tail rb + 1\<rparr>"
  have push: "spsc_try_push cap x rb = (True, ?rb)"
    using assms(3) by (simp add: spsc_try_push_def spsc_full_iff Let_def)
  have size: "spsc_size ?rb = Suc (spsc_size rb)"
    using unat_Suc_less_pow [of "sp_tail rb - sp_head rb" cap] assms(3)
    by (simp add: spsc_size_def algebra_simps)
  have t: "?t = slot_index cap (sp_head rb + of_nat (spsc_size rb))"
    by (simp flip: spsc_tail_eq)
  have old: "?t \<noteq> slot_index cap (sp_head rb + of_nat i)" if "i < spsc_size rb" for i
    using that assms(3) slot_index_inj [OF assms(1), of i "spsc_size rb" "sp_head rb"]
    by (auto simp: t)
  have "spsc_contents cap ?rb = spsc_contents cap rb @ [x]"
    unfolding spsc_contents_def size
    using assms(2) slot_index_less [OF assms(1)] old by (simp add: t spsc_inv_def)
  moreover have "spsc_inv cap ?rb" using assms(2,3) size by (simp add: spsc_inv_def)
  ultimately show ?thesis using push by blast
qed

lemma spsc_pop_front:
  assumes "capacity_ok cap" and "spsc_inv cap rb" and "spsc_contents cap rb = x # xs"
  shows "\<exists>rb'. spsc_try_pop cap rb = (Some x, rb') \<and> spsc_inv cap rb' \<and>
           spsc_contents cap rb' = xs"
proof -
  let ?rb = "rb\<lparr>sp_head := sp_head rb + 1\<rparr>"
  from assms(3) have len: "spsc_size rb = Suc (length xs)"
    by (metis length_Cons length_spsc_contents)
  then have "sp_tail rb - sp_head rb \<noteq> 0" by (auto simp: spsc_size_def)
  then have size: "spsc_size ?rb = length xs"
    using len by (simp add: spsc_size_def unat_minus_one diff_diff_add [symmetric])
  have "spsc_contents cap rb =
      sp_storage rb ! slot_index cap (sp_head rb) # spsc_contents cap ?rb"
    unfolding spsc_contents_def size len map_upt_Suc_Cons by (simp add: add.assoc)
  with assms(3) have "sp_storage rb ! slot_index cap (sp_head rb) = x"
    and "spsc_contents cap ?rb = xs" by auto
  moreover have "spsc_inv cap ?rb" using assms(2) size len by (simp add: spsc_inv_def)
  moreover have "sp_head rb \<noteq> sp_tail rb" using len by (simp add: spsc_empty_iff)
  ultimately show ?thesis by (simp add: spsc_try_pop_def)
qed

lemma spsc_inv_init: "length junk = unat cap \<Longrightarrow> spsc_inv cap (spsc_init junk)"
  by (simp add: spsc_inv_def spsc_init_def spsc_size_def)

lemma spsc_contents_init [simp]: "spsc_contents cap (spsc_init junk) = []"
  by (simp add: spsc_contents_def spsc_init_def spsc_size_def)

section \<open>The ring meets the queue contract\<close>

text \<open>The capacity is in the invariant: the contract holds of every legal instantiation.\<close>

definition spsc_ok :: "u64 \<Rightarrow> 'a spsc \<Rightarrow> bool" where
  "spsc_ok cap rb \<longleftrightarrow> capacity_ok cap \<and> spsc_inv cap rb"

interpretation spsc_ring: bounded_fifo "spsc_try_push cap" "spsc_try_pop cap"
    "spsc_contents cap" "spsc_ok cap" "unat cap"
  for cap
proof (unfold_locales, goal_cases)
  case (1 q x)
  then show ?case using spsc_push_room [of cap q x] by (auto simp: spsc_ok_def)
next
  case (2 q x)
  then show ?case by (simp add: spsc_try_push_def spsc_full_iff)
next
  case (3 q x xs)
  then show ?case using spsc_pop_front [of cap q x xs] by (auto simp: spsc_ok_def)
next
  case (4 q)
  then have "sp_head q = sp_tail q"
    using length_spsc_contents [of cap q] by (simp add: spsc_empty_iff del: length_spsc_contents)
  then show ?case by (simp add: spsc_try_pop_def)
next
  case (5 q)
  then show ?case by (simp add: spsc_ok_def spsc_inv_def)
qed

end
