(* ===== verification/Mpsc_Ring.thy ===== *)
theory Mpsc_Ring
  imports Spsc_Ring
begin

text \<open>
  \<open>MpscRingBuffer\<close> of \<open>include/core/ring_buffer.hpp\<close>, as one thread sees it: every slot carries a
  sequence number that says which position may be written or read there. \<open>try_push\<close> is a retry
  loop, so it is a partial function: \<open>None\<close> is a call that never returns. The lemmas show that it
  returns on every well-formed ring, and that the ring is a bounded queue when the capacity is at
  least two. With the capacity one, which the \<open>static_assert\<close>s accept, it is not: the last section
  evaluates the code on it. The threads' interleavings are in theory \<open>Mpsc_Concurrent\<close>.

  \<open>diff\<close> is the two's complement difference of the two counters. The C++ subtracts two
  \<open>ptrdiff_t\<close>, which cannot overflow before 2^63 items have been pushed; \<open>seq_diff_exact\<close> shows
  that up to there this is the exact difference.
\<close>

record 'a mslot =
  ms_data :: 'a
  ms_seq :: u64

record 'a mpsc =
  mp_write :: u64
  mp_read :: u64
  mp_slots :: "'a mslot list"

text \<open>The constructor numbers the slots; their data is whatever \<open>junk\<close> they were born with.\<close>

definition mpsc_init :: "'a list \<Rightarrow> 'a mpsc" where
  "mpsc_init junk = \<lparr>mp_write = 0, mp_read = 0,
     mp_slots = map (\<lambda>i. \<lparr>ms_data = junk ! i, ms_seq = of_nat i\<rparr>) [0..<length junk]\<rparr>"

definition seq_diff :: "u64 \<Rightarrow> u64 \<Rightarrow> int" where
  "seq_diff seq pos = sint (seq - pos)"

partial_function (option) mpsc_push_loop ::
  "u64 \<Rightarrow> 'a \<Rightarrow> u64 \<Rightarrow> 'a mpsc \<Rightarrow> (bool \<times> 'a mpsc) option" where
  "mpsc_push_loop cap item pos rb =
     (let j = slot_index cap pos;
          diff = seq_diff (ms_seq (mp_slots rb ! j)) pos
      in if diff = 0 then
           (if mp_write rb = pos then
              Some (True, rb\<lparr>mp_write := pos + 1,
                mp_slots := (mp_slots rb)[j := \<lparr>ms_data = item, ms_seq = pos + 1\<rparr>]\<rparr>)
            else mpsc_push_loop cap item (mp_write rb) rb)
         else if diff < 0 then Some (False, rb)
         else mpsc_push_loop cap item (mp_write rb) rb)"

definition mpsc_try_push :: "u64 \<Rightarrow> 'a \<Rightarrow> 'a mpsc \<Rightarrow> (bool \<times> 'a mpsc) option" where
  "mpsc_try_push cap item rb = mpsc_push_loop cap item (mp_write rb) rb"

definition mpsc_try_pop :: "u64 \<Rightarrow> 'a mpsc \<Rightarrow> 'a option \<times> 'a mpsc" where
  "mpsc_try_pop cap rb =
     (let pos = mp_read rb; j = slot_index cap pos; slot = mp_slots rb ! j in
      if ms_seq slot \<noteq> pos + 1 then (None, rb)
      else (Some (ms_data slot),
        rb\<lparr>mp_slots := (mp_slots rb)[j := slot\<lparr>ms_seq := pos + cap\<rparr>], mp_read := pos + 1\<rparr>))"

lemma seq_diff_self [simp]: "seq_diff p p = 0"
  by (simp add: seq_diff_def)

lemma seq_diff_eq_0 [simp]: "seq_diff s p = 0 \<longleftrightarrow> s = p"
  unfolding seq_diff_def signed_eq_0_iff by simp

lemma sint_of_int64: "sint (of_int x :: u64) = signed_take_bit 63 x"
  by (simp add: signed_of_int)

lemma sint_of_nat: "n < 2 ^ 63 \<Longrightarrow> sint (of_nat n :: u64) = int n"
  by (simp add: signed_of_nat signed_take_bit_int_eq_self)

text \<open>Up to 2^63 pushes the difference is the one the \<open>ptrdiff_t\<close> subtraction computes.\<close>

lemma seq_diff_exact:
  assumes "a < 2 ^ 63" and "b < 2 ^ 63"
  shows "seq_diff (of_nat a) (of_nat b) = sint (of_nat a :: u64) - sint (of_nat b :: u64)"
proof -
  have "(of_nat a - of_nat b :: u64) = of_int (int a - int b)" by simp
  then have "sint (of_nat a - of_nat b :: u64) = signed_take_bit 63 (int a - int b)"
    by (simp only: sint_of_int64)
  also have "\<dots> = int a - int b" using assms by (intro signed_take_bit_int_eq_self) auto
  finally show ?thesis using assms by (simp add: seq_diff_def sint_of_nat)
qed

section \<open>The queue a ring holds\<close>

definition mpsc_size :: "'a mpsc \<Rightarrow> nat" where
  "mpsc_size rb = unat (mp_write rb - mp_read rb)"

abbreviation mpsc_slot :: "u64 \<Rightarrow> 'a mpsc \<Rightarrow> nat \<Rightarrow> 'a mslot" where
  "mpsc_slot cap rb i \<equiv> mp_slots rb ! slot_index cap (mp_read rb + of_nat i)"

definition mpsc_contents :: "u64 \<Rightarrow> 'a mpsc \<Rightarrow> 'a list" where
  "mpsc_contents cap rb = map (\<lambda>i. ms_data (mpsc_slot cap rb i)) [0..<mpsc_size rb]"

text \<open>Held positions are marked readable, the others of the lap are marked writable.\<close>

definition mpsc_inv :: "u64 \<Rightarrow> 'a mpsc \<Rightarrow> bool" where
  "mpsc_inv cap rb \<longleftrightarrow> capacity_ok cap \<and> 2 \<le> unat cap \<and>
     length (mp_slots rb) = unat cap \<and> mpsc_size rb \<le> unat cap \<and>
     (\<forall>i < unat cap. ms_seq (mpsc_slot cap rb i) =
        mp_read rb + of_nat i + (if i < mpsc_size rb then 1 else 0))"

lemma mpsc_inv_seq:
  "mpsc_inv cap rb \<Longrightarrow> i < unat cap \<Longrightarrow> ms_seq (mpsc_slot cap rb i) =
     mp_read rb + of_nat i + (if i < mpsc_size rb then 1 else 0)"
  by (simp add: mpsc_inv_def)

lemma mpsc_inv_seq0:
  assumes "mpsc_inv cap rb"
  shows "ms_seq (mp_slots rb ! slot_index cap (mp_read rb)) =
     mp_read rb + (if 0 < mpsc_size rb then 1 else 0)"
proof -
  from assms have "0 < unat cap" by (simp add: mpsc_inv_def)
  from mpsc_inv_seq [OF assms this] show ?thesis by simp
qed

lemma length_mpsc_contents [simp]: "length (mpsc_contents cap rb) = mpsc_size rb"
  by (simp add: mpsc_contents_def)

lemma mpsc_write_eq: "mp_write rb = mp_read rb + of_nat (mpsc_size rb)"
  by (simp add: mpsc_size_def)

lemma slot_index_lap: "capacity_ok cap \<Longrightarrow> slot_index cap (p + cap) = slot_index cap p"
  using slot_index_add [of cap p "unat cap"] slot_index_mod [of cap p] by simp

lemma full_diff_negative:
  assumes "capacity_ok cap" and "2 \<le> unat cap"
  shows "seq_diff (p + 1) (p + cap) < 0"
proof -
  from assms(1) obtain k where k: "k < 64" "cap = 2 ^ k" "unat cap = 2 ^ k" by (elim capacity_okE)
  from k(1) have le: "(2::int) ^ k \<le> 2 ^ 63" by (intro power_increasing) auto
  from assms(2) k(3) have "(2::nat) \<le> 2 ^ k" by simp
  then have ge: "(2::int) \<le> 2 ^ k" by (metis of_nat_le_iff of_nat_numeral of_nat_power)
  have "p + 1 - (p + cap) = of_int (1 - 2 ^ k)" by (simp add: k(2))
  then have "seq_diff (p + 1) (p + cap) = signed_take_bit 63 (1 - 2 ^ k)"
    by (simp only: seq_diff_def sint_of_int64)
  also have "\<dots> = 1 - 2 ^ k" using le ge by (intro signed_take_bit_int_eq_self) auto
  finally show ?thesis using ge by simp
qed

lemma mpsc_push_full:
  assumes "mpsc_inv cap rb" and "mpsc_size rb = unat cap"
  shows "mpsc_try_push cap x rb = Some (False, rb)"
proof -
  from assms have cap: "capacity_ok cap" "2 \<le> unat cap" by (auto simp: mpsc_inv_def)
  then have seq: "ms_seq (mp_slots rb ! slot_index cap (mp_read rb)) = mp_read rb + 1"
    using mpsc_inv_seq0 [OF assms(1)] assms(2) by simp
  have w: "mp_write rb = mp_read rb + cap" using mpsc_write_eq [of rb] assms(2) by simp
  have "seq_diff (ms_seq (mp_slots rb ! slot_index cap (mp_write rb))) (mp_write rb) < 0"
    using seq full_diff_negative [OF cap, of "mp_read rb"]
    by (simp add: w slot_index_lap [OF cap(1)])
  moreover from this have "ms_seq (mp_slots rb ! slot_index cap (mp_write rb)) \<noteq> mp_write rb"
    by auto
  ultimately show ?thesis by (simp add: mpsc_try_push_def mpsc_push_loop.simps Let_def)
qed

lemma mpsc_push_room:
  assumes "mpsc_inv cap rb" and "mpsc_size rb < unat cap"
  shows "\<exists>rb'. mpsc_try_push cap x rb = Some (True, rb') \<and> mpsc_inv cap rb' \<and>
           mpsc_contents cap rb' = mpsc_contents cap rb @ [x]"
proof -
  let ?n = "mpsc_size rb" and ?j = "slot_index cap (mp_write rb)"
  define rb' where "rb' = rb\<lparr>mp_write := mp_write rb + 1, mp_slots := (mp_slots rb)
      [?j := \<lparr>ms_data = x, ms_seq = mp_write rb + 1\<rparr>]\<rparr>"
  have rb': "mp_read rb' = mp_read rb"
    "mp_slots rb' = (mp_slots rb)[?j := \<lparr>ms_data = x, ms_seq = mp_write rb + 1\<rparr>]"
    by (simp_all add: rb'_def)
  from assms have cap: "capacity_ok cap" "2 \<le> unat cap" "length (mp_slots rb) = unat cap"
    by (auto simp: mpsc_inv_def)
  note seqs = mpsc_inv_seq [OF assms(1)]
  have j: "?j = slot_index cap (mp_read rb + of_nat ?n)" by (simp flip: mpsc_write_eq)
  have jl: "?j < length (mp_slots rb)" using slot_index_less [OF cap(1)] cap(3) by simp
  have other: "?j \<noteq> slot_index cap (mp_read rb + of_nat i)" if "i < unat cap" and "i \<noteq> ?n" for i
    using slot_index_inj [OF cap(1) that(1) assms(2)] that(2) j by metis
  have "ms_seq (mp_slots rb ! ?j) = mp_write rb"
    using seqs [OF assms(2)] by (simp flip: mpsc_write_eq)
  then have push: "mpsc_try_push cap x rb = Some (True, rb')"
    by (simp add: mpsc_try_push_def mpsc_push_loop.simps Let_def rb'_def)
  have size: "mpsc_size rb' = Suc ?n"
    using unat_Suc_less_pow [of "mp_write rb - mp_read rb" cap] assms(2)
    by (simp add: mpsc_size_def rb'_def algebra_simps)
  have same: "mpsc_slot cap rb' i = mpsc_slot cap rb i" if "i < unat cap" and "i \<noteq> ?n" for i
    using other [OF that] by (simp add: rb')
  have new: "mpsc_slot cap rb' ?n = \<lparr>ms_data = x, ms_seq = mp_write rb + 1\<rparr>"
    using jl by (simp add: rb' j)
  have "mpsc_contents cap rb' = mpsc_contents cap rb @ [x]"
    using same new assms(2) unfolding mpsc_contents_def size by simp
  moreover have "ms_seq (mpsc_slot cap rb' i) =
      mp_read rb' + of_nat i + (if i < mpsc_size rb' then 1 else 0)" if "i < unat cap" for i
    using that same [OF that] seqs [OF that] new mpsc_write_eq [of rb]
    by (cases "i = ?n") (auto simp: size rb'(1))
  then have "mpsc_inv cap rb'" using cap assms(2) by (simp add: mpsc_inv_def size rb'(2))
  ultimately show ?thesis using push by blast
qed

lemma mpsc_pop_empty:
  assumes "mpsc_inv cap rb" and "mpsc_size rb = 0"
  shows "mpsc_try_pop cap rb = (None, rb)"
proof -
  from mpsc_inv_seq0 [OF assms(1)] assms(2)
  have "ms_seq (mp_slots rb ! slot_index cap (mp_read rb)) = mp_read rb" by simp
  then show ?thesis by (simp add: mpsc_try_pop_def Let_def)
qed

lemma mpsc_pop_front:
  assumes "mpsc_inv cap rb" and "mpsc_contents cap rb = x # xs"
  shows "\<exists>rb'. mpsc_try_pop cap rb = (Some x, rb') \<and> mpsc_inv cap rb' \<and>
           mpsc_contents cap rb' = xs"
proof -
  let ?j = "slot_index cap (mp_read rb)"
  define rb' where "rb' = rb\<lparr>mp_slots :=
      (mp_slots rb)[?j := (mp_slots rb ! ?j)\<lparr>ms_seq := mp_read rb + cap\<rparr>],
      mp_read := mp_read rb + 1\<rparr>"
  have rb': "mp_read rb' = mp_read rb + 1"
    "mp_slots rb' = (mp_slots rb)[?j := (mp_slots rb ! ?j)\<lparr>ms_seq := mp_read rb + cap\<rparr>]"
    by (simp_all add: rb'_def)
  from assms(1) have cap: "capacity_ok cap" "2 \<le> unat cap" "length (mp_slots rb) = unat cap"
    and fits: "mpsc_size rb \<le> unat cap"
    by (auto simp: mpsc_inv_def)
  note seqs = mpsc_inv_seq [OF assms(1)]
  have jl: "?j < length (mp_slots rb)" using slot_index_less [OF cap(1)] cap(3) by simp
  have len: "mpsc_size rb = Suc (length xs)"
    using assms(2) by (metis length_Cons length_mpsc_contents)
  then have "mp_write rb - mp_read rb \<noteq> 0" by (auto simp: mpsc_size_def)
  then have size: "mpsc_size rb' = length xs"
    using len by (simp add: mpsc_size_def rb'_def unat_minus_one diff_diff_add [symmetric])
  have head: "ms_data (mp_slots rb ! ?j) = x"
    and tail: "map (\<lambda>i. ms_data (mpsc_slot cap rb (Suc i))) [0..<length xs] = xs"
    using assms(2) unfolding mpsc_contents_def len map_upt_Suc_Cons by auto
  have "ms_seq (mp_slots rb ! ?j) = mp_read rb + 1" using mpsc_inv_seq0 [OF assms(1)] len by simp
  then have pop: "mpsc_try_pop cap rb = (Some x, rb')"
    by (simp add: mpsc_try_pop_def Let_def head rb'_def)
  have next_slot: "mpsc_slot cap rb' i = mpsc_slot cap rb (Suc i)" if "Suc i < unat cap" for i
  proof -
    have "0 < unat cap" using cap(2) by simp
    then have "?j \<noteq> slot_index cap (mp_read rb + of_nat (Suc i))"
      using slot_index_inj [OF cap(1) _ that, of 0 "mp_read rb"] by auto
    then show ?thesis by (simp add: rb' add.assoc)
  qed
  have last_slot: "mpsc_slot cap rb' i = (mp_slots rb ! ?j)\<lparr>ms_seq := mp_read rb + cap\<rparr>"
    if "Suc i = unat cap" for i
  proof -
    have "1 + of_nat i = cap" using that by (metis of_nat_Suc of_nat_unat ucast_id)
    then have "mp_read rb' + of_nat i = mp_read rb + cap" by (simp add: rb' add.assoc)
    then show ?thesis using jl slot_index_lap [OF cap(1)] by (simp add: rb'(2))
  qed
  have "mpsc_contents cap rb' = map (\<lambda>i. ms_data (mpsc_slot cap rb (Suc i))) [0..<length xs]"
    unfolding mpsc_contents_def size
  proof (intro map_cong refl)
    fix i
    assume "i \<in> set [0..<length xs]"
    then have "Suc i \<le> unat cap" using fits len by simp
    then show "ms_data (mpsc_slot cap rb' i) = ms_data (mpsc_slot cap rb (Suc i))"
      using next_slot [of i] last_slot [of i] fits len \<open>i \<in> set [0..<length xs]\<close>
      by (cases "Suc i = unat cap") auto
  qed
  with tail have "mpsc_contents cap rb' = xs" by simp
  moreover have "ms_seq (mpsc_slot cap rb' i) =
      mp_read rb' + of_nat i + (if i < mpsc_size rb' then 1 else 0)" if "i < unat cap" for i
  proof (cases "Suc i = unat cap")
    case True
    then have "cap = 1 + of_nat i" by (metis of_nat_Suc of_nat_unat ucast_id)
    with True last_slot [OF True] fits len show ?thesis by (simp add: size rb'(1))
  next
    case False
    with that have "Suc i < unat cap" by simp
    from next_slot [OF this] seqs [OF this] len show ?thesis by (simp add: size rb'(1))
  qed
  then have "mpsc_inv cap rb'" using cap fits len by (simp add: mpsc_inv_def size rb'(2))
  ultimately show ?thesis using pop by blast
qed

lemma mpsc_contents_init [simp]: "mpsc_contents cap (mpsc_init junk) = []"
  by (simp add: mpsc_contents_def mpsc_size_def mpsc_init_def)

lemma mpsc_inv_init:
  assumes "capacity_ok cap" and "2 \<le> unat cap" and "length junk = unat cap"
  shows "mpsc_inv cap (mpsc_init junk)"
proof -
  have "slot_index cap (of_nat i) = i" if "i < unat cap" for i
    using slot_index_add [OF assms(1), of 0 i] that by simp
  then show ?thesis using assms by (simp add: mpsc_inv_def mpsc_init_def mpsc_size_def)
qed

section \<open>The ring meets the queue contract\<close>

text \<open>The result of a call that returns; on well-formed rings every call does.\<close>

definition mpsc_push :: "u64 \<Rightarrow> 'a \<Rightarrow> 'a mpsc \<Rightarrow> bool \<times> 'a mpsc" where
  "mpsc_push cap x rb = (case mpsc_try_push cap x rb of Some r \<Rightarrow> r | None \<Rightarrow> (False, rb))"

lemma mpsc_try_push_returns:
  "mpsc_inv cap rb \<Longrightarrow> mpsc_try_push cap x rb = Some (mpsc_push cap x rb)"
  using mpsc_push_full [of cap rb x] mpsc_push_room [of cap rb x]
  by (cases "mpsc_size rb < unat cap") (auto simp: mpsc_push_def mpsc_inv_def)

interpretation mpsc_ring: bounded_fifo "mpsc_push cap" "mpsc_try_pop cap"
    "mpsc_contents cap" "mpsc_inv cap" "unat cap"
  for cap
proof (unfold_locales, goal_cases)
  case (1 q x)
  then show ?case using mpsc_push_room [of cap q x] by (auto simp: mpsc_push_def)
next
  case (2 q x)
  then have "mpsc_size q = unat cap" by (simp add: mpsc_inv_def)
  with 2(1) show ?case by (simp add: mpsc_push_def mpsc_push_full)
next
  case (3 q x xs)
  then show ?case by (rule mpsc_pop_front)
next
  case (4 q)
  then have "mpsc_size q = 0" by (metis length_mpsc_contents list.size(3))
  with 4(1) show ?case by (rule mpsc_pop_empty)
next
  case (5 q)
  then show ?case by (simp add: mpsc_inv_def)
qed

section \<open>What a single thread is promised\<close>

text \<open>C25: On every well-formed ring of capacity at least two a push returns (the retry loop ends);
  it is accepted exactly when fewer than capacity items are held and then appends the item, and
  otherwise reports failure and changes nothing; a pop removes the oldest item, or reports
  emptiness and changes nothing. The ring stays well-formed, whatever the wrapped counters are.\<close>

theorem mpsc_is_bounded_queue:
  assumes "mpsc_inv cap rb"
  shows "(\<exists>ok rb'. mpsc_try_push cap x rb = Some (ok, rb') \<and> mpsc_inv cap rb' \<and>
            (ok \<longleftrightarrow> length (mpsc_contents cap rb) < unat cap) \<and>
            mpsc_contents cap rb' = mpsc_contents cap rb @ (if ok then [x] else []) \<and>
            (\<not> ok \<longrightarrow> rb' = rb)) \<and>
         (\<exists>r rb'. mpsc_try_pop cap rb = (r, rb') \<and> mpsc_inv cap rb' \<and>
            mpsc_contents cap rb = (case r of None \<Rightarrow> [] | Some y \<Rightarrow> [y]) @ mpsc_contents cap rb' \<and>
            (r = None \<longrightarrow> mpsc_contents cap rb = [] \<and> rb' = rb))"
proof -
  let ?push = "mpsc_try_push cap x rb" and ?pop = "mpsc_try_pop cap rb"
  have push: "?push = Some (mpsc_push cap x rb)" using assms by (rule mpsc_try_push_returns)
  have "\<exists>ok rb'. ?push = Some (ok, rb') \<and> mpsc_inv cap rb' \<and>
      (ok \<longleftrightarrow> length (mpsc_contents cap rb) < unat cap) \<and>
      mpsc_contents cap rb' = mpsc_contents cap rb @ (if ok then [x] else []) \<and>
      (\<not> ok \<longrightarrow> rb' = rb)"
    using assms
  proof (cases rule: mpsc_ring.push_cases [of cap rb x])
    case (room q)
    with push show ?thesis by (intro exI [of _ True] exI [of _ q]) simp
  next
    case full
    with push assms show ?thesis by (intro exI [of _ False] exI [of _ rb]) simp
  qed
  moreover have "\<exists>r rb'. ?pop = (r, rb') \<and> mpsc_inv cap rb' \<and>
      mpsc_contents cap rb = (case r of None \<Rightarrow> [] | Some y \<Rightarrow> [y]) @ mpsc_contents cap rb' \<and>
      (r = None \<longrightarrow> mpsc_contents cap rb = [] \<and> rb' = rb)"
    using assms
  proof (cases rule: mpsc_ring.pop_cases [of cap rb])
    case (front y q)
    then show ?thesis by (intro exI [of _ "Some y"] exI [of _ q]) simp
  next
    case none
    with assms show ?thesis by (intro exI [of _ None] exI [of _ rb]) simp
  qed
  ultimately show ?thesis by (rule conjI)
qed

lemma mpsc_inv_init_2: "mpsc_inv 2 (mpsc_init [a, b])"
  by (rule mpsc_inv_init) (simp_all add: capacity_ok_def)

theorem mpsc_is_bounded_queue_witness:
  "\<exists>rb'. mpsc_try_push 2 (5::nat) (mpsc_init [0, 0]) = Some (True, rb') \<and>
     mpsc_contents 2 rb' = [5]"
  using mpsc_is_bounded_queue [OF mpsc_inv_init_2 [of 0 0], of 5] by auto

section \<open>Capacity one\<close>

text \<open>
  With \<open>Capacity = 1\<close> the mark "position p is readable" (p + 1) is also the mark "position p + 1
  is writable", so a producer cannot see that the slot still holds an unread item.
\<close>

fun mpsc_push_all :: "u64 \<Rightarrow> 'a list \<Rightarrow> 'a mpsc \<Rightarrow> (bool list \<times> 'a mpsc) option" where
  "mpsc_push_all cap [] rb = Some ([], rb)"
| "mpsc_push_all cap (x # xs) rb =
     (case mpsc_try_push cap x rb of None \<Rightarrow> None
      | Some (ok, rb') \<Rightarrow> (case mpsc_push_all cap xs rb' of None \<Rightarrow> None
          | Some (oks, rb'') \<Rightarrow> Some (ok # oks, rb'')))"

lemma capacity_one_push:
  "mpsc_try_push 1 x \<lparr>mp_write = n, mp_read = r, mp_slots = [\<lparr>ms_data = d, ms_seq = n\<rparr>]\<rparr> =
     Some (True, \<lparr>mp_write = n + 1, mp_read = r, mp_slots = [\<lparr>ms_data = x, ms_seq = n + 1\<rparr>]\<rparr>)"
  by (simp add: mpsc_try_push_def mpsc_push_loop.simps Let_def slot_index_def)

lemma capacity_one_push_all:
  "mpsc_push_all 1 xs \<lparr>mp_write = n, mp_read = r, mp_slots = [\<lparr>ms_data = d, ms_seq = n\<rparr>]\<rparr> =
     Some (replicate (length xs) True,
       \<lparr>mp_write = n + of_nat (length xs), mp_read = r,
        mp_slots = [\<lparr>ms_data = last (d # xs), ms_seq = n + of_nat (length xs)\<rparr>]\<rparr>)"
proof (induction xs arbitrary: n d)
  case (Cons x xs)
  then show ?case using Cons.IH [of "n + 1" x] by (simp add: capacity_one_push add.assoc)
qed simp

text \<open>C40: With the capacity one, which both \<open>static_assert\<close>s accept, the MPSC ring is not a queue:
  it accepts any number of pushes with no pop in between, and after the second one (up to the
  2^64 wrap) the consumer finds the ring empty, so every accepted item is lost.\<close>

theorem mpsc_capacity_one_loses_items:
  assumes "2 \<le> length xs" and "length xs < 2 ^ 64"
  shows "capacity_ok 1 \<and>
    (\<exists>rb. mpsc_push_all 1 xs (mpsc_init [d]) = Some (replicate (length xs) True, rb) \<and>
       mpsc_try_pop 1 rb = (None, rb))"
proof -
  have init: "mpsc_init [d] =
      \<lparr>mp_write = 0, mp_read = 0, mp_slots = [\<lparr>ms_data = d, ms_seq = 0\<rparr>]\<rparr>"
    by (simp add: mpsc_init_def)
  have "(of_nat (length xs) :: u64) \<noteq> 1"
  proof
    assume "(of_nat (length xs) :: u64) = 1"
    then have "unat (of_nat (length xs) :: u64) = 1" by simp
    with assms show False by (simp add: unat_of_nat)
  qed
  then show ?thesis
    unfolding init capacity_one_push_all
    by (simp add: capacity_ok_def mpsc_try_pop_def slot_index_def)
qed

theorem mpsc_capacity_one_loses_items_witness:
  "\<exists>rb. mpsc_push_all 1 [3, 4 :: nat] (mpsc_init [0]) = Some ([True, True], rb) \<and>
     mpsc_try_pop 1 rb = (None, rb)"
proof -
  have "2 \<le> length [3, 4 :: nat]" and "length [3, 4 :: nat] < 2 ^ 64" by simp_all
  from mpsc_capacity_one_loses_items [OF this, of 0]
  show ?thesis by (simp del: mpsc_push_all.simps)
qed

end
