(* ===== verification/Mpsc_Concurrent.thy ===== *)
theory Mpsc_Concurrent
  imports Mpsc_Ring
begin

text \<open>
  \<open>try_push\<close> of \<open>MpscRingBuffer\<close> run by any number of producer threads (numbered by \<open>nat\<close>) and
  \<open>try_pop\<close> run by one consumer. Each atomic access is one step, in program order: a producer
  loads the write cursor, loads the slot's sequence number, compares, claims the position with
  \<open>compare_exchange_weak\<close> (which may fail spuriously), writes the slot's data, publishes it by
  storing the sequence number; the consumer loads the sequence number, reads the data, recycles
  the slot by storing the next lap's sequence number, stores the read cursor.

  Loads may be stale without any bound: a load of the write cursor returns any value it ever had,
  and a load of a sequence number returns any number ever stored in that slot (\<open>mq_hist\<close>). Only
  the read-modify-write of the claim sees the current cursor. This is weaker than what C++
  guarantees, so what holds here holds of the acquire/release code.

  The ghost list \<open>mq_claimed\<close> holds the item of every claimed position, in claim order, and
  \<open>mq_popped\<close> the items handed out. The theorems assume fewer than 2^63 positions claimed so far
  (the range in which the code's signed difference is exact).
\<close>

datatype 'a mp_pc = MIdle | MLoad 'a | MSeq 'a u64 | MCas 'a u64 | MWrite 'a u64 | MStore 'a u64

datatype 'a mc_pc = KIdle | KLoad | KSeq u64 | KRead u64 | KRecycle u64 'a | KCursor u64 'a

record 'a mpsc_sys =
  mq_ring :: "'a mpsc"
  mq_ppc :: "nat \<Rightarrow> 'a mp_pc"
  mq_cpc :: "'a mc_pc"
  mq_claimed :: "'a list"
  mq_popped :: "'a list"
  mq_hist :: "nat \<Rightarrow> nat set"

definition mpsc_sys_start :: "'a list \<Rightarrow> 'a mpsc_sys" where
  "mpsc_sys_start junk = \<lparr>mq_ring = mpsc_init junk, mq_ppc = (\<lambda>_. MIdle), mq_cpc = KIdle,
     mq_claimed = [], mq_popped = [], mq_hist = (\<lambda>j. {j})\<rparr>"

definition mpsc_sys_init :: "u64 \<Rightarrow> 'a mpsc_sys \<Rightarrow> bool" where
  "mpsc_sys_init cap s \<longleftrightarrow> (\<exists>junk. length junk = unat cap \<and> s = mpsc_sys_start junk)"

definition put_slot :: "nat \<Rightarrow> 'a mslot \<Rightarrow> 'a mpsc \<Rightarrow> 'a mpsc" where
  "put_slot j sl rb = rb\<lparr>mp_slots := (mp_slots rb)[j := sl]\<rparr>"

definition remember :: "nat \<Rightarrow> nat \<Rightarrow> (nat \<Rightarrow> nat set) \<Rightarrow> nat \<Rightarrow> nat set" where
  "remember j n h = h(j := insert n (h j))"

inductive mpsc_step :: "u64 \<Rightarrow> 'a mpsc_sys \<Rightarrow> 'a mpsc_sys \<Rightarrow> bool" for cap where
  m_call: "mq_ppc s i = MIdle \<Longrightarrow>
    mpsc_step cap s (s\<lparr>mq_ppc := (mq_ppc s)(i := MLoad x)\<rparr>)"
| m_load: "mq_ppc s i = MLoad x \<Longrightarrow> k \<le> length (mq_claimed s) \<Longrightarrow>
    mpsc_step cap s (s\<lparr>mq_ppc := (mq_ppc s)(i := MSeq x (of_nat k))\<rparr>)"
| m_seq: "mq_ppc s i = MSeq x pos \<Longrightarrow> n \<in> mq_hist s (slot_index cap pos) \<Longrightarrow>
    mpsc_step cap s (s\<lparr>mq_ppc := (mq_ppc s)(i :=
      (if seq_diff (of_nat n) pos = 0 then MCas x pos
       else if seq_diff (of_nat n) pos < 0 then MIdle else MLoad x))\<rparr>)"
| m_cas: "mq_ppc s i = MCas x pos \<Longrightarrow> mp_write (mq_ring s) = pos \<Longrightarrow>
    mpsc_step cap s (s\<lparr>mq_ring := (mq_ring s)\<lparr>mp_write := pos + 1\<rparr>,
      mq_ppc := (mq_ppc s)(i := MWrite x pos), mq_claimed := mq_claimed s @ [x]\<rparr>)"
| m_cas_fail: "mq_ppc s i = MCas x pos \<Longrightarrow> k \<le> length (mq_claimed s) \<Longrightarrow>
    mpsc_step cap s (s\<lparr>mq_ppc := (mq_ppc s)(i := MSeq x (of_nat k))\<rparr>)"
| m_write: "mq_ppc s i = MWrite x pos \<Longrightarrow> j = slot_index cap pos \<Longrightarrow>
    mpsc_step cap s (s\<lparr>mq_ring := put_slot j ((mp_slots (mq_ring s) ! j)\<lparr>ms_data := x\<rparr>) (mq_ring s),
      mq_ppc := (mq_ppc s)(i := MStore x pos)\<rparr>)"
| m_store: "mq_ppc s i = MStore x pos \<Longrightarrow> j = slot_index cap pos \<Longrightarrow>
    mpsc_step cap s (s\<lparr>mq_ring := put_slot j ((mp_slots (mq_ring s) ! j)\<lparr>ms_seq := pos + 1\<rparr>) (mq_ring s),
      mq_ppc := (mq_ppc s)(i := MIdle),
      mq_hist := remember j (unat (pos + 1)) (mq_hist s)\<rparr>)"
| k_call: "mq_cpc s = KIdle \<Longrightarrow> mpsc_step cap s (s\<lparr>mq_cpc := KLoad\<rparr>)"
| k_load: "mq_cpc s = KLoad \<Longrightarrow> mpsc_step cap s (s\<lparr>mq_cpc := KSeq (mp_read (mq_ring s))\<rparr>)"
| k_seq: "mq_cpc s = KSeq pos \<Longrightarrow> n \<in> mq_hist s (slot_index cap pos) \<Longrightarrow>
    mpsc_step cap s (s\<lparr>mq_cpc := (if of_nat n \<noteq> pos + 1 then KIdle else KRead pos)\<rparr>)"
| k_read: "mq_cpc s = KRead pos \<Longrightarrow>
    mpsc_step cap s (s\<lparr>mq_cpc := KRecycle pos (ms_data (mp_slots (mq_ring s) ! slot_index cap pos))\<rparr>)"
| k_recycle: "mq_cpc s = KRecycle pos x \<Longrightarrow> j = slot_index cap pos \<Longrightarrow>
    mpsc_step cap s (s\<lparr>mq_ring := put_slot j ((mp_slots (mq_ring s) ! j)\<lparr>ms_seq := pos + cap\<rparr>) (mq_ring s),
      mq_cpc := KCursor pos x, mq_popped := mq_popped s @ [x],
      mq_hist := remember j (unat (pos + cap)) (mq_hist s)\<rparr>)"
| k_cursor: "mq_cpc s = KCursor pos x \<Longrightarrow>
    mpsc_step cap s (s\<lparr>mq_ring := (mq_ring s)\<lparr>mp_read := pos + 1\<rparr>, mq_cpc := KIdle\<rparr>)"

abbreviation mpsc_reach :: "u64 \<Rightarrow> 'a mpsc_sys \<Rightarrow> bool" where
  "mpsc_reach cap \<equiv> reach (mpsc_sys_init cap) (mpsc_step cap)"

section \<open>Slots, positions and laps\<close>

text \<open>
  With \<open>R\<close> positions consumed and \<open>W\<close> claimed, a claimed and unconsumed position \<open>p\<close> is either
  still being written (its slot's number is \<open>p\<close>) or published (\<open>p + 1\<close>, with the claimed item in
  it), and the positions one lap ahead of the consumer are free. \<open>S\<close> and \<open>D\<close> are the slots'
  sequence numbers and data.
\<close>

definition slots_ok :: "nat \<Rightarrow> nat \<Rightarrow> 'a list \<Rightarrow> (nat \<Rightarrow> nat) \<Rightarrow> (nat \<Rightarrow> 'a) \<Rightarrow> bool" where
  "slots_ok c R cl S D \<longleftrightarrow> R \<le> length cl \<and> length cl \<le> R + c \<and>
     (\<forall>p. R \<le> p \<and> p < length cl \<longrightarrow>
        S (p mod c) = p \<or> (S (p mod c) = Suc p \<and> D (p mod c) = cl ! p)) \<and>
     (\<forall>p. length cl \<le> p \<and> p < R + c \<longrightarrow> S (p mod c) = p)"

lemma lap_inj:
  fixes c :: nat
  assumes "p mod c = q mod c" and "R \<le> p" "p < R + c" and "R \<le> q" "q < R + c"
  shows "p = q"
proof -
  from assms have "p - R < c" and "q - R < c" by linarith+
  then have "p - R = q - R"
    using mod_add_eq_imp_eq [of R "p - R" c "q - R"] assms(1,2,4) by simp
  with assms(2,4) show ?thesis by simp
qed

text \<open>A sequence number equal to the next position proves there is room. This is where the
  capacity must be at least two.\<close>

lemma slots_room:
  assumes "slots_ok c R cl S D" and "2 \<le> c" and "length cl \<le> S (length cl mod c)"
  shows "length cl < R + c \<and> S (length cl mod c) = length cl"
proof -
  have "length cl < R + c"
  proof (rule ccontr)
    assume "\<not> length cl < R + c"
    with assms(1) have full: "length cl = R + c" by (simp add: slots_ok_def)
    with assms(1,2) have "S (R mod c) = R \<or> S (R mod c) = Suc R" by (auto simp: slots_ok_def)
    with assms(2,3) show False by (auto simp: full)
  qed
  with assms(1) show ?thesis by (simp add: slots_ok_def)
qed

lemma slots_claim:
  assumes "slots_ok c R cl S D" and "length cl < R + c"
  shows "slots_ok c R (cl @ [x]) S D"
  using assms by (auto simp: slots_ok_def nth_append less_Suc_eq)

lemma slots_lap:
  assumes "slots_ok c R cl S D" and "R \<le> p" "p < length cl" and "R \<le> q" "q < R + c" "q \<noteq> p"
  shows "q mod c \<noteq> p mod c"
  using assms lap_inj [of q c p R] by (auto simp: slots_ok_def)

lemma slots_fill:
  assumes "slots_ok c R cl S D" and "R \<le> p" "p < length cl" and "S (p mod c) = p"
  shows "slots_ok c R cl S (D(p mod c := x))"
  unfolding slots_ok_def
proof (intro conjI allI impI)
  fix q
  assume q: "R \<le> q \<and> q < length cl"
  with assms(1) show "S (q mod c) = q \<or>
      (S (q mod c) = Suc q \<and> (D(p mod c := x)) (q mod c) = cl ! q)"
    using assms(4) slots_lap [OF assms(1-3), of q] by (cases "q = p") (auto simp: slots_ok_def)
qed (use assms in \<open>auto simp: slots_ok_def\<close>)

lemma slots_publish:
  assumes "slots_ok c R cl S D" and "R \<le> p" "p < length cl" and "D (p mod c) = cl ! p"
  shows "slots_ok c R cl (S(p mod c := Suc p)) D"
  unfolding slots_ok_def
proof (intro conjI allI impI)
  fix q
  assume q: "R \<le> q \<and> q < length cl"
  with assms(1) show "(S(p mod c := Suc p)) (q mod c) = q \<or>
      ((S(p mod c := Suc p)) (q mod c) = Suc q \<and> D (q mod c) = cl ! q)"
    using assms(4) slots_lap [OF assms(1-3), of q] by (cases "q = p") (auto simp: slots_ok_def)
next
  fix q
  assume q: "length cl \<le> q \<and> q < R + c"
  with assms(1,3) slots_lap [OF assms(1-3), of q]
  show "(S(p mod c := Suc p)) (q mod c) = q" by (auto simp: slots_ok_def)
qed (use assms in \<open>auto simp: slots_ok_def\<close>)

text \<open>A sequence number one past the read position proves an item is there.\<close>

lemma slots_ready:
  assumes "slots_ok c R cl S D" and "0 < c" and "Suc R \<le> S (R mod c)"
  shows "R < length cl \<and> S (R mod c) = Suc R \<and> D (R mod c) = cl ! R"
proof -
  have "R < length cl"
  proof (rule ccontr)
    assume "\<not> R < length cl"
    with assms(1,2) have "S (R mod c) = R" by (simp add: slots_ok_def)
    with assms(3) show False by simp
  qed
  with assms show ?thesis by (force simp: slots_ok_def)
qed

lemma slots_recycle:
  assumes "slots_ok c R cl S D" and "R < length cl" and "0 < c"
  shows "slots_ok c (Suc R) cl (S(R mod c := R + c)) D"
  unfolding slots_ok_def
proof (intro conjI allI impI)
  fix p
  assume p: "Suc R \<le> p \<and> p < length cl"
  with assms(1) have "p mod c \<noteq> R mod c" using lap_inj [of p c R R] by (auto simp: slots_ok_def)
  with p assms(1) show "(S(R mod c := R + c)) (p mod c) = p \<or>
      ((S(R mod c := R + c)) (p mod c) = Suc p \<and> D (p mod c) = cl ! p)"
    by (simp add: slots_ok_def)
next
  fix p
  assume p: "length cl \<le> p \<and> p < Suc R + c"
  show "(S(R mod c := R + c)) (p mod c) = p"
  proof (cases "p = R + c")
    case False
    with p have "p < R + c" by simp
    with p assms(2) have "p mod c \<noteq> R mod c" using lap_inj [of p c R R] by auto
    with p \<open>p < R + c\<close> assms(1) show ?thesis by (simp add: slots_ok_def)
  qed simp
qed (use assms in \<open>auto simp: slots_ok_def\<close>)

section \<open>The invariant\<close>

definition seq_at :: "'a mpsc \<Rightarrow> nat \<Rightarrow> nat" where
  "seq_at rb j = unat (ms_seq (mp_slots rb ! j))"

definition data_at :: "'a mpsc \<Rightarrow> nat \<Rightarrow> 'a" where
  "data_at rb j = ms_data (mp_slots rb ! j)"

text \<open>What a producer's program counter knows; \<open>c\<close> slots, \<open>R\<close> consumed, \<open>cl\<close> claimed.\<close>

fun mp_knows ::
  "nat \<Rightarrow> nat \<Rightarrow> 'a list \<Rightarrow> (nat \<Rightarrow> nat) \<Rightarrow> (nat \<Rightarrow> 'a) \<Rightarrow> (nat \<Rightarrow> nat set) \<Rightarrow> 'a mp_pc \<Rightarrow> bool"
where
  "mp_knows c R cl S D H MIdle = True"
| "mp_knows c R cl S D H (MLoad x) = True"
| "mp_knows c R cl S D H (MSeq x pos) = (unat pos \<le> length cl)"
| "mp_knows c R cl S D H (MCas x pos) =
     (unat pos \<le> length cl \<and> unat pos \<in> H (unat pos mod c))"
| "mp_knows c R cl S D H (MWrite x pos) =
     (R \<le> unat pos \<and> unat pos < length cl \<and> S (unat pos mod c) = unat pos \<and> cl ! unat pos = x)"
| "mp_knows c R cl S D H (MStore x pos) =
     (R \<le> unat pos \<and> unat pos < length cl \<and> S (unat pos mod c) = unat pos \<and> cl ! unat pos = x \<and>
      D (unat pos mod c) = x)"

text \<open>The position a producer owns, between its claim and its publication.\<close>

fun owned :: "'a mp_pc \<Rightarrow> nat option" where
  "owned (MWrite x pos) = Some (unat pos)"
| "owned (MStore x pos) = Some (unat pos)"
| "owned _ = None"

fun mc_knows :: "nat \<Rightarrow> nat \<Rightarrow> 'a list \<Rightarrow> (nat \<Rightarrow> nat) \<Rightarrow> u64 \<Rightarrow> 'a mc_pc \<Rightarrow> bool" where
  "mc_knows c R cl S rd KIdle = (unat rd = R)"
| "mc_knows c R cl S rd KLoad = (unat rd = R)"
| "mc_knows c R cl S rd (KSeq pos) = (unat rd = R \<and> unat pos = R)"
| "mc_knows c R cl S rd (KRead pos) =
     (unat rd = R \<and> unat pos = R \<and> R < length cl \<and> S (R mod c) = Suc R)"
| "mc_knows c R cl S rd (KRecycle pos x) =
     (unat rd = R \<and> unat pos = R \<and> R < length cl \<and> S (R mod c) = Suc R \<and> x = cl ! R)"
| "mc_knows c R cl S rd (KCursor pos x) = (unat rd = unat pos \<and> Suc (unat pos) = R)"

definition mpsc_ok ::
  "u64 \<Rightarrow> 'a mpsc \<Rightarrow> (nat \<Rightarrow> 'a mp_pc) \<Rightarrow> 'a mc_pc \<Rightarrow> 'a list \<Rightarrow> 'a list \<Rightarrow> (nat \<Rightarrow> nat set) \<Rightarrow> bool"
where
  "mpsc_ok cap rb ppc k cl out H \<longleftrightarrow>
     length (mp_slots rb) = unat cap \<and> unat (mp_write rb) = length cl \<and>
     out = take (length out) cl \<and>
     slots_ok (unat cap) (length out) cl (seq_at rb) (data_at rb) \<and>
     (\<forall>j < unat cap. \<forall>n \<in> H j. n \<le> seq_at rb j) \<and>
     (\<forall>i. mp_knows (unat cap) (length out) cl (seq_at rb) (data_at rb) H (ppc i)) \<and>
     (\<forall>i j p. i \<noteq> j \<longrightarrow> owned (ppc i) = Some p \<longrightarrow> owned (ppc j) \<noteq> Some p) \<and>
     mc_knows (unat cap) (length out) cl (seq_at rb) (mp_read rb) k"

definition mpsc_sys_inv :: "u64 \<Rightarrow> 'a mpsc_sys \<Rightarrow> bool" where
  "mpsc_sys_inv cap s \<longleftrightarrow> mpsc_ok cap (mq_ring s) (mq_ppc s) (mq_cpc s)
     (mq_claimed s) (mq_popped s) (mq_hist s)"

section \<open>What each step leaves of the other threads' knowledge\<close>

lemma remember_mono [simp]: "n \<in> h j \<Longrightarrow> n \<in> remember i m h j"
  by (auto simp: remember_def)

lemma remember_iff: "n \<in> remember i m h j \<longleftrightarrow> n \<in> h j \<or> (i = j \<and> n = m)"
  by (auto simp: remember_def)

lemma knows_claim: "mp_knows c R cl S D H pc \<Longrightarrow> mp_knows c R (cl @ [x]) S D H pc"
  by (cases pc) (auto simp: nth_append)

lemma knows_fill:
  assumes "mp_knows c R cl S D H pc" and "slots_ok c R cl S D"
    and "R \<le> p" "p < length cl" and "owned pc \<noteq> Some p"
  shows "mp_knows c R cl S (D(p mod c := x)) H pc"
proof (cases pc)
  case (MStore y pos)
  with assms slots_lap [OF assms(2-4), of "unat pos"] show ?thesis by (auto simp: slots_ok_def)
qed (use assms in auto)

lemma knows_publish:
  assumes "mp_knows c R cl S D H pc" and "slots_ok c R cl S D"
    and "R \<le> p" "p < length cl" and "owned pc \<noteq> Some p"
  shows "mp_knows c R cl (S(p mod c := Suc p)) D (remember i m H) pc"
proof (cases pc)
  case (MWrite y pos)
  with assms slots_lap [OF assms(2-4), of "unat pos"] show ?thesis by (auto simp: slots_ok_def)
next
  case (MStore y pos)
  with assms slots_lap [OF assms(2-4), of "unat pos"] show ?thesis by (auto simp: slots_ok_def)
qed (use assms in auto)

lemma knows_recycle:
  assumes "mp_knows c R cl S D H pc" and "slots_ok c R cl S D"
    and "R < length cl" and "S (R mod c) = Suc R"
  shows "mp_knows c (Suc R) cl (S(R mod c := R + c)) D (remember i m H) pc"
proof -
  have other: "Suc R \<le> q \<and> q mod c \<noteq> R mod c"
    if "R \<le> q" "q < length cl" "S (q mod c) = q" for q
  proof -
    have "q \<noteq> R" using that(3) assms(4) by auto
    with that slots_lap [OF assms(2) le_refl assms(3), of q] assms(2)
    show ?thesis by (auto simp: slots_ok_def)
  qed
  show ?thesis using assms(1) other by (cases pc) auto
qed

lemma consumer_claim: "mc_knows c R cl S rd k \<Longrightarrow> mc_knows c R (cl @ [x]) S rd k"
  by (cases k) (auto simp: nth_append)

lemma consumer_publish:
  assumes "mc_knows c R cl S rd k" and "slots_ok c R cl S D"
    and "R \<le> p" "p < length cl" and "S (p mod c) = p"
  shows "mc_knows c R cl (S(p mod c := Suc p)) rd k"
proof -
  have "p mod c \<noteq> R mod c" if "S (R mod c) = Suc R" "R < length cl"
    using that slots_lap [OF assms(2) le_refl that(2), of p] assms by (auto simp: slots_ok_def)
  with assms(1) show ?thesis by (cases k) auto
qed

section \<open>Every step keeps the invariant\<close>

lemma seq_at_put: "j < length (mp_slots rb) \<Longrightarrow>
    seq_at (put_slot j sl rb) = (seq_at rb)(j := unat (ms_seq sl))"
  by (auto simp: seq_at_def put_slot_def fun_eq_iff nth_list_update)

lemma data_at_put: "j < length (mp_slots rb) \<Longrightarrow>
    data_at (put_slot j sl rb) = (data_at rb)(j := ms_data sl)"
  by (auto simp: data_at_def put_slot_def fun_eq_iff nth_list_update)

lemma put_slot_frame [simp]:
  "mp_write (put_slot j sl rb) = mp_write rb" "mp_read (put_slot j sl rb) = mp_read rb"
  "length (mp_slots (put_slot j sl rb)) = length (mp_slots rb)"
  by (simp_all add: put_slot_def)

lemma at_cursor_frame [simp]:
  "seq_at (rb\<lparr>mp_write := w\<rparr>) = seq_at rb" "data_at (rb\<lparr>mp_write := w\<rparr>) = data_at rb"
  "seq_at (rb\<lparr>mp_read := r\<rparr>) = seq_at rb" "data_at (rb\<lparr>mp_read := r\<rparr>) = data_at rb"
  by (simp_all add: seq_at_def data_at_def fun_eq_iff)

definition in_range :: "u64 \<Rightarrow> 'a mpsc_sys \<Rightarrow> bool" where
  "in_range cap s \<longleftrightarrow> length (mq_claimed s) + unat cap < 2 ^ 63"

lemma unat_word_of_nat64: "n < 2 ^ 64 \<Longrightarrow> unat (of_nat n :: u64) = n"
  by (simp add: unat_of_nat)

lemma unat_add1: "unat (w :: u64) < 2 ^ 63 \<Longrightarrow> unat (w + 1) = Suc (unat w)"
  by (simp add: unat_word_ariths)

lemma unat_add_cap: "unat w + unat cap < 2 ^ 63 \<Longrightarrow> unat (w + cap :: u64) = unat w + unat cap"
  by (simp add: unat_word_ariths)

lemma of_nat_eq_word: "n < 2 ^ 64 \<Longrightarrow> (of_nat n :: u64) = w \<longleftrightarrow> n = unat w"
  by (auto simp: unat_word_of_nat64)

text \<open>A number found in a slot's history is at most the current one, and far from wrapping.\<close>

lemma hist_word:
  assumes "mpsc_ok cap rb ppc k cl out H" and "j < unat cap" and "n \<in> H j"
  shows "n \<le> seq_at rb j \<and> n < 2 ^ 64"
proof -
  from assms have "n \<le> seq_at rb j" by (simp add: mpsc_ok_def)
  moreover have "seq_at rb j < 2 ^ 64"
    unfolding seq_at_def by (rule order_less_le_trans [OF unsigned_less]) simp
  ultimately show ?thesis by simp
qed

lemma mpsc_ok_facts:
  assumes "mpsc_ok cap rb ppc k cl out H"
  shows "length (mp_slots rb) = unat cap" and "unat (mp_write rb) = length cl"
    and "out = take (length out) cl"
    and "slots_ok (unat cap) (length out) cl (seq_at rb) (data_at rb)"
    and "mp_knows (unat cap) (length out) cl (seq_at rb) (data_at rb) H (ppc i)"
    and "mc_knows (unat cap) (length out) cl (seq_at rb) (mp_read rb) k"
    and "i \<noteq> j \<Longrightarrow> owned (ppc i) = Some p \<Longrightarrow> owned (ppc j) \<noteq> Some p"
    and "length out \<le> length cl"
  using assms by (simp_all add: mpsc_ok_def slots_ok_def)

text \<open>A step that only moves a producer without an owned position, or the consumer.\<close>

lemma ok_producer_moves:
  assumes "mpsc_ok cap rb ppc k cl out H" and "owned pc = None"
    and "mp_knows (unat cap) (length out) cl (seq_at rb) (data_at rb) H pc"
  shows "mpsc_ok cap rb (ppc(i := pc)) k cl out H"
  using assms by (auto simp: mpsc_ok_def)

lemma ok_consumer_moves:
  assumes "mpsc_ok cap rb ppc k cl out H"
    and "mc_knows (unat cap) (length out) cl (seq_at rb) (mp_read rb) k'"
  shows "mpsc_ok cap rb ppc k' cl out H"
  using assms by (simp add: mpsc_ok_def)

lemma ok_seq:
  assumes cap: "capacity_ok cap" and ok: "mpsc_ok cap rb ppc k cl out H"
    and pc: "ppc i = MSeq x pos" and n: "n \<in> H (slot_index cap pos)"
  shows "mpsc_ok cap rb (ppc(i := (if seq_diff (of_nat n) pos = 0 then MCas x pos
       else if seq_diff (of_nat n) pos < 0 then MIdle else MLoad x))) k cl out H"
proof (rule ok_producer_moves [OF ok])
  from hist_word [OF ok slot_index_less [OF cap] n]
  have "of_nat n = pos \<longleftrightarrow> n = unat pos" by (simp add: of_nat_eq_word)
  with n mpsc_ok_facts(5) [OF ok, of i] pc slot_index_mod [OF cap, of pos]
  show "mp_knows (unat cap) (length out) cl (seq_at rb) (data_at rb) H
      (if seq_diff (of_nat n) pos = 0 then MCas x pos
       else if seq_diff (of_nat n) pos < 0 then MIdle else MLoad x)" by auto
qed auto

lemma ok_cas:
  assumes cap: "2 \<le> unat cap" and ok: "mpsc_ok cap rb ppc k cl out H"
    and pc: "ppc i = MCas x pos" and w: "mp_write rb = pos"
    and range: "length cl < 2 ^ 63"
  shows "mpsc_ok cap (rb\<lparr>mp_write := pos + 1\<rparr>) (ppc(i := MWrite x pos)) k (cl @ [x]) out H"
proof -
  note f = mpsc_ok_facts [OF ok]
  let ?c = "unat cap" and ?R = "length out" and ?W = "length cl"
  have W: "unat pos = ?W" using f(2) w by simp
  then have "?W \<in> H (?W mod ?c)" using f(5) [of i] pc by simp
  moreover have "?W mod ?c < ?c" using cap by simp
  ultimately have "?W \<le> seq_at rb (?W mod ?c)" using hist_word [OF ok] by blast
  from slots_room [OF f(4) cap this]
  have room: "?W < ?R + ?c" and sq: "seq_at rb (?W mod ?c) = ?W" by auto
  have fresh: "owned (ppc j) \<noteq> Some ?W" for j
    using f(5) [of j] by (cases "ppc j") auto
  have suc: "unat (pos + 1) = Suc ?W" using range W unat_add1 [of pos] by simp
  have take': "out = take ?R (cl @ [x])" using f(3,8) by simp
  have knows: "mp_knows ?c ?R (cl @ [x]) (seq_at rb) (data_at rb) H ((ppc(i := MWrite x pos)) j)" for j
    using f(5) [of j] knows_claim f(8) W sq by (cases "j = i") auto
  have owners: "owned ((ppc(i := MWrite x pos)) j) \<noteq> Some p"
    if "l \<noteq> j" "owned ((ppc(i := MWrite x pos)) l) = Some p" for j l p
    using that f(7) [of l j p] fresh W by (auto split: if_splits)
  show ?thesis
    using ok f(1) suc slots_claim [OF f(4) room, of x] consumer_claim [OF f(6)] take' knows owners
    by (simp add: mpsc_ok_def)
qed

lemma owned_knows:
  assumes "mpsc_ok cap rb ppc k cl out H" and "owned (ppc i) = Some p"
  shows "length out \<le> p \<and> p < length cl \<and> seq_at rb (p mod unat cap) = p"
  using mpsc_ok_facts(5) [OF assms(1), of i] assms(2) by (cases "ppc i") auto

lemma ok_write:
  assumes cap: "capacity_ok cap" and ok: "mpsc_ok cap rb ppc k cl out H"
    and pc: "ppc i = MWrite x pos" and j: "j = slot_index cap pos"
  shows "mpsc_ok cap (put_slot j ((mp_slots rb ! j)\<lparr>ms_data := x\<rparr>) rb)
     (ppc(i := MStore x pos)) k cl out H"
proof -
  note f = mpsc_ok_facts [OF ok]
  let ?p = "unat pos" and ?c = "unat cap"
  let ?rb = "put_slot j ((mp_slots rb ! j)\<lparr>ms_data := x\<rparr>) rb"
  have jp: "j = ?p mod ?c" and jl: "j < length (mp_slots rb)"
    using slot_index_mod [OF cap] slot_index_less [OF cap] f(1) by (simp_all add: j)
  have p: "length out \<le> ?p" "?p < length cl" "seq_at rb (?p mod ?c) = ?p"
    using owned_knows [OF ok, of i ?p] pc by auto
  have S: "seq_at ?rb = seq_at rb"
    using jl by (simp add: seq_at_put) (simp add: seq_at_def fun_eq_iff)
  have D: "data_at ?rb = (data_at rb)(?p mod ?c := x)" using jl by (simp add: data_at_put jp)
  have knows: "mp_knows ?c (length out) cl (seq_at rb) ((data_at rb)(?p mod ?c := x)) H
      ((ppc(i := MStore x pos)) l)" for l
  proof (cases "l = i")
    case True
    then show ?thesis using f(5) [of i] pc by simp
  next
    case False
    then have "owned (ppc l) \<noteq> Some ?p" using f(7) [of i l ?p] pc by simp
    from knows_fill [OF f(5) f(4) p(1,2) this] False show ?thesis by simp
  qed
  have owners: "owned ((ppc(i := MStore x pos)) l) = owned (ppc l)" for l
    using pc by simp
  show ?thesis
    using ok slots_fill [OF f(4) p, of x] knows f(7)
    by (simp add: mpsc_ok_def S D owners del: fun_upd_apply)
qed

lemma ok_store:
  assumes cap: "capacity_ok cap" and ok: "mpsc_ok cap rb ppc k cl out H"
    and pc: "ppc i = MStore x pos" and j: "j = slot_index cap pos"
    and range: "length cl < 2 ^ 63"
  shows "mpsc_ok cap (put_slot j ((mp_slots rb ! j)\<lparr>ms_seq := pos + 1\<rparr>) rb)
     (ppc(i := MIdle)) k cl out (remember j (unat (pos + 1)) H)"
proof -
  note f = mpsc_ok_facts [OF ok]
  let ?p = "unat pos" and ?c = "unat cap"
  let ?rb = "put_slot j ((mp_slots rb ! j)\<lparr>ms_seq := pos + 1\<rparr>) rb"
  have jp: "j = ?p mod ?c" and jl: "j < length (mp_slots rb)"
    using slot_index_mod [OF cap] slot_index_less [OF cap] f(1) by (simp_all add: j)
  have p: "length out \<le> ?p" "?p < length cl" "seq_at rb (?p mod ?c) = ?p"
    using owned_knows [OF ok, of i ?p] pc by auto
  have d: "data_at rb (?p mod ?c) = cl ! ?p" using f(5) [of i] pc by simp
  have suc: "unat (pos + 1) = Suc ?p" using p(2) range by (intro unat_add1) simp
  have S: "seq_at ?rb = (seq_at rb)(?p mod ?c := Suc ?p)" using jl suc by (simp add: seq_at_put jp)
  have D: "data_at ?rb = data_at rb"
    using jl by (simp add: data_at_put) (simp add: data_at_def fun_eq_iff)
  have knows: "mp_knows ?c (length out) cl ((seq_at rb)(?p mod ?c := Suc ?p)) (data_at rb)
      (remember j (Suc ?p) H) ((ppc(i := MIdle)) l)" for l
  proof (cases "l = i")
    case False
    then have "owned (ppc l) \<noteq> Some ?p" using f(7) [of i l ?p] pc by simp
    from knows_publish [OF f(5) f(4) p(1,2) this] False show ?thesis by simp
  qed simp
  have owners: "owned ((ppc(i := MIdle)) l) \<noteq> Some q"
    if "m \<noteq> l" "owned ((ppc(i := MIdle)) m) = Some q" for l m q
    using that f(7) [of m l q] by (auto split: if_splits)
  have hist: "n \<le> ((seq_at rb)(?p mod ?c := Suc ?p)) l"
    if "l < ?c" "n \<in> remember j (Suc ?p) H l" for l n
    using that hist_word [OF ok that(1), of n] p(3) by (auto simp: remember_iff jp)
  show ?thesis
    using f(1,2,3) slots_publish [OF f(4) p(1,2) d] knows hist owners
      consumer_publish [OF f(6) f(4) p]
    by (simp add: mpsc_ok_def S D suc del: fun_upd_apply)
qed

lemma ok_k_seq:
  assumes cap: "capacity_ok cap" and ok: "mpsc_ok cap rb ppc (KSeq pos) cl out H"
    and n: "n \<in> H (slot_index cap pos)" and eq: "of_nat n = pos + 1"
    and range: "length cl < 2 ^ 63"
  shows "mpsc_ok cap rb ppc (KRead pos) cl out H"
proof (rule ok_consumer_moves [OF ok])
  note f = mpsc_ok_facts [OF ok]
  have pos: "unat pos = length out" and rd: "unat (mp_read rb) = length out" using f(6) by simp_all
  have "unat (pos + 1) = Suc (length out)" using range f(8) pos unat_add1 [of pos] by simp
  with hist_word [OF ok slot_index_less [OF cap] n] eq
  have "Suc (length out) \<le> seq_at rb (length out mod unat cap)"
    using slot_index_mod [OF cap, of pos] pos of_nat_eq_word [of n "pos + 1"] by simp
  from slots_ready [OF f(4) capacity_pos [OF cap] this]
  show "mc_knows (unat cap) (length out) cl (seq_at rb) (mp_read rb) (KRead pos)"
    using pos rd by simp
qed

lemma ok_k_read:
  assumes cap: "capacity_ok cap" and ok: "mpsc_ok cap rb ppc (KRead pos) cl out H"
  shows "mpsc_ok cap rb ppc (KRecycle pos (ms_data (mp_slots rb ! slot_index cap pos))) cl out H"
proof (rule ok_consumer_moves [OF ok])
  note f = mpsc_ok_facts [OF ok]
  from f(6) have k: "unat pos = length out" "unat (mp_read rb) = length out" "length out < length cl"
    "seq_at rb (length out mod unat cap) = Suc (length out)" by simp_all
  then have "data_at rb (length out mod unat cap) = cl ! length out"
    using slots_ready [OF f(4) capacity_pos [OF cap]] by simp
  with k show "mc_knows (unat cap) (length out) cl (seq_at rb) (mp_read rb)
      (KRecycle pos (ms_data (mp_slots rb ! slot_index cap pos)))"
    using slot_index_mod [OF cap, of pos] by (simp add: data_at_def)
qed

lemma ok_k_recycle:
  assumes cap: "capacity_ok cap" and ok: "mpsc_ok cap rb ppc (KRecycle pos x) cl out H"
    and j: "j = slot_index cap pos" and range: "length cl + unat cap < 2 ^ 63"
  shows "mpsc_ok cap (put_slot j ((mp_slots rb ! j)\<lparr>ms_seq := pos + cap\<rparr>) rb) ppc
     (KCursor pos x) cl (out @ [x]) (remember j (unat (pos + cap)) H)"
proof -
  note f = mpsc_ok_facts [OF ok]
  let ?R = "length out" and ?c = "unat cap"
  let ?rb = "put_slot j ((mp_slots rb ! j)\<lparr>ms_seq := pos + cap\<rparr>) rb"
  from f(6) have k: "unat pos = ?R" "unat (mp_read rb) = ?R" "?R < length cl"
    "seq_at rb (?R mod ?c) = Suc ?R" "x = cl ! ?R" by simp_all
  have c: "0 < ?c" using cap by (rule capacity_pos)
  have jp: "j = ?R mod ?c" and jl: "j < length (mp_slots rb)"
    using slot_index_mod [OF cap, of pos] slot_index_less [OF cap, of pos] f(1) k(1)
    by (simp_all only: j)
  have plus: "unat (pos + cap) = ?R + ?c" using range k(1,3) unat_add_cap [of pos cap] by simp
  have S: "seq_at ?rb = (seq_at rb)(?R mod ?c := ?R + ?c)" using jl plus by (simp add: seq_at_put jp)
  have D: "data_at ?rb = data_at rb"
    using jl by (simp add: data_at_put) (simp add: data_at_def fun_eq_iff)
  have out: "out @ [x] = take (Suc ?R) cl"
    using f(3) k(3,5) by (simp add: take_Suc_conv_app_nth)
  have m: "min (length cl) (Suc ?R) = Suc ?R" using k(3) by simp
  have hist: "n \<le> ((seq_at rb)(?R mod ?c := ?R + ?c)) l"
    if "l < ?c" "n \<in> remember j (?R + ?c) H l" for l n
    using that hist_word [OF ok that(1), of n] k(4) c by (auto simp: remember_iff jp)
  show ?thesis
    using f(1,2) slots_recycle [OF f(4) k(3) c] knows_recycle [OF f(5) f(4) k(3,4)] hist f(7) k(1,2) out
    by (simp add: mpsc_ok_def S D plus m del: fun_upd_apply)
qed

lemma ok_k_cursor:
  assumes ok: "mpsc_ok cap rb ppc (KCursor pos x) cl out H" and range: "length cl < 2 ^ 63"
  shows "mpsc_ok cap (rb\<lparr>mp_read := pos + 1\<rparr>) ppc KIdle cl out H"
proof -
  note f = mpsc_ok_facts [OF ok]
  from f(6) have "Suc (unat pos) = length out" by simp
  then have "unat (pos + 1) = length out" using f(8) range unat_add1 [of pos] by simp
  with ok show ?thesis by (simp add: mpsc_ok_def)
qed

lemma claimed_mono: "mpsc_step cap s t \<Longrightarrow> length (mq_claimed s) \<le> length (mq_claimed t)"
  by (cases rule: mpsc_step.cases, assumption) auto

lemma mpsc_step_inv:
  assumes cap: "capacity_ok cap" "2 \<le> unat cap" and range: "in_range cap t"
    and step: "mpsc_step cap s t" and inv: "mpsc_sys_inv cap s"
  shows "mpsc_sys_inv cap t"
proof -
  from range claimed_mono [OF step] have r: "length (mq_claimed s) + unat cap < 2 ^ 63"
    by (simp add: in_range_def)
  then have r': "length (mq_claimed s) < 2 ^ 63" by simp
  note ok = inv [unfolded mpsc_sys_inv_def]
  from step show ?thesis
  proof (cases rule: mpsc_step.cases)
    case (m_call i x)
    with ok show ?thesis by (simp add: mpsc_sys_inv_def ok_producer_moves)
  next
    case (m_load i x k)
    with ok r' show ?thesis
      by (simp add: mpsc_sys_inv_def ok_producer_moves unat_word_of_nat64)
  next
    case (m_seq i x pos n)
    with ok_seq [OF cap(1) ok m_seq(2,3)] show ?thesis by (simp add: mpsc_sys_inv_def)
  next
    case (m_cas i x pos)
    with ok_cas [OF cap(2) ok m_cas(2,3) r'] show ?thesis by (simp add: mpsc_sys_inv_def)
  next
    case (m_cas_fail i x pos k)
    with ok r' show ?thesis
      by (simp add: mpsc_sys_inv_def ok_producer_moves unat_word_of_nat64)
  next
    case (m_write i x pos j)
    with ok_write [OF cap(1) ok m_write(2,3)] show ?thesis by (simp add: mpsc_sys_inv_def)
  next
    case (m_store i x pos j)
    with ok_store [OF cap(1) ok m_store(2,3) r'] show ?thesis by (simp add: mpsc_sys_inv_def)
  next
    case k_call
    with mpsc_ok_facts(6) [OF ok] ok show ?thesis
      by (simp add: mpsc_sys_inv_def ok_consumer_moves)
  next
    case k_load
    with mpsc_ok_facts(6) [OF ok] ok show ?thesis
      by (simp add: mpsc_sys_inv_def ok_consumer_moves)
  next
    case (k_seq pos n)
    with ok have o: "mpsc_ok cap (mq_ring s) (mq_ppc s) (KSeq pos) (mq_claimed s) (mq_popped s)
      (mq_hist s)" by simp
    show ?thesis
    proof (cases "of_nat n = pos + 1")
      case True
      with k_seq ok_k_seq [OF cap(1) o k_seq(3) True r'] show ?thesis
        by (simp add: mpsc_sys_inv_def)
    next
      case False
      with k_seq mpsc_ok_facts(6) [OF o] o show ?thesis
        by (simp add: mpsc_sys_inv_def ok_consumer_moves)
    qed
  next
    case (k_read pos)
    with ok have "mpsc_ok cap (mq_ring s) (mq_ppc s) (KRead pos) (mq_claimed s) (mq_popped s)
      (mq_hist s)" by simp
    with k_read ok_k_read [OF cap(1) this] show ?thesis by (simp add: mpsc_sys_inv_def)
  next
    case (k_recycle pos x j)
    with ok have "mpsc_ok cap (mq_ring s) (mq_ppc s) (KRecycle pos x) (mq_claimed s)
      (mq_popped s) (mq_hist s)" by simp
    with k_recycle ok_k_recycle [OF cap(1) this k_recycle(3) r] show ?thesis
      by (simp add: mpsc_sys_inv_def)
  next
    case (k_cursor pos x)
    with ok have "mpsc_ok cap (mq_ring s) (mq_ppc s) (KCursor pos x) (mq_claimed s)
      (mq_popped s) (mq_hist s)" by simp
    with k_cursor ok_k_cursor [OF this r'] show ?thesis by (simp add: mpsc_sys_inv_def)
  qed
qed

lemma mpsc_sys_inv_init:
  assumes "capacity_ok cap" and "mpsc_sys_init cap s"
  shows "mpsc_sys_inv cap s"
proof -
  from assms(2) obtain junk where "length junk = unat cap" "s = mpsc_sys_start junk"
    by (auto simp: mpsc_sys_init_def)
  moreover have "unat (of_nat j :: u64) = j" if "j < unat cap" for j
    using that capacity_le_half [OF assms(1)] by (simp add: unat_of_nat)
  ultimately show ?thesis
    by (auto simp: mpsc_sys_inv_def mpsc_ok_def mpsc_sys_start_def mpsc_init_def slots_ok_def
        seq_at_def)
qed

lemma mpsc_reach_inv:
  assumes "capacity_ok cap" and "2 \<le> unat cap" and "mpsc_reach cap s"
  shows "in_range cap s \<longrightarrow> mpsc_sys_inv cap s"
  using assms(3)
proof (rule reach_invariant)
  fix s t :: "'a mpsc_sys"
  assume IH: "in_range cap s \<longrightarrow> mpsc_sys_inv cap s" and step: "mpsc_step cap s t"
  show "in_range cap t \<longrightarrow> mpsc_sys_inv cap t"
  proof
    assume t: "in_range cap t"
    with claimed_mono [OF step] have "in_range cap s" by (simp add: in_range_def)
    with IH t show "mpsc_sys_inv cap t" by (auto intro: mpsc_step_inv [OF assms(1,2) t step])
  qed
qed (use assms mpsc_sys_inv_init in auto)

section \<open>An executable scheduler\<close>

text \<open>The step relation as a function of the scheduler's choice; used to exhibit runs.\<close>

datatype 'a mpsc_action = M_Call nat 'a | M_Run nat nat | M_Fail nat nat | K_Call | K_Run nat

fun mpsc_exec :: "u64 \<Rightarrow> 'a mpsc_action \<Rightarrow> 'a mpsc_sys \<Rightarrow> 'a mpsc_sys option" where
  "mpsc_exec cap (M_Call i x) s =
     (if mq_ppc s i = MIdle then Some (s\<lparr>mq_ppc := (mq_ppc s)(i := MLoad x)\<rparr>) else None)"
| "mpsc_exec cap (M_Run i k) s =
     (case mq_ppc s i of
        MIdle \<Rightarrow> None
      | MLoad x \<Rightarrow> (if k \<le> length (mq_claimed s)
          then Some (s\<lparr>mq_ppc := (mq_ppc s)(i := MSeq x (of_nat k))\<rparr>) else None)
      | MSeq x pos \<Rightarrow> (if k \<in> mq_hist s (slot_index cap pos)
          then Some (s\<lparr>mq_ppc := (mq_ppc s)(i :=
            (if seq_diff (of_nat k) pos = 0 then MCas x pos
             else if seq_diff (of_nat k) pos < 0 then MIdle else MLoad x))\<rparr>) else None)
      | MCas x pos \<Rightarrow> (if mp_write (mq_ring s) = pos
          then Some (s\<lparr>mq_ring := (mq_ring s)\<lparr>mp_write := pos + 1\<rparr>,
            mq_ppc := (mq_ppc s)(i := MWrite x pos), mq_claimed := mq_claimed s @ [x]\<rparr>) else None)
      | MWrite x pos \<Rightarrow> (let j = slot_index cap pos in
          Some (s\<lparr>mq_ring := put_slot j ((mp_slots (mq_ring s) ! j)\<lparr>ms_data := x\<rparr>) (mq_ring s),
            mq_ppc := (mq_ppc s)(i := MStore x pos)\<rparr>))
      | MStore x pos \<Rightarrow> (let j = slot_index cap pos in
          Some (s\<lparr>mq_ring := put_slot j ((mp_slots (mq_ring s) ! j)\<lparr>ms_seq := pos + 1\<rparr>) (mq_ring s),
            mq_ppc := (mq_ppc s)(i := MIdle),
            mq_hist := remember j (unat (pos + 1)) (mq_hist s)\<rparr>)))"
| "mpsc_exec cap (M_Fail i k) s =
     (case mq_ppc s i of
        MCas x pos \<Rightarrow> (if k \<le> length (mq_claimed s)
          then Some (s\<lparr>mq_ppc := (mq_ppc s)(i := MSeq x (of_nat k))\<rparr>) else None)
      | _ \<Rightarrow> None)"
| "mpsc_exec cap K_Call s = (if mq_cpc s = KIdle then Some (s\<lparr>mq_cpc := KLoad\<rparr>) else None)"
| "mpsc_exec cap (K_Run n) s =
     (case mq_cpc s of
        KIdle \<Rightarrow> None
      | KLoad \<Rightarrow> Some (s\<lparr>mq_cpc := KSeq (mp_read (mq_ring s))\<rparr>)
      | KSeq pos \<Rightarrow> (if n \<in> mq_hist s (slot_index cap pos)
          then Some (s\<lparr>mq_cpc := (if of_nat n \<noteq> pos + 1 then KIdle else KRead pos)\<rparr>) else None)
      | KRead pos \<Rightarrow> Some (s\<lparr>mq_cpc :=
          KRecycle pos (ms_data (mp_slots (mq_ring s) ! slot_index cap pos))\<rparr>)
      | KRecycle pos x \<Rightarrow> (let j = slot_index cap pos in
          Some (s\<lparr>mq_ring := put_slot j ((mp_slots (mq_ring s) ! j)\<lparr>ms_seq := pos + cap\<rparr>) (mq_ring s),
            mq_cpc := KCursor pos x, mq_popped := mq_popped s @ [x],
            mq_hist := remember j (unat (pos + cap)) (mq_hist s)\<rparr>))
      | KCursor pos x \<Rightarrow>
          Some (s\<lparr>mq_ring := (mq_ring s)\<lparr>mp_read := pos + 1\<rparr>, mq_cpc := KIdle\<rparr>))"

fun mpsc_exec_all :: "u64 \<Rightarrow> 'a mpsc_action list \<Rightarrow> 'a mpsc_sys \<Rightarrow> 'a mpsc_sys option" where
  "mpsc_exec_all cap [] s = Some s"
| "mpsc_exec_all cap (a # as) s =
     (case mpsc_exec cap a s of None \<Rightarrow> None | Some t \<Rightarrow> mpsc_exec_all cap as t)"

lemma m_seq_then:
  assumes "mq_ppc s i = MSeq x pos" and "n \<in> mq_hist s (slot_index cap pos)"
    and "t = s\<lparr>mq_ppc := (mq_ppc s)(i :=
      (if seq_diff (of_nat n) pos = 0 then MCas x pos
       else if seq_diff (of_nat n) pos < 0 then MIdle else MLoad x))\<rparr>"
  shows "mpsc_step cap s t"
  unfolding assms(3) using assms(1,2) by (rule m_seq)

lemma k_seq_then:
  assumes "mq_cpc s = KSeq pos" and "n \<in> mq_hist s (slot_index cap pos)"
    and "t = s\<lparr>mq_cpc := (if of_nat n \<noteq> pos + 1 then KIdle else KRead pos)\<rparr>"
  shows "mpsc_step cap s t"
  unfolding assms(3) using assms(1,2) by (rule k_seq)

lemma mpsc_exec_run_step: "mpsc_exec cap (M_Run i k) s = Some t \<Longrightarrow> mpsc_step cap s t"
proof (cases "mq_ppc s i")
  case (MSeq x pos)
  then show "mpsc_exec cap (M_Run i k) s = Some t \<Longrightarrow> mpsc_step cap s t"
    by (simp only: mpsc_exec.simps mp_pc.case) (metis m_seq_then option.distinct(1) option.inject)
qed (auto simp: Let_def split: if_split_asm intro: mpsc_step.intros)

lemma mpsc_exec_cons_step: "mpsc_exec cap (K_Run n) s = Some t \<Longrightarrow> mpsc_step cap s t"
proof (cases "mq_cpc s")
  case (KSeq pos)
  then show "mpsc_exec cap (K_Run n) s = Some t \<Longrightarrow> mpsc_step cap s t"
    by (simp only: mpsc_exec.simps mc_pc.case) (metis k_seq_then option.distinct(1) option.inject)
qed (auto simp: Let_def split: if_split_asm intro: mpsc_step.intros)

lemma mpsc_exec_step: "mpsc_exec cap a s = Some t \<Longrightarrow> mpsc_step cap s t"
proof (cases a)
  case (M_Run i k)
  then show "mpsc_exec cap a s = Some t \<Longrightarrow> mpsc_step cap s t" by (simp only: mpsc_exec_run_step)
next
  case (K_Run n)
  then show "mpsc_exec cap a s = Some t \<Longrightarrow> mpsc_step cap s t" by (simp only: mpsc_exec_cons_step)
qed (auto split: if_split_asm mp_pc.splits intro: mpsc_step.intros)

lemma mpsc_exec_all_reach:
  "mpsc_exec_all cap as s = Some t \<Longrightarrow> mpsc_reach cap s \<Longrightarrow> mpsc_reach cap t"
  by (induction as arbitrary: s)
    (auto split: option.splits intro: reach.reach_step dest: mpsc_exec_step)

section \<open>What the threads are promised\<close>

text \<open>C3: For a capacity of at least two, any number of producers and one consumer in any
  interleaving, with arbitrarily stale loads and spurious compare-exchange failures: the items
  handed out are the first of the items claimed, in claim order and without loss or repetition,
  and the claims are never more than one capacity ahead of the consumer. (Fewer than 2^63 minus
  the capacity claims.)\<close>

theorem mpsc_no_loss_no_reorder:
  assumes "capacity_ok cap" and "2 \<le> unat cap" and "mpsc_reach cap s"
    and "length (mq_claimed s) + unat cap < 2 ^ 63"
  shows "mq_popped s = take (length (mq_popped s)) (mq_claimed s) \<and>
         length (mq_claimed s) \<le> length (mq_popped s) + unat cap \<and>
         unat (mp_write (mq_ring s)) = length (mq_claimed s)"
proof -
  have "mpsc_sys_inv cap s"
    using mpsc_reach_inv [OF assms(1-3)] assms(4) by (simp add: in_range_def)
  then show ?thesis by (simp add: mpsc_sys_inv_def mpsc_ok_def slots_ok_def)
qed

definition mpsc_example_run :: "nat mpsc_action list" where
  "mpsc_example_run =
     [M_Call 0 5, M_Run 0 0, M_Run 0 0, M_Run 0 0, M_Run 0 0, M_Run 0 0,
      M_Call 1 6, M_Run 1 0, M_Run 1 1, M_Run 1 1, M_Run 1 1, M_Run 1 0,
      M_Call 2 7, M_Run 2 2, M_Run 2 2, M_Fail 2 2, M_Run 2 2, M_Run 2 0,
      K_Call, K_Run 0, K_Run 1]"

lemma mpsc_example_eval:
  "case mpsc_exec_all 4 mpsc_example_run (mpsc_sys_start [0, 0, 0, 0]) of None \<Rightarrow> False
   | Some s \<Rightarrow> mq_claimed s = [5, 6, 7] \<and> mq_popped s = [] \<and> mq_ppc s 1 = MWrite 6 1 \<and>
       mq_ppc s 2 = MWrite 7 2 \<and> mq_cpc s = KRead 0"
  by (simp add: mpsc_example_run_def mpsc_sys_start_def mpsc_init_def slot_index_def seq_diff_def
      put_slot_def remember_def Let_def)

lemma capacity_ok_4: "capacity_ok 4"
  by (simp add: capacity_ok_def)

lemma mpsc_example_reach:
  "\<exists>s. mpsc_reach 4 s \<and> mq_claimed s = [5, 6, 7 :: nat] \<and> mq_popped s = [] \<and>
     mq_ppc s 1 = MWrite 6 1 \<and> mq_ppc s 2 = MWrite 7 2 \<and> mq_cpc s = KRead 0"
proof -
  have "mpsc_reach 4 (mpsc_sys_start [0, 0, 0, 0 :: nat])"
    by (rule reach.reach_init) (auto simp: mpsc_sys_init_def intro!: exI [of _ "[0, 0, 0, 0 :: nat]"])
  with mpsc_example_eval show ?thesis
    by (auto split: option.splits dest: mpsc_exec_all_reach)
qed

theorem mpsc_no_loss_no_reorder_witness:
  "\<exists>s. mpsc_reach 4 s \<and> mq_claimed s = [5, 6, 7 :: nat] \<and> mq_popped s = take 0 [5, 6, 7] \<and>
     unat (mp_write (mq_ring s)) = 3"
proof -
  obtain s :: "nat mpsc_sys" where s: "mpsc_reach 4 s" "mq_claimed s = [5, 6, 7]" "mq_popped s = []"
    using mpsc_example_reach by auto
  then have "length (mq_claimed s) + unat (4 :: u64) < 2 ^ 63" by simp
  from mpsc_no_loss_no_reorder [OF capacity_ok_4 _ s(1) this] s show ?thesis by auto
qed

text \<open>With one slot the mark "filled at 0" is the mark "free for 1": while the consumer is about to read the first
  item, a second producer has claimed the same slot and is about to write it.\<close>

definition mpsc_one_slot_run :: "nat mpsc_action list" where
  "mpsc_one_slot_run = M_Call 1 5 # replicate 5 (M_Run 1 0) @ [M_Call 2 6, M_Run 2 1, M_Run 2 1, M_Run 2 1,
     K_Call, K_Run 0, K_Run 1]"

lemma mpsc_one_slot_eval:
  "case mpsc_exec_all 1 mpsc_one_slot_run (mpsc_sys_start [0]) of None \<Rightarrow> False
   | Some s \<Rightarrow> mq_ppc s 2 = MWrite 6 1 \<and> mq_cpc s = KRead 0"
  by (simp add: mpsc_one_slot_run_def mpsc_sys_start_def mpsc_init_def slot_index_def seq_diff_def
      put_slot_def remember_def eval_nat_numeral Let_def)

lemma mpsc_capacity_one_race:
  "\<exists>s. mpsc_reach 1 s \<and> mq_ppc s 2 = MWrite (6 :: nat) 1 \<and> mq_cpc s = KRead 0 \<and> slot_index 1 1 = slot_index 1 0"
proof -
  have "mpsc_reach 1 (mpsc_sys_start [0 :: nat])"
    by (rule reach.reach_init) (auto simp: mpsc_sys_init_def intro!: exI [of _ "[0 :: nat]"])
  with mpsc_one_slot_eval show ?thesis
    by (auto simp: slot_index_def split: option.splits dest: mpsc_exec_all_reach)
qed

text \<open>C22: For a capacity of at least two, and fewer than 2^63 minus the capacity claims, the MPSC ring is free of data
  races: two producers about to write never target the same slot, and a producer about to write never targets
  the slot the consumer is about to read; the item the consumer is about to read is the one claimed for
  its position. At capacity one, which the class accepts, the second fails (\<open>mpsc_capacity_one_race\<close>).\<close>

theorem mpsc_race_free:
  assumes "capacity_ok cap" and "2 \<le> unat cap" and "mpsc_reach cap s"
    and "length (mq_claimed s) + unat cap < 2 ^ 63"
  shows "(\<forall>i j x y p q. i \<noteq> j \<longrightarrow> mq_ppc s i = MWrite x p \<longrightarrow> mq_ppc s j = MWrite y q \<longrightarrow>
            slot_index cap p \<noteq> slot_index cap q) \<and>
         (\<forall>i x p r. mq_ppc s i = MWrite x p \<longrightarrow> mq_cpc s = KRead r \<longrightarrow>
            slot_index cap p \<noteq> slot_index cap r) \<and>
         (\<forall>r. mq_cpc s = KRead r \<longrightarrow> length (mq_popped s) < length (mq_claimed s) \<and>
            ms_data (mp_slots (mq_ring s) ! slot_index cap r) =
              mq_claimed s ! length (mq_popped s))"
proof -
  have "mpsc_sys_inv cap s"
    using mpsc_reach_inv [OF assms(1-3)] assms(4) by (simp add: in_range_def)
  then have ok: "mpsc_ok cap (mq_ring s) (mq_ppc s) (mq_cpc s) (mq_claimed s) (mq_popped s)
    (mq_hist s)" by (simp add: mpsc_sys_inv_def)
  note f = mpsc_ok_facts [OF ok] and idx = slot_index_mod [OF assms(1)]
  have writers: "slot_index cap p \<noteq> slot_index cap q"
    if "i \<noteq> j" "mq_ppc s i = MWrite x p" "mq_ppc s j = MWrite y q" for i j x y p q
  proof -
    have op: "owned (mq_ppc s i) = Some (unat p)" and oq: "owned (mq_ppc s j) = Some (unat q)"
      using that by simp_all
    have "unat q \<noteq> unat p" using f(7) [OF that(1) op] oq by simp
    with owned_knows [OF ok op] owned_knows [OF ok oq] show ?thesis
      unfolding idx by metis
  qed
  have reader: "length (mq_popped s) < length (mq_claimed s) \<and>
      ms_data (mp_slots (mq_ring s) ! slot_index cap r) = mq_claimed s ! length (mq_popped s) \<and>
      seq_at (mq_ring s) (slot_index cap r) = Suc (unat r)"
    if "mq_cpc s = KRead r" for r
    using f(6) slots_ready [OF f(4) capacity_pos [OF assms(1)]] that by (simp add: idx data_at_def)
  have "slot_index cap p \<noteq> slot_index cap r"
    if "mq_ppc s i = MWrite x p" "mq_cpc s = KRead r" for i x p r
  proof -
    have op: "owned (mq_ppc s i) = Some (unat p)" using that(1) by simp
    have "seq_at (mq_ring s) (slot_index cap p) = unat p"
      using owned_knows [OF ok op] by (simp add: idx)
    moreover have "length (mq_popped s) \<le> unat p" using owned_knows [OF ok op] by simp
    moreover have "unat r = length (mq_popped s)" using f(6) that(2) by simp
    moreover note reader [OF that(2)]
    ultimately show ?thesis
      using slots_lap [OF f(4), of "unat r" "unat p"] owned_knows [OF ok op] f(4)
      by (auto simp: idx slots_ok_def)
  qed
  with writers reader show ?thesis by blast
qed

theorem mpsc_race_free_witness:
  "\<exists>s. mpsc_reach 4 s \<and> mq_ppc s 1 = MWrite (6 :: nat) 1 \<and> mq_ppc s 2 = MWrite 7 2 \<and>
     mq_cpc s = KRead 0 \<and> slot_index 4 1 \<noteq> slot_index 4 2 \<and> slot_index 4 1 \<noteq> slot_index 4 0 \<and>
     ms_data (mp_slots (mq_ring s) ! slot_index 4 0) = 5"
proof -
  obtain s :: "nat mpsc_sys" where s: "mpsc_reach 4 s" "mq_claimed s = [5, 6, 7]"
    "mq_popped s = []" "mq_ppc s 1 = MWrite 6 1" "mq_ppc s 2 = MWrite 7 2" "mq_cpc s = KRead 0"
    using mpsc_example_reach by auto
  then have "length (mq_claimed s) + unat (4 :: u64) < 2 ^ 63" by simp
  note free = mpsc_race_free [OF capacity_ok_4 _ s(1) this, simplified]
  have "slot_index 4 1 \<noteq> slot_index 4 2"
    using conjunct1 [OF free] s(4,5) by (metis one_neq_zero numeral_One numeral_eq_iff num.distinct(1))
  moreover have "slot_index 4 1 \<noteq> slot_index 4 0"
    using conjunct1 [OF conjunct2 [OF free]] s(4,6) by blast
  moreover have "ms_data (mp_slots (mq_ring s) ! slot_index 4 0) = 5"
    using conjunct2 [OF conjunct2 [OF free]] s(2,3,6) by simp
  ultimately show ?thesis using s by blast
qed

end
