(* ===== verification/Message.thy ===== *)
theory Message
  imports Telemetry_Prelude
begin

text \<open>
  The normalized message of \<open>include/core/message.hpp\<close>: the struct that travels through the ring
  buffers, the recorder and the detectors. All fields of the C++ struct are kept, the explicit
  padding included, so that the theorems about the file format and the checksum can say that the
  padding does not matter. \<open>ts_ns\<close> is an \<open>int64_t\<close>, read with \<open>sint\<close>; \<open>value\<close> is a
  \<open>double\<close>, kept as the 64 bits \<open>std::bit_cast\<close> reads (theory \<open>Ieee_Double\<close> computes with them).
\<close>

type_synonym double = "64 word"

record message =
  m_stream_id :: u32
  m_pad0 :: u32
  m_ts_ns :: u64
  m_value :: double
  m_seq :: u64
  m_pad1 :: "u8 list"

text \<open>\<open>Message m{}\<close>: every member value-initialised.\<close>

definition zero_message :: message where
  "zero_message = \<lparr>m_stream_id = 0, m_pad0 = 0, m_ts_ns = 0, m_value = 0, m_seq = 0,
     m_pad1 = replicate 32 0\<rparr>"

text \<open>The four content fields: what the recorder stores and the checksum hashes.\<close>

definition message_content :: "message \<Rightarrow> u32 \<times> u64 \<times> double \<times> u64" where
  "message_content m = (m_stream_id m, m_ts_ns m, m_value m, m_seq m)"

lemma message_content_eq_iff:
  "message_content a = message_content b \<longleftrightarrow>
     m_stream_id a = m_stream_id b \<and> m_ts_ns a = m_ts_ns b \<and> m_value a = m_value b \<and>
     m_seq a = m_seq b"
  by (auto simp: message_content_def)

end
