(* ===== verification/Record_Format.thy ===== *)
theory Record_Format
  imports Message
begin

text \<open>
  The byte layout of \<open>include/replay/record_format.hpp\<close>: little-endian integers written into and
  read from a byte buffer at an offset, and the 64-byte record. A \<open>uint8_t*\<close> is a buffer with an
  offset; the functions return the updated buffer. All offsets the code uses lie inside its
  fixed-size buffers, which the length lemmas keep track of.
\<close>

definition kMagic :: "u8 list" where
  "kMagic = [0x54, 0x52, 0x45, 0x43]"

definition kFormatVersion :: u32 where
  "kFormatVersion = 1"

definition kHeaderSize :: nat where
  "kHeaderSize = 8"

definition kRecordSize :: nat where
  "kRecordSize = 64"

definition put_u32 :: "nat \<Rightarrow> u32 \<Rightarrow> u8 list \<Rightarrow> u8 list" where
  "put_u32 p v buf = buf[p := ucast v, p + 1 := ucast (drop_bit 8 v),
     p + 2 := ucast (drop_bit 16 v), p + 3 := ucast (drop_bit 24 v)]"

definition put_u64 :: "nat \<Rightarrow> u64 \<Rightarrow> u8 list \<Rightarrow> u8 list" where
  "put_u64 p v buf = fold (\<lambda>i b. b[p + i := ucast (drop_bit (8 * i) v)]) [0..<8] buf"

definition get_u32 :: "nat \<Rightarrow> u8 list \<Rightarrow> u32" where
  "get_u32 p buf = ucast (buf ! p) OR push_bit 8 (ucast (buf ! (p + 1))) OR
     push_bit 16 (ucast (buf ! (p + 2))) OR push_bit 24 (ucast (buf ! (p + 3)))"

definition get_u64 :: "nat \<Rightarrow> u8 list \<Rightarrow> u64" where
  "get_u64 p buf = fold (\<lambda>i v. v OR push_bit (8 * i) (ucast (buf ! (p + i)))) [0..<8] 0"

definition encode_record :: "message \<Rightarrow> u8 list" where
  "encode_record m =
     (let b0 = replicate kRecordSize 0;
          b1 = put_u32 0 (m_stream_id m) b0;
          b2 = put_u64 8 (m_ts_ns m) b1;
          b3 = put_u64 16 (m_value m) b2
      in put_u64 24 (m_seq m) b3)"

text \<open>\<open>decode_record\<close> fills the content fields of the caller's message and leaves its padding.\<close>

definition decode_record :: "u8 list \<Rightarrow> message \<Rightarrow> message" where
  "decode_record buf m = m\<lparr>m_stream_id := get_u32 0 buf, m_ts_ns := get_u64 8 buf,
     m_value := get_u64 16 buf, m_seq := get_u64 24 buf\<rparr>"

section \<open>Bytes of words\<close>

named_theorems byte_simps

lemma upt_8: "[0..<8] = [0, 1, 2, 3, 4, 5, 6, 7]"
  by (simp add: upt_rec)

lemma put_u64_unfold: "put_u64 p v buf = buf[p := ucast v, p + 1 := ucast (drop_bit 8 v),
     p + 2 := ucast (drop_bit 16 v), p + 3 := ucast (drop_bit 24 v),
     p + 4 := ucast (drop_bit 32 v), p + 5 := ucast (drop_bit 40 v),
     p + 6 := ucast (drop_bit 48 v), p + 7 := ucast (drop_bit 56 v)]"
  by (simp add: put_u64_def upt_8)

lemma get_u64_unfold: "get_u64 p buf = ucast (buf ! p) OR push_bit 8 (ucast (buf ! (p + 1))) OR
     push_bit 16 (ucast (buf ! (p + 2))) OR push_bit 24 (ucast (buf ! (p + 3))) OR
     push_bit 32 (ucast (buf ! (p + 4))) OR push_bit 40 (ucast (buf ! (p + 5))) OR
     push_bit 48 (ucast (buf ! (p + 6))) OR push_bit 56 (ucast (buf ! (p + 7)))"
  by (simp add: get_u64_def upt_8 or.assoc)

lemma length_put [simp]: "length (put_u32 p v buf) = length buf" "length (put_u64 p w buf) = length buf"
  by (simp_all add: put_u32_def put_u64_unfold)

lemma nth_put_u32: "p + 4 \<le> length buf \<Longrightarrow> put_u32 p v buf ! j =
    (if p \<le> j \<and> j < p + 4 then ucast (drop_bit (8 * (j - p)) v) else buf ! j)"
proof -
  assume len: "p + 4 \<le> length buf"
  consider "j < p \<or> p + 4 \<le> j" | "j = p" | "j = p + 1" | "j = p + 2" | "j = p + 3" by linarith
  then show ?thesis using len by cases (auto simp: put_u32_def nth_list_update)
qed

lemma nth_put_u64: "p + 8 \<le> length buf \<Longrightarrow> put_u64 p v buf ! j =
    (if p \<le> j \<and> j < p + 8 then ucast (drop_bit (8 * (j - p)) v) else buf ! j)"
proof -
  assume len: "p + 8 \<le> length buf"
  consider "j < p \<or> p + 8 \<le> j" | "j = p" | "j = p + 1" | "j = p + 2" | "j = p + 3"
    | "j = p + 4" | "j = p + 5" | "j = p + 6" | "j = p + 7" by linarith
  then show ?thesis using len by cases (auto simp: put_u64_unfold nth_list_update)
qed

lemma join_byte:
  fixes v :: "'a::len word"
  shows "take_bit k v OR push_bit k (ucast (ucast (drop_bit k v) :: u8)) = take_bit (k + 8) v"
  by (rule bit_word_eqI) (auto simp: bit_simps dest: bit_imp_le_length)

lemma join_byte_0:
  fixes v :: "'a::len word"
  shows "ucast (ucast v :: u8) = take_bit 8 v"
  by (rule bit_word_eqI) (auto simp: bit_simps dest: bit_imp_le_length)

lemma join_bytes_32:
  "(ucast (ucast v :: u8) :: u32) OR push_bit 8 (ucast (ucast (drop_bit 8 v) :: u8)) OR
     push_bit 16 (ucast (ucast (drop_bit 16 v) :: u8)) OR
     push_bit 24 (ucast (ucast (drop_bit 24 v) :: u8)) = v"
  using join_byte [of 8 v] join_byte [of 16 v] join_byte [of 24 v]
  by (simp add: join_byte_0 or.assoc [symmetric] take_bit_word_eq_self)

lemma join_bytes_64:
  "(ucast (ucast v :: u8) :: u64) OR push_bit 8 (ucast (ucast (drop_bit 8 v) :: u8)) OR
     push_bit 16 (ucast (ucast (drop_bit 16 v) :: u8)) OR
     push_bit 24 (ucast (ucast (drop_bit 24 v) :: u8)) OR
     push_bit 32 (ucast (ucast (drop_bit 32 v) :: u8)) OR
     push_bit 40 (ucast (ucast (drop_bit 40 v) :: u8)) OR
     push_bit 48 (ucast (ucast (drop_bit 48 v) :: u8)) OR
     push_bit 56 (ucast (ucast (drop_bit 56 v) :: u8)) = v"
  using join_byte [of 8 v] join_byte [of 16 v] join_byte [of 24 v] join_byte [of 32 v]
    join_byte [of 40 v] join_byte [of 48 v] join_byte [of 56 v]
  by (simp add: join_byte_0 or.assoc [symmetric] take_bit_word_eq_self)

lemma get_put_u32 [byte_simps]: "p + 4 \<le> length buf \<Longrightarrow> get_u32 p (put_u32 p v buf) = v"
  by (simp add: get_u32_def nth_put_u32 join_bytes_32)

lemma get_put_u64 [byte_simps]: "p + 8 \<le> length buf \<Longrightarrow> get_u64 p (put_u64 p v buf) = v"
  by (simp add: get_u64_unfold nth_put_u64 join_bytes_64)

text \<open>Writes elsewhere do not disturb a read.\<close>

lemma get_u32_other [byte_simps]:
  "q + 8 \<le> length buf \<Longrightarrow> p + 4 \<le> q \<or> q + 8 \<le> p \<Longrightarrow> get_u32 p (put_u64 q v buf) = get_u32 p buf"
  by (auto simp: get_u32_def nth_put_u64)

lemma get_u64_other [byte_simps]:
  "q + 8 \<le> length buf \<Longrightarrow> p + 8 \<le> q \<or> q + 8 \<le> p \<Longrightarrow> get_u64 p (put_u64 q v buf) = get_u64 p buf"
  by (auto simp: get_u64_unfold nth_put_u64)

lemma get_u64_nth: "i < 8 \<Longrightarrow> (ucast (drop_bit (8 * i) (get_u64 p buf)) :: u8) = buf ! (p + i)"
proof -
  assume "i < 8"
  then consider "i = 0" | "i = 1" | "i = 2" | "i = 3" | "i = 4" | "i = 5" | "i = 6" | "i = 7"
    by linarith
  then show ?thesis
    by cases (simp_all add: get_u64_unfold, (rule bit_word_eqI, auto simp: bit_simps dest: bit_imp_le_length)+)
qed

lemma get_u32_nth: "i < 4 \<Longrightarrow> (ucast (drop_bit (8 * i) (get_u32 p buf)) :: u8) = buf ! (p + i)"
proof -
  assume "i < 4"
  then consider "i = 0" | "i = 1" | "i = 2" | "i = 3" by linarith
  then show ?thesis
    by cases (simp_all add: get_u32_def, (rule bit_word_eqI, auto simp: bit_simps dest: bit_imp_le_length)+)
qed

section \<open>The record\<close>

lemma length_encode [simp]: "length (encode_record m) = kRecordSize"
  by (simp add: encode_record_def Let_def)

lemma encode_content_only:
  "message_content a = message_content b \<Longrightarrow> encode_record a = encode_record b"
  by (simp add: message_content_eq_iff encode_record_def)

lemma decode_encode: "decode_record (encode_record m) out =
    out\<lparr>m_stream_id := m_stream_id m, m_ts_ns := m_ts_ns m, m_value := m_value m, m_seq := m_seq m\<rparr>"
  by (simp add: decode_record_def encode_record_def Let_def byte_simps kRecordSize_def)

lemma decode_encode_content: "message_content (decode_record (encode_record m) out) = message_content m"
  by (simp add: decode_encode message_content_def)

lemma encode_padding:
  "(4 \<le> j \<and> j < 8) \<or> (32 \<le> j \<and> j < 64) \<Longrightarrow> encode_record m ! j = 0"
  by (auto simp: encode_record_def Let_def nth_put_u32 nth_put_u64 kRecordSize_def)

end
