(* ===== verification/Pool_Allocator.thy ===== *)
theory Pool_Allocator
  imports Record_Format
begin

text \<open>
  \<open>PoolAllocator\<close> of \<open>include/core/pool_allocator.hpp\<close> on a byte memory with 64-bit addresses: the free
  list is the chain of pointers stored in the first eight bytes of the free blocks, as in the code.
  The result of \<open>aligned_alloc\<close> is an argument of the constructor (0 when it fails). Clients own the
  blocks they were given and may write any byte of them, so a run is a sequence of \<open>allocate\<close>,
  \<open>deallocate\<close> and client stores; calls the comments declare undefined have no successor.
\<close>

type_synonym memory = "u64 \<Rightarrow> u8"

record pool =
  pl_storage :: u64
  pl_free_head :: u64
  pl_stride :: u64
  pl_block_count :: u64

section \<open>Memory\<close>

definition load64 :: "u64 \<Rightarrow> memory \<Rightarrow> u64" where
  "load64 a mem = get_u64 0 (map (\<lambda>i. mem (a + of_nat i)) [0..<8])"

definition store64 :: "u64 \<Rightarrow> u64 \<Rightarrow> memory \<Rightarrow> memory" where
  "store64 a v mem = (\<lambda>x. if x - a < 8 then put_u64 0 v (replicate 8 0) ! unat (x - a) else mem x)"

section \<open>The code\<close>

definition kAlign :: u64 where
  "kAlign = 16"

definition round_stride :: "u64 \<Rightarrow> u64" where
  "round_stride block_size =
     (let min_size = (if block_size < 8 then 8 else block_size)
      in (min_size + kAlign - 1) AND NOT (kAlign - 1))"

fun build_free_list :: "nat \<Rightarrow> u64 \<Rightarrow> u64 \<Rightarrow> u64 \<Rightarrow> memory \<Rightarrow> u64 \<times> memory" where
  "build_free_list 0 storage stride head mem = (head, mem)"
| "build_free_list (Suc i) storage stride head mem =
     (let block = storage + of_nat i * stride
      in build_free_list i storage stride block (store64 block head mem))"

definition pool_init :: "u64 \<Rightarrow> u64 \<Rightarrow> u64 \<Rightarrow> memory \<Rightarrow> pool \<times> memory" where
  "pool_init block_size block_count alloc_result mem =
     (let stride = round_stride block_size;
          total = stride * block_count
      in if total = 0
         then (\<lparr>pl_storage = 0, pl_free_head = 0, pl_stride = stride, pl_block_count = block_count\<rparr>, mem)
         else if alloc_result = 0
         then (\<lparr>pl_storage = 0, pl_free_head = 0, pl_stride = stride, pl_block_count = 0\<rparr>, mem)
         else (let (head, mem) = build_free_list (unat block_count) alloc_result stride 0 mem
               in (\<lparr>pl_storage = alloc_result, pl_free_head = head, pl_stride = stride,
                    pl_block_count = block_count\<rparr>, mem)))"

definition pool_allocate :: "pool \<Rightarrow> memory \<Rightarrow> u64 \<times> pool" where
  "pool_allocate p mem =
     (if pl_free_head p = 0 then (0, p)
      else (let block = pl_free_head p
            in (block, p\<lparr>pl_free_head := load64 block mem\<rparr>)))"

definition pool_deallocate :: "u64 \<Rightarrow> pool \<Rightarrow> memory \<Rightarrow> pool \<times> memory" where
  "pool_deallocate a p mem =
     (if a = 0 then (p, mem)
      else (p\<lparr>pl_free_head := a\<rparr>, store64 a (pl_free_head p) mem))"

section \<open>Clients\<close>

text \<open>The last component of a state is what clients hold. A client store must hit a held block.\<close>

datatype pool_op = Allocate | Deallocate u64 | ClientStore u64 u8

type_synonym pool_state = "pool \<times> memory \<times> u64 list"

fun pool_step :: "pool_op \<Rightarrow> pool_state \<Rightarrow> pool_state option" where
  "pool_step Allocate (p, mem, held) =
     (let (b, p) = pool_allocate p mem
      in Some (p, mem, if b = 0 then held else b # held))"
| "pool_step (Deallocate a) (p, mem, held) =
     (if a = 0 \<or> a \<in> set held
      then (let (p, mem) = pool_deallocate a p mem in Some (p, mem, remove1 a held))
      else None)"
| "pool_step (ClientStore a v) (p, mem, held) =
     (if list_ex (\<lambda>b. a - b < pl_stride p) held then Some (p, mem(a := v), held) else None)"

fun pool_run :: "pool_op list \<Rightarrow> pool_state \<Rightarrow> pool_state option" where
  "pool_run [] s = Some s"
| "pool_run (c # cs) s = (case pool_step c s of None \<Rightarrow> None | Some t \<Rightarrow> pool_run cs t)"

section \<open>Loads and stores\<close>

lemma load64_cong: "(\<And>x. x - a < 8 \<Longrightarrow> mem' x = mem x) \<Longrightarrow> load64 a mem' = load64 a mem"
proof -
  assume same: "\<And>x. x - a < 8 \<Longrightarrow> mem' x = mem x"
  have "map (\<lambda>i. mem' (a + of_nat i)) [0..<8] = map (\<lambda>i. mem (a + of_nat i)) [0..<8]"
  proof (rule map_cong [OF refl])
    fix i :: nat assume "i \<in> set [0..<8]"
    then have "of_nat i < (8 :: u64)" by (simp add: word_less_nat_alt unat_of_nat)
    then show "mem' (a + of_nat i) = mem (a + of_nat i)" using same by simp
  qed
  then show ?thesis by (simp only: load64_def)
qed

lemma load_store_same: "load64 a (store64 a v mem) = v"
proof -
  have "map (\<lambda>i. store64 a v mem (a + of_nat i)) [0..<8] = put_u64 0 v (replicate 8 0)"
  proof (rule nth_equalityI)
    fix i assume "i < length (map (\<lambda>i. store64 a v mem (a + of_nat i)) [0..<8])"
    then have "i < 8" by simp
    then show "map (\<lambda>i. store64 a v mem (a + of_nat i)) [0..<8] ! i = put_u64 0 v (replicate 8 0) ! i"
      by (simp add: store64_def word_less_nat_alt unat_of_nat)
  qed simp
  then show ?thesis by (simp add: load64_def get_put_u64)
qed

lemma store64_outside: "\<not> x - a < 8 \<Longrightarrow> store64 a v mem x = mem x"
  by (simp add: store64_def)

section \<open>Blocks\<close>

definition blocks :: "u64 \<Rightarrow> u64 \<Rightarrow> nat \<Rightarrow> u64 list" where
  "blocks storage stride n = map (\<lambda>i. storage + of_nat i * stride) [0..<n]"

text \<open>\<open>region_ok\<close>: what the code needs of the region: it exists, it is aligned, it does not run over the
  end of the address space, and \<open>stride * count\<close> did not wrap.\<close>

definition region_ok :: "u64 \<Rightarrow> u64 \<Rightarrow> nat \<Rightarrow> bool" where
  "region_ok storage stride n \<longleftrightarrow> 0 < storage \<and> 16 dvd unat storage \<and> 16 dvd unat stride \<and>
     16 \<le> unat stride \<and> unat storage + n * unat stride \<le> 2 ^ 64"

lemma unat_block:
  assumes "region_ok storage stride n" "i < n" "unat d < unat stride"
  shows "unat (storage + of_nat i * stride + d) = unat storage + i * unat stride + unat d"
proof -
  have "(i + 1) * unat stride \<le> n * unat stride" using assms(2) by (intro mult_right_mono) simp_all
  then have lt: "unat storage + i * unat stride + unat d < 2 ^ 64"
    using assms(1,3) by (simp add: region_ok_def algebra_simps)
  have "storage + of_nat i * stride + d = of_nat (unat storage + i * unat stride + unat d)"
    by simp
  moreover have "unat (of_nat k :: u64) = k" if "k < 2 ^ 64" for k
    using that by (simp add: unat_of_nat)
  ultimately show ?thesis using lt by (simp only:)
qed

lemma block_index_unique:
  assumes "region_ok storage stride n" "i < n" "j < n"
    "x - (storage + of_nat i * stride) < stride" "x - (storage + of_nat j * stride) < stride"
  shows "i = j"
proof -
  define d where "d = x - (storage + of_nat i * stride)"
  define e where "e = x - (storage + of_nat j * stride)"
  have de: "unat d < unat stride" "unat e < unat stride"
    using assms(4,5) by (simp_all add: d_def e_def word_less_nat_alt)
  have "x = storage + of_nat i * stride + d" "x = storage + of_nat j * stride + e"
    by (simp_all add: d_def e_def)
  then have "unat storage + i * unat stride + unat d = unat storage + j * unat stride + unat e"
    using unat_block [OF assms(1,2) de(1)] unat_block [OF assms(1,3) de(2)] by metis
  then have "i * unat stride + unat d = j * unat stride + unat e" by simp
  then have "(i * unat stride + unat d) div unat stride = (j * unat stride + unat e) div unat stride"
    by simp
  then show ?thesis using de by simp
qed

lemma blocks_facts:
  assumes "region_ok storage stride n"
  shows "distinct (blocks storage stride n)" "0 \<notin> set (blocks storage stride n)"
    "length (blocks storage stride n) = n"
    "a \<in> set (blocks storage stride n) \<Longrightarrow> 16 dvd unat a \<and> unat storage \<le> unat a \<and>
       unat a + unat stride \<le> unat storage + n * unat stride"
    "a \<in> set (blocks storage stride n) \<Longrightarrow> b \<in> set (blocks storage stride n) \<Longrightarrow>
       x - a < stride \<Longrightarrow> x - b < stride \<Longrightarrow> a = b"
proof -
  have pos: "0 < stride" "unat (0::u64) < unat stride"
    using assms by (auto simp: region_ok_def word_less_nat_alt)
  have un: "unat (storage + of_nat i * stride) = unat storage + i * unat stride" if "i < n" for i
    using unat_block [OF assms that pos(2)] by simp
  show "distinct (blocks storage stride n)"
  proof -
    have "inj_on (\<lambda>i. storage + of_nat i * stride) {0..<n}"
    proof (rule inj_onI)
      fix i j assume "i \<in> {0..<n}" "j \<in> {0..<n}" "storage + of_nat i * stride = storage + of_nat j * stride"
      then show "i = j"
        using block_index_unique [OF assms, of i j "storage + of_nat i * stride"] pos by simp
    qed
    then show ?thesis by (simp add: blocks_def distinct_map)
  qed
  show "0 \<notin> set (blocks storage stride n)"
  proof
    assume "0 \<in> set (blocks storage stride n)"
    then obtain i where "i < n" "storage + of_nat i * stride = 0" by (auto simp: blocks_def)
    then have "unat storage + i * unat stride = 0" using un by (metis unat_0)
    then show False using assms by (simp add: region_ok_def word_less_nat_alt)
  qed
  show "length (blocks storage stride n) = n" by (simp add: blocks_def)
  show "16 dvd unat a \<and> unat storage \<le> unat a \<and>
       unat a + unat stride \<le> unat storage + n * unat stride" if a: "a \<in> set (blocks storage stride n)"
  proof -
    from a obtain i where i: "i < n" "a = storage + of_nat i * stride" by (auto simp: blocks_def)
    have "(i + 1) * unat stride \<le> n * unat stride" using i(1) by (intro mult_right_mono) simp_all
    then show ?thesis using assms un [OF i(1)] by (simp add: i(2) region_ok_def algebra_simps)
  qed
  show "a = b" if "a \<in> set (blocks storage stride n)" "b \<in> set (blocks storage stride n)"
    "x - a < stride" "x - b < stride"
  proof -
    from that obtain i j where ij: "i < n" "a = storage + of_nat i * stride"
      "j < n" "b = storage + of_nat j * stride" by (auto simp: blocks_def)
    with that have "i = j" using block_index_unique [OF assms ij(1,3)] by blast
    then show ?thesis by (simp add: ij)
  qed
qed


section \<open>The free list\<close>

fun free_chain :: "memory \<Rightarrow> u64 \<Rightarrow> u64 list \<Rightarrow> bool" where
  "free_chain mem head [] \<longleftrightarrow> head = 0"
| "free_chain mem head (b # bs) \<longleftrightarrow> head = b \<and> b \<noteq> 0 \<and> free_chain mem (load64 b mem) bs"

lemma free_chain_cong:
  "(\<And>b x. b \<in> set bs \<Longrightarrow> x - b < 8 \<Longrightarrow> mem' x = mem x) \<Longrightarrow>
   free_chain mem' head bs \<longleftrightarrow> free_chain mem head bs"
proof (induction bs arbitrary: head)
  case (Cons b bs)
  have "load64 b mem' = load64 b mem" by (rule load64_cong) (rule Cons.prems, simp_all)
  moreover have "free_chain mem' h bs \<longleftrightarrow> free_chain mem h bs" for h
    by (rule Cons.IH) (rule Cons.prems, auto)
  ultimately show ?case by simp
qed simp

definition pool_inv :: "u64 \<Rightarrow> nat \<Rightarrow> u64 list \<Rightarrow> pool_state \<Rightarrow> bool" where
  "pool_inv storage n free s \<longleftrightarrow>
     (case s of (p, mem, held) \<Rightarrow>
        region_ok storage (pl_stride p) n \<and> free_chain mem (pl_free_head p) free \<and>
        distinct (free @ held) \<and> set (free @ held) = set (blocks storage (pl_stride p) n))"

text \<open>A block's bytes do not meet the link of another block.\<close>

lemma link_in_block: "region_ok storage stride n \<Longrightarrow> (x :: u64) < 8 \<Longrightarrow> x < stride"
  by (simp add: region_ok_def word_less_nat_alt)

lemma blocks_apart:
  assumes "region_ok storage stride n" "a \<in> set (blocks storage stride n)"
    "b \<in> set (blocks storage stride n)" "a \<noteq> b" "x - a < stride"
  shows "\<not> x - b < stride" "\<not> x - b < 8"
  using blocks_facts(5) [OF assms(1-3,5)] assms(4) link_in_block [OF assms(1), of "x - b"] by blast+

lemma build_free_list_chain:
  assumes "region_ok storage stride n" "k \<le> n" "build_free_list k storage stride head mem = (head', mem')"
    "free_chain mem head (drop k (blocks storage stride n))"
  shows "free_chain mem' head' (blocks storage stride n)"
  using assms(2-4)
proof (induction k arbitrary: head mem)
  case (Suc k)
  define b where "b = storage + of_nat k * stride"
  have dr: "drop k (blocks storage stride n) = b # drop (Suc k) (blocks storage stride n)"
    using Suc.prems(1) blocks_facts(3) [OF assms(1)]
    by (subst Cons_nth_drop_Suc [symmetric]) (simp_all add: b_def blocks_def)
  have b: "b \<in> set (blocks storage stride n)" using dr in_set_dropD by (metis list.set_intros(1))
  have "b \<notin> set (drop (Suc k) (blocks storage stride n))"
    using distinct_drop [OF blocks_facts(1) [OF assms(1)], of k] dr by simp
  then have "free_chain (store64 b head mem) head (drop (Suc k) (blocks storage stride n))"
    using Suc.prems(3) blocks_apart(2) [OF assms(1) _ b] link_in_block [OF assms(1)]
    by (subst free_chain_cong [where mem = mem])
      (metis store64_outside in_set_dropD)+
  moreover have "b \<noteq> 0" using b blocks_facts(2) [OF assms(1)] by metis
  ultimately have "free_chain (store64 b head mem) b (drop k (blocks storage stride n))"
    by (simp add: dr load_store_same)
  moreover have "build_free_list k storage stride b (store64 b head mem) = (head', mem')"
    using Suc.prems(2) by (simp add: b_def Let_def)
  ultimately show ?case using Suc.prems(1) Suc.IH by simp
qed simp

lemma build_free_list_outside:
  "build_free_list k storage stride head mem = (head', mem') \<Longrightarrow>
   (\<And>i. i < k \<Longrightarrow> \<not> x - (storage + of_nat i * stride) < 8) \<Longrightarrow> mem' x = mem x"
  by (induction k arbitrary: head mem) (auto simp: Let_def store64_outside)

section \<open>Every operation keeps the pool consistent\<close>

lemma pool_inv_allocate:
  assumes "pool_inv storage n free (p, mem, held)" "pool_allocate p mem = (b, p')"
  shows "(free = [] \<and> b = 0 \<and> p' = p) \<or>
    (\<exists>free'. free = b # free' \<and> b \<noteq> 0 \<and> pl_stride p' = pl_stride p \<and> pool_inv storage n free' (p', mem, b # held))"
  using assms by (cases free) (auto simp: pool_inv_def pool_allocate_def)

lemma pool_inv_deallocate:
  assumes "pool_inv storage n free (p, mem, held)" "a \<in> set held" "pool_deallocate a p mem = (p', mem')"
  shows "pool_inv storage n (a # free) (p', mem', remove1 a held) \<and> pl_stride p' = pl_stride p \<and>
    pl_free_head p' = a \<and> (\<forall>b x. b \<in> set (remove1 a held) \<and> x - b < pl_stride p \<longrightarrow> mem' x = mem x)"
proof -
  have inv: "region_ok storage (pl_stride p) n" "free_chain mem (pl_free_head p) free"
    "distinct (free @ held)" "set (free @ held) = set (blocks storage (pl_stride p) n)"
    using assms(1) by (simp_all add: pool_inv_def)
  have a: "a \<in> set (blocks storage (pl_stride p) n)" using assms(2) inv(4) by auto
  then have "a \<noteq> 0" using blocks_facts(2) [OF inv(1)] by metis
  then have eq: "p' = p\<lparr>pl_free_head := a\<rparr>" "mem' = store64 a (pl_free_head p) mem"
    using assms(3) by (simp_all add: pool_deallocate_def)
  have keep: "mem' x = mem x" if "b \<in> set free \<union> set held" "b \<noteq> a" "x - b < pl_stride p" for b x
    unfolding eq(2) using blocks_apart(2) [OF inv(1) _ a that(2,3)] that(1) inv(4)
    by (intro store64_outside) auto
  have "a \<notin> set free" using inv(3) assms(2) by auto
  then have "free_chain mem' (pl_free_head p) free"
    using inv(2) keep link_in_block [OF inv(1)] by (subst free_chain_cong [where mem = mem]) blast+
  moreover have "load64 a mem' = pl_free_head p" by (simp add: eq load_store_same)
  moreover have "insert a (set (remove1 a held)) = set held" "a \<notin> set (remove1 a held)"
    using assms(2) inv(3) by auto
  ultimately show ?thesis
    using inv \<open>a \<noteq> 0\<close> \<open>a \<notin> set free\<close> keep
    by (auto simp: pool_inv_def eq(1))
qed

lemma pool_inv_store:
  assumes "pool_inv storage n free (p, mem, held)" "b \<in> set held" "a - b < pl_stride p"
  shows "pool_inv storage n free (p, mem(a := v), held)"
proof -
  have inv: "region_ok storage (pl_stride p) n" "free_chain mem (pl_free_head p) free"
    "distinct (free @ held)" "set (free @ held) = set (blocks storage (pl_stride p) n)"
    using assms(1) by (simp_all add: pool_inv_def)
  have "(mem(a := v)) x = mem x" if "c \<in> set free" "x - c < 8" for c x
  proof -
    have "c \<noteq> b" using that(1) assms(2) inv(3) by auto
    then have "\<not> a - c < 8" using blocks_apart(2) [OF inv(1) _ _ _ assms(3), of c] assms(2) that(1) inv(4) by auto
    then show ?thesis using that(2) by auto
  qed
  then have "free_chain (mem(a := v)) (pl_free_head p) free"
    using inv(2) by (subst free_chain_cong [where mem = mem]) blast+
  then show ?thesis using inv by (simp add: pool_inv_def)
qed


section \<open>The stride\<close>

lemma and_not_15: "unat ((x :: u64) AND - 16) = unat x - unat x mod 16"
proof -
  have m: "(- 16 :: u64) = NOT (mask 4)" by (simp add: mask_eq_exp_minus_1)
  have "x AND - 16 = push_bit 4 (drop_bit 4 x)"
    unfolding m by (rule bit_word_eqI) (auto simp: bit_simps)
  also have "\<dots> = x - take_bit 4 x" using bits_ident [of 4 x] by (simp add: algebra_simps)
  finally have "x AND - 16 = x - take_bit 4 x" .
  moreover have t: "unat (take_bit 4 x) = unat x mod 16"
    unfolding unsigned_take_bit_eq by (simp add: take_bit_eq_mod)
  then have "take_bit 4 x \<le> x" by (simp add: word_le_nat_alt)
  ultimately show ?thesis using t by (simp add: unat_sub)
qed

lemma round_stride_unat:
  "unat (round_stride bs) =
    (let k = (if unat bs < 8 then 8 else unat bs)
     in if k + 15 < 2 ^ 64 then (k + 15) div 16 * 16 else 0)"
proof -
  define m where "m = (if bs < 8 then 8 else bs)"
  define k where "k = (if unat bs < 8 then 8 else unat bs)"
  have mk: "unat m = k" by (simp add: m_def k_def word_less_nat_alt)
  have r: "round_stride bs = (m + 15) AND - 16"
    by (simp add: round_stride_def kAlign_def m_def add_diff_eq [symmetric])
  have s: "unat (m + 15) = (k + 15) mod 2 ^ 64" by (simp add: unat_word_ariths mk)
  show ?thesis
  proof (cases "k + 15 < 2 ^ 64")
    case True
    then show ?thesis
      by (simp add: r and_not_15 s k_def [symmetric] Let_def minus_mod_eq_div_mult)
  next
    case False
    have "k < 2 ^ 64" unfolding mk [symmetric] using unsigned_less [of m] by simp
    with False have "(k + 15) mod 2 ^ 64 = k + 15 - 2 ^ 64" "k + 15 - 2 ^ 64 < 16"
      by (simp_all add: le_mod_geq)
    then show ?thesis using False by (simp add: r and_not_15 s k_def [symmetric] Let_def)
  qed
qed

lemma round_stride_ok:
  assumes "round_stride bs \<noteq> 0"
  shows "16 dvd unat (round_stride bs)" "16 \<le> unat (round_stride bs)" "unat bs \<le> unat (round_stride bs)"
proof -
  define k where "k = (if unat bs < 8 then 8 else unat bs)"
  from assms have "unat (round_stride bs) \<noteq> 0" by (simp add: unat_eq_0)
  then have e: "unat (round_stride bs) = (k + 15) div 16 * 16"
    by (simp add: round_stride_unat k_def [symmetric] Let_def split: if_splits)
  show "16 dvd unat (round_stride bs)" by (simp add: e)
  have "8 \<le> k" "unat bs \<le> k" by (auto simp: k_def)
  then show "16 \<le> unat (round_stride bs)" "unat bs \<le> unat (round_stride bs)"
    by (simp_all add: e)
qed

section \<open>A pool from construction on\<close>

text \<open>What \<open>aligned_alloc(kAlign, total)\<close> promises: null, or an aligned region inside the address
  space; and \<open>stride_ * block_count_\<close> as computed is the size that was meant.\<close>

definition alloc_contract :: "u64 \<Rightarrow> u64 \<Rightarrow> u64 \<Rightarrow> bool" where
  "alloc_contract block_size count base \<longleftrightarrow>
     unat (round_stride block_size) * unat count < 2 ^ 64 \<and>
     (base = 0 \<or> 16 dvd unat base \<and>
        unat base + unat (round_stride block_size) * unat count \<le> 2 ^ 64)"

text \<open>The number of blocks a pool really has.\<close>

definition pool_size :: "u64 \<Rightarrow> u64 \<Rightarrow> u64 \<Rightarrow> nat" where
  "pool_size block_size count base =
     (if base = 0 \<or> round_stride block_size = 0 then 0 else unat count)"

text \<open>\<open>pool_ok\<close>: either there is no region and nothing to give out, or the pool is consistent.\<close>

definition pool_ok :: "u64 \<Rightarrow> u64 \<Rightarrow> nat \<Rightarrow> u64 list \<Rightarrow> pool_state \<Rightarrow> bool" where
  "pool_ok base stride n free s \<longleftrightarrow>
     (case s of (p, mem, held) \<Rightarrow>
        pl_stride p = stride \<and>
        (if n = 0 then pl_free_head p = 0 \<and> held = [] \<and> free = []
         else pool_inv base n free s))"

lemma pool_ok_init:
  assumes "alloc_contract bs count base" "pool_init bs count base mem = (p, mem')"
  shows "\<exists>free. pool_ok base (round_stride bs) (pool_size bs count base) free (p, mem', [])"
proof (cases "pool_size bs count base = 0")
  case True
  then have "pl_free_head p = 0 \<and> pl_stride p = round_stride bs"
    using assms by (auto simp: pool_init_def Let_def pool_size_def unat_eq_0 split: if_splits)
  then show ?thesis using True by (auto simp: pool_ok_def)
next
  case False
  define n where "n = unat count"
  have n: "pool_size bs count base = n" "base \<noteq> 0" "round_stride bs \<noteq> 0" "0 < n"
    using False by (auto simp: pool_size_def n_def split: if_splits)
  note st = round_stride_ok [OF n(3)]
  have "n * unat (round_stride bs) < 2 ^ 64"
    using assms(1) by (simp add: alloc_contract_def n_def mult.commute)
  moreover have "unat (round_stride bs * count) = (unat (round_stride bs) * unat count) mod 2 ^ 64"
    by (simp add: unat_word_ariths)
  ultimately have "unat (round_stride bs * count) = n * unat (round_stride bs)"
    by (simp add: n_def mult.commute)
  then have tot: "round_stride bs * count \<noteq> 0" using st(2) n(4) by auto
  obtain h m where b: "build_free_list n base (round_stride bs) 0 mem = (h, m)" by force
  have p: "p = \<lparr>pl_storage = base, pl_free_head = h, pl_stride = round_stride bs, pl_block_count = count\<rparr>"
    "mem' = m" using assms(2) tot n(2) b by (auto simp: pool_init_def Let_def n_def)
  have reg: "region_ok base (round_stride bs) n"
    using assms(1) n(2) st by (auto simp: region_ok_def alloc_contract_def n_def word_gt_0 mult.commute)
  have len: "length (blocks base (round_stride bs) n) = n" using blocks_facts(3) [OF reg] .
  have "free_chain m h (blocks base (round_stride bs) n)"
    using build_free_list_chain [OF reg order_refl b] len by simp
  then have "pool_inv base n (blocks base (round_stride bs) n) (p, mem', [])"
    using reg blocks_facts(1) [OF reg] by (simp add: pool_inv_def p)
  then show ?thesis using n(4) by (auto simp: pool_ok_def n(1) p intro: exI)
qed

lemma pool_ok_step:
  assumes "pool_ok base stride n free s" "pool_step c s = Some t"
  shows "\<exists>free'. pool_ok base stride n free' t"
proof -
  obtain p mem held where s: "s = (p, mem, held)" by (cases s)
  show ?thesis
  proof (cases "n = 0")
    case True
    then have e: "pl_free_head p = 0" "held = []" "pl_stride p = stride"
      using assms(1) by (simp_all add: pool_ok_def s)
    then have "t = s" using assms(2)
      by (cases c) (auto simp: s pool_allocate_def pool_deallocate_def split: if_splits)
    then show ?thesis using assms(1) by blast
  next
    case False
    then have inv: "pool_inv base n free (p, mem, held)" and st: "pl_stride p = stride"
      using assms(1) by (auto simp: pool_ok_def s)
    show ?thesis
    proof (cases c)
      case Allocate
      obtain b p' where a: "pool_allocate p mem = (b, p')" by force
      then have t: "t = (p', mem, if b = 0 then held else b # held)"
        using assms(2) by (simp add: s Allocate)
      show ?thesis using pool_inv_allocate [OF inv a] False st inv
        by (auto simp: t pool_ok_def)
    next
      case (Deallocate a)
      obtain p' mem' where d: "pool_deallocate a p mem = (p', mem')" by force
      show ?thesis
      proof (cases "a \<in> set held")
        case True
        then have "t = (p', mem', remove1 a held)" using assms(2) by (simp add: s Deallocate d)
        then show ?thesis using pool_inv_deallocate [OF inv True d] False st
          by (auto simp: pool_ok_def)
      next
        case nin: False
        then have "t = s" using assms(2)
          by (auto simp: s Deallocate pool_deallocate_def remove1_idem split: if_splits)
        then show ?thesis using assms(1) by blast
      qed
    next
      case (ClientStore a v)
      then obtain b where "b \<in> set held" "a - b < pl_stride p" "t = (p, mem(a := v), held)"
        using assms(2) by (auto simp: s list_ex_iff split: if_splits)
      then show ?thesis using pool_inv_store [OF inv] False st by (auto simp: pool_ok_def)
    qed
  qed
qed

lemma pool_ok_run:
  "pool_ok base stride n free s \<Longrightarrow> pool_run cs s = Some t \<Longrightarrow> \<exists>free'. pool_ok base stride n free' t"
proof (induction cs arbitrary: s free)
  case (Cons c cs)
  then obtain u where u: "pool_step c s = Some u" "pool_run cs u = Some t"
    by (auto split: option.splits)
  then show ?case using pool_ok_step [OF Cons.prems(1) u(1)] Cons.IH by blast
qed auto


lemma pool_allocate_ok:
  assumes "pool_ok base stride n free (p, mem, held)" "pool_allocate p mem = (b, p')"
  shows "b = 0 \<longleftrightarrow> length held = n"
    "b \<noteq> 0 \<Longrightarrow> region_ok base stride n \<and> b \<in> set (blocks base stride n) \<and> b \<notin> set held \<and>
       set held \<subseteq> set (blocks base stride n)"
proof -
  have "(b = 0 \<longleftrightarrow> length held = n) \<and>
    (b \<noteq> 0 \<longrightarrow> region_ok base stride n \<and> b \<in> set (blocks base stride n) \<and> b \<notin> set held \<and>
       set held \<subseteq> set (blocks base stride n))"
  proof (cases "n = 0")
    case True
    then show ?thesis using assms by (auto simp: pool_ok_def pool_allocate_def)
  next
    case False
    then have inv: "pool_inv base n free (p, mem, held)" and st: "pl_stride p = stride"
      using assms(1) by (auto simp: pool_ok_def)
    then have i: "region_ok base stride n" "distinct (free @ held)"
      "set (free @ held) = set (blocks base stride n)" by (simp_all add: pool_inv_def)
    have "length (free @ held) = n"
      using i(2,3) blocks_facts(1,3) [OF i(1)] by (metis distinct_card)
    then show ?thesis
      using pool_inv_allocate [OF inv assms(2)] i by auto
  qed
  then show "b = 0 \<longleftrightarrow> length held = n"
    "b \<noteq> 0 \<Longrightarrow> region_ok base stride n \<and> b \<in> set (blocks base stride n) \<and> b \<notin> set held \<and>
       set held \<subseteq> set (blocks base stride n)" by blast+
qed

text \<open>C28: For a pool whose size in bytes, stride times count, does not wrap (the constructor does not check this) on memory as
  \<open>aligned_alloc\<close> promises it, after any legal use (allocations, deallocations of held blocks and arbitrary client
  stores into held blocks), \<open>allocate\<close> returns null exactly when every block is out; otherwise it
  returns a block that is not held, is 16-byte aligned, lies with its \<open>block_size\<close> bytes inside the
  region, and shares no byte with a held block. Client stores never corrupt the free list.\<close>

theorem pool_allocate_fresh:
  assumes "alloc_contract bs count base" "pool_init bs count base mem0 = (p0, mem1)"
    "pool_run cs (p0, mem1, []) = Some (p, mem, held)" "pool_allocate p mem = (b, p')"
  shows "(b = 0 \<longleftrightarrow> length held = pool_size bs count base) \<and>
    (b \<noteq> 0 \<longrightarrow> b \<notin> set held \<and> 16 dvd unat b \<and> unat base \<le> unat b \<and>
       unat b + unat bs \<le> unat base + unat (round_stride bs) * unat count \<and>
       (\<forall>c x. c \<in> set held \<and> x - b < round_stride bs \<longrightarrow> \<not> x - c < round_stride bs))"
proof -
  let ?n = "pool_size bs count base" and ?st = "round_stride bs"
  obtain free where ok: "pool_ok base ?st ?n free (p, mem, held)"
    using pool_ok_init [OF assms(1,2)] pool_ok_run [OF _ assms(3)] by blast
  note al = pool_allocate_ok [OF ok assms(4)]
  have "b \<notin> set held \<and> 16 dvd unat b \<and> unat base \<le> unat b \<and>
       unat b + unat bs \<le> unat base + unat ?st * unat count \<and>
       (\<forall>c x. c \<in> set held \<and> x - b < ?st \<longrightarrow> \<not> x - c < ?st)" if "b \<noteq> 0"
  proof -
    from al(2) [OF that] have r: "region_ok base ?st ?n" and b: "b \<in> set (blocks base ?st ?n)"
      "b \<notin> set held" "set held \<subseteq> set (blocks base ?st ?n)" by blast+
    have pos: "?n \<noteq> 0" using b(1) by (auto simp: blocks_def)
    then have n: "?n = unat count" "?st \<noteq> 0" by (auto simp: pool_size_def split: if_splits)
    show ?thesis
      using blocks_facts(4) [OF r b(1)] b blocks_apart(1) [OF r b(1)] round_stride_ok(3) [OF n(2)]
      by (auto simp: n(1) mult.commute)
  qed
  then show ?thesis using al(1) by blast
qed

theorem pool_allocate_fresh_witness:
  "case pool_init 24 3 4096 (\<lambda>_. 0) of (p0, mem1) \<Rightarrow>
     (case pool_run [Allocate, ClientStore 4127 7, Allocate, Deallocate 4096] (p0, mem1, []) of
        None \<Rightarrow> False
      | Some (p, mem, held) \<Rightarrow> held = [4128] \<and> fst (pool_allocate p mem) \<notin> set held \<and>
          16 dvd unat (fst (pool_allocate p mem)))"
proof -
  have c: "alloc_contract 24 3 4096"
    by (simp add: alloc_contract_def round_stride_unat)
  obtain p0 mem1 where i: "pool_init 24 3 4096 (\<lambda>_. 0) = (p0, mem1)" by force
  have "case pool_run [Allocate, ClientStore 4127 7, Allocate, Deallocate 4096]
     (fst (pool_init 24 3 4096 (\<lambda>_. 0)), snd (pool_init 24 3 4096 (\<lambda>_. 0)), []) of
      None \<Rightarrow> False | Some (p, mem, held) \<Rightarrow> held = [4128]"
    by code_simp
  then obtain p mem where r:
    "pool_run [Allocate, ClientStore 4127 7, Allocate, Deallocate 4096] (p0, mem1, []) = Some (p, mem, [4128])"
    by (auto simp: i split: option.splits)
  have "length [4128 :: u64] \<noteq> pool_size 24 3 4096"
    by (simp add: pool_size_def round_stride_def kAlign_def)
  with pool_allocate_fresh [OF c i r, of "fst (pool_allocate p mem)" "snd (pool_allocate p mem)"]
  show ?thesis by (simp add: i r del: pool_run.simps)
qed

text \<open>The pool never touches what clients keep: a call of \<open>allocate\<close> or \<open>deallocate\<close> after any legal
  run leaves every byte of every block that stays held as it was.\<close>

theorem pool_preserves_held_data:
  assumes "alloc_contract bs count base" "pool_init bs count base mem0 = (p0, mem1)"
    "pool_run cs (p0, mem1, []) = Some (p, mem, held)"
    "c = Allocate \<or> c = Deallocate a" "pool_step c (p, mem, held) = Some (p', mem', held')"
    "b \<in> set held" "b \<in> set held'" "x - b < round_stride bs"
  shows "mem' x = mem x"
proof -
  let ?n = "pool_size bs count base" and ?st = "round_stride bs"
  obtain free where ok: "pool_ok base ?st ?n free (p, mem, held)"
    using pool_ok_init [OF assms(1,2)] pool_ok_run [OF _ assms(3)] by blast
  with assms(6) have inv: "pool_inv base ?n free (p, mem, held)" and st: "pl_stride p = ?st"
    by (auto simp: pool_ok_def split: if_splits)
  show ?thesis
  proof (cases "c = Deallocate a \<and> a \<in> set held")
    case True
    obtain q m where d: "pool_deallocate a p mem = (q, m)" by force
    have "mem' = m" "held' = remove1 a held" using assms(5) True d by auto
    then show ?thesis using pool_inv_deallocate [OF inv _ d] True assms(7,8) st by auto
  next
    case False
    then show ?thesis using assms(4,5)
      by (auto simp: pool_deallocate_def split: if_splits prod.splits)
  qed
qed

text \<open>A pool of three blocks, two of them out and the first written to, for the examples.\<close>

definition sample_pool :: "pool_state option" where
  "sample_pool = pool_run [Allocate, ClientStore 4127 7, Allocate]
     (fst (pool_init 24 3 4096 (\<lambda>_. 0)), snd (pool_init 24 3 4096 (\<lambda>_. 0)), [])"

lemma sample_pool_run:
  obtains p0 mem1 p mem where "alloc_contract 24 3 4096" "pool_init 24 3 4096 (\<lambda>_. 0) = (p0, mem1)"
    "pool_run [Allocate, ClientStore 4127 7, Allocate] (p0, mem1, []) = Some (p, mem, [4128, 4096])"
    "sample_pool = Some (p, mem, [4128, 4096])" "mem 4127 = 7"
proof -
  have c: "alloc_contract 24 3 4096"
    by (simp add: alloc_contract_def round_stride_unat)
  obtain p0 mem1 where i: "pool_init 24 3 4096 (\<lambda>_. 0) = (p0, mem1)" by force
  have "case sample_pool of None \<Rightarrow> False | Some (p, mem, held) \<Rightarrow> held = [4128, 4096] \<and> mem 4127 = 7"
    by code_simp
  then obtain p mem where "sample_pool = Some (p, mem, [4128, 4096])" "mem 4127 = 7"
    by (auto split: option.splits)
  then show thesis using that [OF c i] by (simp add: sample_pool_def i del: pool_run.simps)
qed

theorem pool_preserves_held_data_witness:
  "case sample_pool of None \<Rightarrow> False
   | Some s \<Rightarrow> (case pool_step (Deallocate 4128) s of None \<Rightarrow> False
                | Some (p', mem', held') \<Rightarrow> held' = [4096] \<and> mem' 4127 = 7)"
proof -
  obtain p0 mem1 p mem where s: "alloc_contract 24 3 4096" "pool_init 24 3 4096 (\<lambda>_. 0) = (p0, mem1)"
    "pool_run [Allocate, ClientStore 4127 7, Allocate] (p0, mem1, []) = Some (p, mem, [4128, 4096])"
    "sample_pool = Some (p, mem, [4128, 4096])" "mem 4127 = 7" by (rule sample_pool_run)
  obtain p' mem' where d: "pool_deallocate 4128 p mem = (p', mem')" by force
  then have st: "pool_step (Deallocate 4128) (p, mem, [4128, 4096]) = Some (p', mem', [4096])" by simp
  have "mem' 4127 = mem 4127"
    by (rule pool_preserves_held_data [OF s(1-3) disjI2 [OF refl] st, of 4096])
      (simp_all add: round_stride_def kAlign_def)
  then show ?thesis unfolding s(4) option.case st using s(5) by simp
qed

text \<open>A block given back is the next one handed out: after any legal run, \<open>allocate\<close> right after
  \<open>deallocate\<close> of a held block returns that block and the free list is as before.\<close>

theorem pool_is_lifo:
  assumes "alloc_contract bs count base" "pool_init bs count base mem0 = (p0, mem1)"
    "pool_run cs (p0, mem1, []) = Some (p, mem, held)" "a \<in> set held"
    "pool_deallocate a p mem = (p', mem')"
  shows "pool_allocate p' mem' = (a, p)"
proof -
  obtain free where ok: "pool_ok base (round_stride bs) (pool_size bs count base) free (p, mem, held)"
    using pool_ok_init [OF assms(1,2)] pool_ok_run [OF _ assms(3)] by blast
  with assms(4) have inv: "pool_inv base (pool_size bs count base) free (p, mem, held)"
    by (auto simp: pool_ok_def split: if_splits)
  then have "a \<noteq> 0" using assms(4) blocks_facts(2) [of base "pl_stride p" "pool_size bs count base"]
    by (auto simp: pool_inv_def)
  then show ?thesis using assms(5)
    by (auto simp: pool_deallocate_def pool_allocate_def load_store_same)
qed


theorem pool_is_lifo_witness:
  "case sample_pool of None \<Rightarrow> False
   | Some (p, mem, held) \<Rightarrow>
       (case pool_deallocate 4096 p mem of (p', mem') \<Rightarrow> pool_allocate p' mem' = (4096, p))"
proof -
  obtain p0 mem1 p mem where s: "alloc_contract 24 3 4096" "pool_init 24 3 4096 (\<lambda>_. 0) = (p0, mem1)"
    "pool_run [Allocate, ClientStore 4127 7, Allocate] (p0, mem1, []) = Some (p, mem, [4128, 4096])"
    "sample_pool = Some (p, mem, [4128, 4096])" "mem 4127 = 7" by (rule sample_pool_run)
  obtain p' mem' where d: "pool_deallocate 4096 p mem = (p', mem')" by force
  show ?thesis using pool_is_lifo [OF s(1-3) _ d] unfolding s(4) by (simp add: d)
qed

end
