(* ===== verification/Stream_File.thy ===== *)
theory Stream_File
  imports Telemetry_Prelude
begin

text \<open>
  The parts of \<open>std::ofstream\<close>, \<open>std::ifstream\<close> and the file system that the recorder, the replayer
  and the fault injector use. A disk maps paths to contents and has room for a number of further
  bytes; writing past it stores the prefix that fits and fails, as a full device does. Truncating or replacing a file
  gives no room back, so a theorem that asks for room asks for enough for all that is written. An output
  stream has a put area of \<open>os_bufsz\<close> bytes: a write that does not fit goes to the device together with
  what the area holds, and only then can the failure of an earlier write show. An input stream
  remembers the bytes not yet read; a read that comes up short sets eof and fail, and a read on
  such a stream extracts nothing.
\<close>

record disk =
  d_files :: "string \<rightharpoonup> u8 list"
  d_room :: nat
  d_creatable :: "string \<Rightarrow> bool"

record ofstream =
  os_path :: string
  os_open :: bool
  os_good :: bool
  os_buf :: "u8 list"
  os_bufsz :: nat

record ifstream =
  is_opened :: bool
  is_good :: bool
  is_rest :: "u8 list"
  is_gcount :: nat

definition file_bytes :: "string \<Rightarrow> disk \<Rightarrow> u8 list" where
  "file_bytes p d = (case d_files d p of None \<Rightarrow> [] | Some bs \<Rightarrow> bs)"

definition disk_append :: "string \<Rightarrow> u8 list \<Rightarrow> disk \<Rightarrow> disk \<times> bool" where
  "disk_append p bs d =
     (d\<lparr>d_files := (d_files d)(p \<mapsto> file_bytes p d @ take (d_room d) bs),
        d_room := d_room d - length bs\<rparr>,
      length bs \<le> d_room d)"

definition ofs_open :: "nat \<Rightarrow> string \<Rightarrow> disk \<Rightarrow> ofstream \<times> disk" where
  "ofs_open bufsz p d =
     (if d_creatable d p
      then (\<lparr>os_path = p, os_open = True, os_good = True, os_buf = [], os_bufsz = bufsz\<rparr>,
            d\<lparr>d_files := (d_files d)(p \<mapsto> [])\<rparr>)
      else (\<lparr>os_path = p, os_open = False, os_good = False, os_buf = [], os_bufsz = bufsz\<rparr>, d))"

definition ofs_write :: "u8 list \<Rightarrow> ofstream \<Rightarrow> disk \<Rightarrow> ofstream \<times> disk" where
  "ofs_write bs os d =
     (if \<not> os_good os then (os, d)
      else if length (os_buf os) + length bs < os_bufsz os
      then (os\<lparr>os_buf := os_buf os @ bs\<rparr>, d)
      else (let (d', ok) = disk_append (os_path os) (os_buf os @ bs) d
            in (os\<lparr>os_buf := [], os_good := ok\<rparr>, d')))"

definition ofs_flush :: "ofstream \<Rightarrow> disk \<Rightarrow> ofstream \<times> disk" where
  "ofs_flush os d =
     (if \<not> os_good os then (os, d)
      else (let (d', ok) = disk_append (os_path os) (os_buf os) d
            in (os\<lparr>os_buf := [], os_good := ok\<rparr>, d')))"

definition ofs_close :: "ofstream \<Rightarrow> disk \<Rightarrow> ofstream \<times> disk" where
  "ofs_close os d =
     (if \<not> os_open os then (os, d)
      else (let (d', ok) = disk_append (os_path os) (os_buf os) d
            in (os\<lparr>os_buf := [], os_good := (os_good os \<and> ok), os_open := False\<rparr>, d')))"

definition ifs_open :: "string \<Rightarrow> disk \<Rightarrow> ifstream" where
  "ifs_open p d =
     (case d_files d p of
        None \<Rightarrow> \<lparr>is_opened = False, is_good = False, is_rest = [], is_gcount = 0\<rparr>
      | Some bs \<Rightarrow> \<lparr>is_opened = True, is_good = True, is_rest = bs, is_gcount = 0\<rparr>)"

definition ifs_read :: "nat \<Rightarrow> ifstream \<Rightarrow> u8 list \<times> ifstream" where
  "ifs_read n s =
     (if \<not> is_good s then ([], s\<lparr>is_gcount := 0\<rparr>)
      else (take n (is_rest s),
            s\<lparr>is_rest := drop n (is_rest s), is_gcount := min n (length (is_rest s)),
              is_good := (n \<le> length (is_rest s))\<rparr>))"

section \<open>What a writer has put on the device\<close>

text \<open>
  \<open>written room bs os d\<close>: the stream was opened when the device had \<open>room\<close> bytes left and \<open>bs\<close> is
  everything the client has asked to write since. While the stream is good the file and the put
  area together are \<open>bs\<close>; once it has failed the file is the prefix of \<open>bs\<close> that fits.
\<close>

definition written :: "nat \<Rightarrow> u8 list \<Rightarrow> ofstream \<Rightarrow> disk \<Rightarrow> bool" where
  "written room bs os d \<longleftrightarrow>
     (if os_good os
      then file_bytes (os_path os) d @ os_buf os = bs \<and>
           length (file_bytes (os_path os) d) + d_room d = room
      else file_bytes (os_path os) d = take room bs \<and> room < length bs \<and> d_room d = 0 \<and>
           os_buf os = [])"

lemma file_bytes_append [simp]:
  "file_bytes p (fst (disk_append p bs d)) = file_bytes p d @ take (d_room d) bs"
  "d_room (fst (disk_append p bs d)) = d_room d - length bs"
  "q \<noteq> p \<Longrightarrow> d_files (fst (disk_append p bs d)) q = d_files d q"
  by (simp_all add: disk_append_def file_bytes_def)

lemma ofs_write_other:
  "q \<noteq> os_path os \<Longrightarrow> d_files (snd (ofs_write bs os d)) q = d_files d q"
  by (auto simp: ofs_write_def disk_append_def)

lemma ofs_write_same [simp]:
  "os_path (fst (ofs_write bs os d)) = os_path os" "os_open (fst (ofs_write bs os d)) = os_open os"
  by (auto simp: ofs_write_def disk_append_def)

lemma ofs_flush_same [simp]:
  "os_path (fst (ofs_flush os d)) = os_path os" "os_open (fst (ofs_flush os d)) = os_open os"
  by (auto simp: ofs_flush_def disk_append_def)

lemma written_open:
  "d_creatable d p \<Longrightarrow> (os, d') = ofs_open n p d \<Longrightarrow> written (d_room d) [] os d'"
  by (simp add: ofs_open_def written_def file_bytes_def)

lemma written_write:
  assumes "written room bs os d" "(os', d') = ofs_write cs os d"
  shows "written room (bs @ cs) os' d'"
proof (cases "os_good os \<and> os_bufsz os \<le> length (os_buf os) + length cs")
  case True
  define e where "e = fst (disk_append (os_path os) (os_buf os @ cs) d)"
  from True have eq: "os' = os\<lparr>os_buf := [], os_good := (length (os_buf os @ cs) \<le> d_room d)\<rparr>" "d' = e"
    using assms(2) by (auto simp: ofs_write_def e_def disk_append_def)
  have "file_bytes (os_path os) e = file_bytes (os_path os) d @ take (d_room d) (os_buf os @ cs)"
    "d_room e = d_room d - length (os_buf os @ cs)" by (simp_all only: e_def file_bytes_append)
  then show ?thesis using assms(1) True unfolding written_def eq by (auto split: if_splits)
next
  case False
  then show ?thesis using assms by (auto simp: ofs_write_def written_def split: if_splits)
qed

lemma written_flush:
  assumes "written room bs os d" "(os', d') = ofs_flush os d"
  shows "written room bs os' d'"
proof (cases "os_good os")
  case True
  define e where "e = fst (disk_append (os_path os) (os_buf os) d)"
  from True have eq: "os' = os\<lparr>os_buf := [], os_good := (length (os_buf os) \<le> d_room d)\<rparr>" "d' = e"
    using assms(2) by (auto simp: ofs_flush_def e_def disk_append_def)
  have "file_bytes (os_path os) e = file_bytes (os_path os) d @ take (d_room d) (os_buf os)"
    "d_room e = d_room d - length (os_buf os)" by (simp_all only: e_def file_bytes_append)
  then show ?thesis using assms(1) True unfolding written_def eq by (auto split: if_splits)
next
  case False
  then show ?thesis using assms by (auto simp: ofs_flush_def)
qed

lemma written_close:
  assumes "written room bs os d" "(os', d') = ofs_close os d" "os_open os"
  shows "file_bytes (os_path os) d' = take room bs" "os_good os' \<longleftrightarrow> length bs \<le> room"
proof -
  define e where "e = fst (disk_append (os_path os) (os_buf os) d)"
  from assms(2,3) have eq: "d' = e" "os_good os' \<longleftrightarrow> os_good os \<and> length (os_buf os) \<le> d_room d"
    by (auto simp: ofs_close_def e_def disk_append_def)
  have "file_bytes (os_path os) e = file_bytes (os_path os) d @ take (d_room d) (os_buf os)"
    by (simp only: e_def file_bytes_append)
  then show "file_bytes (os_path os) d' = take room bs" "os_good os' \<longleftrightarrow> length bs \<le> room"
    using assms(1) unfolding written_def eq by (auto split: if_splits)
qed

text \<open>A good stream has lost nothing so far, and on a device with room a stream stays good.\<close>

lemma written_good: "written room bs os d \<Longrightarrow> length bs \<le> room \<Longrightarrow> os_good os"
  by (auto simp: written_def split: if_splits)

lemma disk_append_has_file: "d_files (fst (disk_append p bs d)) p \<noteq> None"
  by (simp add: disk_append_def)

end
