(* ===== verification/Recorder.thy ===== *)
theory Recorder
  imports Record_Format Stream_File
begin

text \<open>
  \<open>StreamRecorder\<close> of \<open>include/replay/recorder.hpp\<close>. An operation takes and returns the recorder and
  the disk. What the class promises is stated over the image of a recording: the header followed by
  the encoded messages. Whatever the size of the put area, the closed file is the longest prefix of
  that image the device could hold.
\<close>

record recorder =
  rc_file :: ofstream
  rc_count :: u64
  rc_header_ok :: bool

definition header_bytes :: "u8 list" where
  "header_bytes =
     (let h = replicate kHeaderSize 0;
          h = h[0 := kMagic ! 0];
          h = h[1 := kMagic ! 1];
          h = h[2 := kMagic ! 2];
          h = h[3 := kMagic ! 3]
      in put_u32 4 kFormatVersion h)"

definition recorder_open :: "nat \<Rightarrow> string \<Rightarrow> disk \<Rightarrow> recorder \<times> disk" where
  "recorder_open bufsz path d =
     (let (os, d) = ofs_open bufsz path d
      in if os_open os
         then (let (os, d) = ofs_write header_bytes os d
               in (\<lparr>rc_file = os, rc_count = 0, rc_header_ok = os_good os\<rparr>, d))
         else (\<lparr>rc_file = os, rc_count = 0, rc_header_ok = False\<rparr>, d))"

definition recorder_is_open :: "recorder \<Rightarrow> bool" where
  "recorder_is_open r \<longleftrightarrow> os_open (rc_file r) \<and> rc_header_ok r"

definition recorder_write :: "message \<Rightarrow> recorder \<Rightarrow> disk \<Rightarrow> bool \<times> recorder \<times> disk" where
  "recorder_write msg r d =
     (if \<not> recorder_is_open r then (False, r, d)
      else (let buf = encode_record msg;
                (os, d) = ofs_write buf (rc_file r) d;
                r = r\<lparr>rc_file := os\<rparr>
            in if \<not> os_good os then (False, r, d)
               else (True, r\<lparr>rc_count := rc_count r + 1\<rparr>, d)))"

definition recorder_close :: "recorder \<Rightarrow> disk \<Rightarrow> recorder \<times> disk" where
  "recorder_close r d =
     (if os_open (rc_file r)
      then (let (os, d) = ofs_flush (rc_file r) d;
                (os, d) = ofs_close os d
            in (r\<lparr>rc_file := os\<rparr>, d))
      else (r, d))"

text \<open>The destructor.\<close>

definition recorder_destroy :: "recorder \<Rightarrow> disk \<Rightarrow> disk" where
  "recorder_destroy r d = snd (recorder_close r d)"

text \<open>A client that writes a list of messages, whatever the results are.\<close>

fun recorder_write_all :: "message list \<Rightarrow> recorder \<Rightarrow> disk \<Rightarrow> bool list \<times> recorder \<times> disk" where
  "recorder_write_all [] r d = ([], r, d)"
| "recorder_write_all (m # ms) r d =
     (let (ok, r, d) = recorder_write m r d;
          (oks, r, d) = recorder_write_all ms r d
      in (ok # oks, r, d))"

definition record_session :: "nat \<Rightarrow> string \<Rightarrow> message list \<Rightarrow> disk \<Rightarrow> bool list \<times> u64 \<times> disk" where
  "record_session bufsz path ms d =
     (let (r, d) = recorder_open bufsz path d;
          (oks, r, d) = recorder_write_all ms r d;
          (r, d) = recorder_close r d
      in (oks, rc_count r, d))"

definition file_image :: "message list \<Rightarrow> u8 list" where
  "file_image ms = header_bytes @ concat (map encode_record ms)"

section \<open>Sizes\<close>

lemma header_bytes_eq: "header_bytes = [0x54, 0x52, 0x45, 0x43, 1, 0, 0, 0]"
  by (simp add: header_bytes_def kMagic_def kHeaderSize_def kFormatVersion_def put_u32_def Let_def
      numeral_eq_Suc)

lemma length_header_bytes [simp]: "length header_bytes = kHeaderSize"
  by (simp add: header_bytes_eq kHeaderSize_def)

lemma length_file_image: "length (file_image ms) = kHeaderSize + kRecordSize * length ms"
  by (induction ms) (simp_all add: file_image_def)

section \<open>The invariant of a recording\<close>

text \<open>
  \<open>recording room ms p r d\<close>: \<open>r\<close> is open on \<open>p\<close>, the device had \<open>room\<close> bytes, the client has asked for
  \<open>ms\<close> so far. The last clause: a recorder whose header failed has a full device.
\<close>

definition recording :: "nat \<Rightarrow> message list \<Rightarrow> string \<Rightarrow> recorder \<Rightarrow> disk \<Rightarrow> bool" where
  "recording room ms p r d \<longleftrightarrow>
     os_path (rc_file r) = p \<and> os_open (rc_file r) \<and>
     written room (file_image ms) (rc_file r) d \<and>
     (\<not> rc_header_ok r \<longrightarrow> \<not> os_good (rc_file r))"

lemma file_image_snoc: "file_image (ms @ [m]) = file_image ms @ encode_record m"
  by (simp add: file_image_def)

lemma written_failed_more:
  "written room bs os d \<Longrightarrow> \<not> os_good os \<Longrightarrow> written room (bs @ cs) os d"
  by (simp add: written_def)

lemma recording_open:
  assumes "d_creatable d p" "recorder_open n p d = (r, d')"
  shows "recording (d_room d) [] p r d'" "rc_count r = 0"
proof -
  obtain os d1 where o: "ofs_open n p d = (os, d1)" by force
  obtain os2 d2 where w: "ofs_write header_bytes os d1 = (os2, d2)" by force
  from o assms(1) have op: "os_open os" "os_path os = p" by (auto simp: ofs_open_def)
  with o w assms(2) have r: "r = \<lparr>rc_file = os2, rc_count = 0, rc_header_ok = os_good os2\<rparr>" "d' = d2"
    by (simp_all add: recorder_open_def)
  have "written (d_room d) (file_image []) os2 d2"
    using written_write [OF written_open [OF assms(1) o [symmetric]] w [symmetric]]
    by (simp add: file_image_def)
  moreover have "os_open os2" "os_path os2 = p"
    using op ofs_write_same [of header_bytes os d1] by (simp_all add: w)
  ultimately show "recording (d_room d) [] p r d'" "rc_count r = 0" by (simp_all add: recording_def r)
qed

lemma recording_write:
  assumes "recording room ms p r d" "recorder_write m r d = (ok, r', d')"
  shows "recording room (ms @ [m]) p r' d'"
    "ok \<longleftrightarrow> os_good (rc_file r')"
    "rc_count r' = rc_count r + (if ok then 1 else 0)"
proof -
  obtain os e where w: "ofs_write (encode_record m) (rc_file r) d = (os, e)" by force
  have cases: "\<not> rc_header_ok r \<and> r' = r \<and> d' = d \<and> \<not> ok \<or>
      rc_header_ok r \<and> rc_file r' = os \<and> d' = e \<and> ok = os_good os \<and>
      rc_header_ok r' = rc_header_ok r \<and> rc_count r' = rc_count r + (if ok then 1 else 0)"
    using assms w by (auto simp: recorder_write_def recorder_is_open_def recording_def Let_def split: if_splits)
  have same: "os_path os = os_path (rc_file r)" "os_open os = os_open (rc_file r)"
    using ofs_write_same [of "encode_record m" "rc_file r" d] by (simp_all add: w)
  have wr: "written room (file_image ms) (rc_file r) d" using assms(1) by (simp add: recording_def)
  note more = written_write [OF wr w [symmetric]]
  show "recording room (ms @ [m]) p r' d'"
    using cases assms(1) same more written_failed_more [OF wr, of "encode_record m"]
    unfolding recording_def file_image_snoc by auto
  show "ok \<longleftrightarrow> os_good (rc_file r')" "rc_count r' = rc_count r + (if ok then 1 else 0)"
    using cases assms(1) by (auto simp: recording_def)
qed

lemma recording_write_all:
  "recording room ms p r d \<Longrightarrow> recorder_write_all ms' r d = (oks, r', d') \<Longrightarrow>
   recording room (ms @ ms') p r' d' \<and> length oks = length ms' \<and>
   rc_count r' = rc_count r + of_nat (length (filter id oks))"
proof (induction ms' arbitrary: ms r d oks r' d')
  case (Cons m ms')
  obtain ok r1 d1 where w: "recorder_write m r d = (ok, r1, d1)" by (cases "recorder_write m r d")
  obtain oks1 where a: "recorder_write_all ms' r1 d1 = (oks1, r', d')" "oks = ok # oks1"
    using Cons.prems(2) w by (auto split: prod.splits)
  show ?case
    using Cons.IH [OF recording_write(1) [OF Cons.prems(1) w] a(1)]
      recording_write(3) [OF Cons.prems(1) w] a(2)
    by (simp add: add.assoc)
qed simp

lemma recording_close:
  assumes "recording room ms p r d" "recorder_close r d = (r', d')"
  shows "file_bytes p d' = take room (file_image ms)" "rc_count r' = rc_count r"
    "\<not> os_open (rc_file r')"
proof -
  obtain os1 d1 where f: "ofs_flush (rc_file r) d = (os1, d1)" by force
  obtain os2 d2 where c: "ofs_close os1 d1 = (os2, d2)" by force
  from assms f c have eq: "r' = r\<lparr>rc_file := os2\<rparr>" "d' = d2"
    by (simp_all add: recorder_close_def recording_def)
  have wr: "written room (file_image ms) (rc_file r) d" using assms(1) by (simp add: recording_def)
  have same: "os_path os1 = os_path (rc_file r)" "os_open os1 = os_open (rc_file r)"
    using ofs_flush_same [of "rc_file r" d] by (simp_all add: f)
  have op: "os_open os1" "os_path os1 = p" using same assms(1) by (simp_all add: recording_def)
  show "file_bytes p d' = take room (file_image ms)"
    using written_close(1) [OF written_flush [OF wr f [symmetric]] c [symmetric] op(1)] op(2) eq(2) by simp
  show "rc_count r' = rc_count r" using eq(1) by simp
  show "\<not> os_open (rc_file r')" using c eq(1) op by (auto simp: ofs_close_def disk_append_def)
qed

section \<open>What a recording leaves on disk\<close>

text \<open>With room for everything that was asked for, every result is true.\<close>

lemma recording_good:
  "recording room ms p r d \<Longrightarrow> length (file_image ms) \<le> room \<Longrightarrow> os_good (rc_file r)"
  by (auto simp: recording_def dest: written_good)

lemma recorder_write_all_ok:
  "recording room ms p r d \<Longrightarrow> recorder_write_all ms' r d = (oks, r', d') \<Longrightarrow>
   length (file_image (ms @ ms')) \<le> room \<Longrightarrow> oks = replicate (length ms') True"
proof (induction ms' arbitrary: ms r d oks r' d')
  case (Cons m ms')
  obtain ok r1 d1 where w: "recorder_write m r d = (ok, r1, d1)" by (cases "recorder_write m r d")
  obtain oks1 where a: "recorder_write_all ms' r1 d1 = (oks1, r', d')" "oks = ok # oks1"
    using Cons.prems(2) w by (auto split: prod.splits)
  note rw = recording_write [OF Cons.prems(1) w]
  have "length (file_image (ms @ [m])) \<le> room"
    using Cons.prems(3) by (simp add: length_file_image kRecordSize_def)
  with rw(1,2) have "ok" using recording_good by blast
  moreover have "oks1 = replicate (length ms') True"
    using Cons.IH [OF rw(1) a(1)] Cons.prems(3) by simp
  ultimately show ?case by (simp add: a(2))
qed simp

lemma recorder_image:
  assumes "d_creatable d p" "record_session bufsz p ms d = (oks, n, d')"
  shows "file_bytes p d' = take (d_room d) (file_image ms) \<and>
    length oks = length ms \<and> n = of_nat (length (filter id oks)) \<and>
    (length (file_image ms) \<le> d_room d \<longrightarrow> oks = replicate (length ms) True)"
proof -
  obtain r0 d0 where o: "recorder_open bufsz p d = (r0, d0)" by force
  obtain oks1 r1 d1 where a: "recorder_write_all ms r0 d0 = (oks1, r1, d1)"
    by (cases "recorder_write_all ms r0 d0")
  obtain r2 d2 where c: "recorder_close r1 d1 = (r2, d2)" by force
  from assms(2) o a c have eq: "oks = oks1" "n = rc_count r2" "d' = d2"
    by (auto simp: record_session_def)
  note op = recording_open(1) [OF assms(1) o]
  have all: "recording (d_room d) ms p r1 d1" "length oks1 = length ms"
    "rc_count r1 = of_nat (length (filter id oks1))"
    using recording_write_all [OF op a] recording_open(2) [OF assms(1) o] by simp_all
  show ?thesis
    using recording_close(1,2) [OF all(1) c] all(2,3) eq recorder_write_all_ok [OF op a] by simp
qed

text \<open>A recording session that asks for the messages \<open>ms\<close> leaves, when it is closed, exactly the
  first \<open>d_room\<close> bytes of the header followed by the encoded messages, whatever the buffer size and
  whichever write the device first failed on; there is a result for each message, \<open>count\<close> is the
  number of writes that returned true, and with enough room all of them did.\<close>

theorem recorder_writes_image_prefix:
  assumes "d_creatable d p" "record_session bufsz p ms d = (oks, n, d')"
  shows "file_bytes p d' = take (d_room d) (file_image ms) \<and>
    length oks = length ms \<and> n = of_nat (length (filter id oks)) \<and>
    (length (file_image ms) \<le> d_room d \<longrightarrow> oks = replicate (length ms) True)"
  using assms by (rule recorder_image)

definition sample_disk :: "nat \<Rightarrow> disk" where
  "sample_disk room = \<lparr>d_files = Map.empty, d_room = room, d_creatable = (\<lambda>_. True)\<rparr>"

theorem recorder_writes_image_prefix_witness:
  "file_bytes ''f'' (snd (snd (record_session 16 ''f'' [zero_message, zero_message] (sample_disk 100)))) =
     take 100 (file_image [zero_message, zero_message])"
  using recorder_writes_image_prefix [of "sample_disk 100" "''f''" 16 "[zero_message, zero_message]"]
  by (cases "record_session 16 ''f'' [zero_message, zero_message] (sample_disk 100)")
    (simp add: sample_disk_def)

end
