(* ===== verification/Replayer.thy ===== *)
theory Replayer
  imports Recorder
begin

text \<open>
  \<open>StreamReplayer\<close> of \<open>include/replay/replayer.hpp\<close>: the constructor classifies the file by its
  header, \<open>next\<close> pulls one record at a time. The main theorem composes it with the recorder: what
  is replayed from a recording is exactly the messages whose 64 bytes reached the device, and a
  partial record at the end is reported and never delivered.
\<close>

datatype replay_status = kOk | kFileNotFound | kBadMagic | kUnsupportedVersion

record replayer =
  rp_file :: ifstream
  rp_status :: replay_status
  rp_messages_replayed :: u64
  rp_truncated :: bool

definition replayer_open :: "string \<Rightarrow> disk \<Rightarrow> replayer" where
  "replayer_open path d =
     (let file = ifs_open path d;
          r = \<lparr>rp_file = file, rp_status = kFileNotFound, rp_messages_replayed = 0, rp_truncated = False\<rparr>
      in if \<not> is_opened file then r\<lparr>rp_status := kFileNotFound\<rparr>
         else (let (header, file) = ifs_read kHeaderSize file;
                   r = r\<lparr>rp_file := file\<rparr>
               in if is_gcount file \<noteq> kHeaderSize then r\<lparr>rp_status := kBadMagic\<rparr>
                  else if take (length kMagic) header \<noteq> kMagic then r\<lparr>rp_status := kBadMagic\<rparr>
                  else if get_u32 4 header \<noteq> kFormatVersion then r\<lparr>rp_status := kUnsupportedVersion\<rparr>
                  else r\<lparr>rp_status := kOk\<rparr>))"

definition replayer_next :: "replayer \<Rightarrow> message \<Rightarrow> bool \<times> replayer \<times> message" where
  "replayer_next r out =
     (if rp_status r \<noteq> kOk then (False, r, out)
      else (let (buf, file) = ifs_read kRecordSize (rp_file r);
                got = is_gcount file;
                r = r\<lparr>rp_file := file\<rparr>
            in if got = kRecordSize
               then (True, r\<lparr>rp_messages_replayed := rp_messages_replayed r + 1\<rparr>, decode_record buf out)
               else if got > 0 then (False, r\<lparr>rp_truncated := True\<rparr>, out)
               else (False, r, out)))"

lemma replayer_next_shrinks:
  "replayer_next r m = (True, r', m') \<Longrightarrow>
     length (is_rest (rp_file r')) < length (is_rest (rp_file r))"
  by (auto simp: replayer_next_def ifs_read_def Let_def kRecordSize_def split: if_splits)

text \<open>\<open>while (replayer.next(m)) msgs.push_back(m);\<close>\<close>

function replay_loop :: "replayer \<Rightarrow> message \<Rightarrow> message list \<Rightarrow> message list \<times> replayer" where
  "replay_loop r m acc =
     (case replayer_next r m of
        (True, r', m') \<Rightarrow> replay_loop r' m' (acc @ [m'])
      | (False, r', m') \<Rightarrow> (acc, r'))"
  by pat_completeness auto
termination
  by (relation "measure (\<lambda>(r, m, acc). length (is_rest (rp_file r)))")
    (auto simp: replayer_next_shrinks [OF sym])

declare replay_loop.simps [simp del]

definition replay_all :: "string \<Rightarrow> disk \<Rightarrow> message list \<times> replayer" where
  "replay_all path d = replay_loop (replayer_open path d) zero_message []"

section \<open>Opening\<close>

lemma length_kMagic: "length kMagic = 4"
  by (simp add: kMagic_def)

text \<open>The status of a freshly opened replayer is decided by the file alone: a missing file, a
  file shorter than the header or with other magic bytes, an unknown version and a good header are
  told apart, in that order.\<close>

theorem replayer_status_classifies:
  "rp_status (replayer_open p d) =
     (case d_files d p of
        None \<Rightarrow> kFileNotFound
      | Some bs \<Rightarrow> if length bs < kHeaderSize then kBadMagic
                   else if take 4 bs = kMagic
                   then if get_u32 4 bs = 1 then kOk else kUnsupportedVersion
                   else kBadMagic)"
  by (auto simp: replayer_open_def ifs_open_def ifs_read_def Let_def kHeaderSize_def length_kMagic
      kFormatVersion_def get_u32_def min_def split: option.splits)

lemma replayer_open_good:
  "d_files d p = Some (header_bytes @ bs) \<Longrightarrow>
   replayer_open p d = \<lparr>rp_file = \<lparr>is_opened = True, is_good = True, is_rest = bs, is_gcount = 8\<rparr>,
     rp_status = kOk, rp_messages_replayed = 0, rp_truncated = False\<rparr>"
  by (simp add: replayer_open_def ifs_open_def ifs_read_def Let_def kHeaderSize_def kMagic_def
      kFormatVersion_def header_bytes_eq get_u32_def)


section \<open>Replaying a prefix of a recording\<close>

text \<open>What a message looks like after a trip through the file: its padding is the reader's.\<close>

definition clean_message :: "message \<Rightarrow> message" where
  "clean_message m = m\<lparr>m_pad0 := 0, m_pad1 := replicate 32 0\<rparr>"

lemma decode_encode_clean:
  "m_pad0 out = 0 \<Longrightarrow> m_pad1 out = replicate 32 0 \<Longrightarrow>
   decode_record (encode_record m) out = clean_message m"
  by (simp add: decode_encode clean_message_def)

lemma clean_message_pads [simp]:
  "m_pad0 (clean_message m) = 0" "m_pad1 (clean_message m) = replicate 32 0"
  by (simp_all add: clean_message_def)

lemma clean_message_content [simp]: "message_content (clean_message m) = message_content m"
  by (simp add: clean_message_def message_content_def)

definition zero_padded :: "message \<Rightarrow> bool" where
  "zero_padded out \<longleftrightarrow> m_pad0 out = 0 \<and> m_pad1 out = replicate 32 0"

lemma replayer_next_record:
  assumes "rp_status r = kOk" "is_good (rp_file r)" "is_rest (rp_file r) = encode_record m @ bs"
    "zero_padded out"
  shows "replayer_next r out =
    (True, r\<lparr>rp_file := (rp_file r)\<lparr>is_rest := bs, is_gcount := 64, is_good := True\<rparr>,
        rp_messages_replayed := rp_messages_replayed r + 1\<rparr>, clean_message m)"
  using assms
  by (simp add: replayer_next_def ifs_read_def Let_def decode_encode_clean zero_padded_def kRecordSize_def)

lemma replayer_next_tail:
  assumes "rp_status r = kOk" "is_good (rp_file r)" "length (is_rest (rp_file r)) < 64"
  shows "\<exists>r'. replayer_next r out = (False, r', out) \<and> rp_status r' = kOk \<and>
    \<not> is_good (rp_file r') \<and> rp_messages_replayed r' = rp_messages_replayed r \<and>
    (rp_truncated r' \<longleftrightarrow> rp_truncated r \<or> is_rest (rp_file r) \<noteq> [])"
  using assms
  by (auto simp: replayer_next_def ifs_read_def Let_def kRecordSize_def)

lemma replay_loop_records:
  assumes "rp_status r = kOk" "is_good (rp_file r)" "zero_padded out"
    "is_rest (rp_file r) = concat (map encode_record ms) @ tail" "length tail < 64"
    "replay_loop r out acc = (res, r')"
  shows "res = acc @ map clean_message ms \<and> rp_status r' = kOk \<and>
    rp_messages_replayed r' = rp_messages_replayed r + of_nat (length ms) \<and>
    (rp_truncated r' \<longleftrightarrow> rp_truncated r \<or> tail \<noteq> []) \<and> \<not> is_good (rp_file r')"
  using assms
proof (induction ms arbitrary: r out acc)
  case Nil
  then show ?case
    using replayer_next_tail [of r out] by (auto simp: replay_loop.simps [of r out acc])
next
  case (Cons m ms)
  define r1 where "r1 = r\<lparr>rp_file := (rp_file r)\<lparr>is_rest := concat (map encode_record ms) @ tail,
      is_gcount := 64, is_good := True\<rparr>, rp_messages_replayed := rp_messages_replayed r + 1\<rparr>"
  have nx: "replayer_next r out = (True, r1, clean_message m)"
    unfolding r1_def using Cons.prems by (intro replayer_next_record) auto
  then have "replay_loop r1 (clean_message m) (acc @ [clean_message m]) = (res, r')"
    using Cons.prems(6) by (simp add: replay_loop.simps [of r out acc])
  then show ?case
    using Cons.prems(1,5) Cons.IH [of r1 "clean_message m" "acc @ [clean_message m]"]
    by (simp add: r1_def zero_padded_def add.assoc)
qed

lemma take_concat_records:
  "take n (concat (map encode_record ms)) =
     concat (map encode_record (take (n div 64) ms)) @
     take (n mod 64) (concat (map encode_record (drop (n div 64) ms)))"
proof (induction ms arbitrary: n)
  case (Cons m ms)
  show ?case
  proof (cases "n < 64")
    case False
    then obtain k where n: "n = 64 + k" by (metis le_Suc_ex not_less)
    have "(64 + k) div 64 = Suc (k div 64)" by simp
    then show ?thesis using Cons.IH [of k] by (simp add: n kRecordSize_def)
  qed simp
qed simp

lemma length_concat_encode: "length (concat (map encode_record ms)) = 64 * length ms"
  by (induction ms) (simp_all add: kRecordSize_def)

text \<open>The number of whole records among the first \<open>n\<close> bytes of a recording.\<close>

definition whole_records :: "nat \<Rightarrow> nat" where
  "whole_records n = (n - 8) div 64"

lemma replay_prefix:
  assumes "8 \<le> n" "d_files d p = Some (take n (file_image ms))" "replay_all p d = (res, r)"
  shows "res = map clean_message (take (whole_records n) ms) \<and> rp_status r = kOk \<and>
    rp_messages_replayed r = of_nat (length res) \<and>
    (rp_truncated r \<longleftrightarrow> (n - 8) mod 64 \<noteq> 0 \<and> n < length (file_image ms)) \<and> \<not> is_good (rp_file r)"
proof -
  define k where "k = n - 8"
  define tl where "tl = take (k mod 64) (concat (map encode_record (drop (k div 64) ms)))"
  have n: "n = 8 + k" using assms(1) by (simp add: k_def)
  have "take n (file_image ms) = header_bytes @ take k (concat (map encode_record ms))"
    unfolding file_image_def n by (simp add: kHeaderSize_def)
  then have cont: "d_files d p = Some (header_bytes @ concat (map encode_record (take (k div 64) ms)) @ tl)"
    using assms(2) take_concat_records [of k ms] by (simp add: tl_def)
  note op = replayer_open_good [OF cont]
  have "length tl \<le> k mod 64" by (simp add: tl_def)
  also have "k mod 64 < 64" by simp
  finally have len: "length tl < 64" .
  have "tl \<noteq> [] \<longleftrightarrow> k mod 64 \<noteq> 0 \<and> k div 64 < length ms"
    unfolding tl_def length_greater_0_conv [symmetric] by (auto simp: length_concat_encode)
  moreover have "k mod 64 \<noteq> 0 \<Longrightarrow> k div 64 < length ms \<longleftrightarrow> n < length (file_image ms)"
    by (simp add: length_file_image kHeaderSize_def kRecordSize_def n div_less_iff_less_mult mult.commute)
  ultimately have tl: "tl \<noteq> [] \<longleftrightarrow> k mod 64 \<noteq> 0 \<and> n < length (file_image ms)" by blast
  have z: "zero_padded zero_message" by (simp add: zero_padded_def zero_message_def)
  show ?thesis
    using replay_loop_records [of "replayer_open p d" zero_message "take (k div 64) ms" tl "[]" res r] assms(3) z len tl
    by (simp add: op replay_all_def whole_records_def k_def)
qed


lemma file_bytes_Some: "file_bytes p d \<noteq> [] \<Longrightarrow> d_files d p = Some (file_bytes p d)"
  by (simp add: file_bytes_def split: option.splits)

text \<open>C1: Whatever the buffering and wherever the device filled up after the eight bytes of the file header, replaying a
  recording of \<open>ms\<close> delivers exactly the messages whose 64 bytes are on disk, in order and with only their padding
  cleared; the counter agrees, and the truncation flag is raised exactly when the file ends inside
  a record. With room for the whole recording that is all of \<open>ms\<close>.\<close>

theorem record_replay_prefix:
  assumes "d_creatable d p" "record_session bufsz p ms d = (oks, n, d')" "8 \<le> d_room d"
    "replay_all p d' = (res, r)"
  shows "res = map clean_message (take (whole_records (d_room d)) ms) \<and> rp_status r = kOk \<and>
    rp_messages_replayed r = of_nat (length res) \<and>
    (rp_truncated r \<longleftrightarrow> (d_room d - 8) mod 64 \<noteq> 0 \<and> d_room d < length (file_image ms))"
proof -
  have b: "file_bytes p d' = take (d_room d) (file_image ms)"
    using recorder_image [OF assms(1,2)] by blast
  have "length (file_image ms) \<ge> 8" by (simp add: length_file_image kHeaderSize_def)
  with assms(3) have "file_bytes p d' \<noteq> []" unfolding b by auto
  then have "d_files d' p = Some (take (d_room d) (file_image ms))"
    using file_bytes_Some b by metis
  then show ?thesis using replay_prefix [OF assms(3) _ assms(4)] by blast
qed

theorem record_replay_prefix_witness:
  "case record_session 16 ''f'' [zero_message, zero_message\<lparr>m_seq := 7\<rparr>] (sample_disk 100) of
     (oks, n, d') \<Rightarrow> fst (replay_all ''f'' d') = [zero_message] \<and> rp_truncated (snd (replay_all ''f'' d'))"
proof -
  obtain oks n d' where s:
    "record_session 16 ''f'' [zero_message, zero_message\<lparr>m_seq := 7\<rparr>] (sample_disk 100) = (oks, n, d')"
    by (cases "record_session 16 ''f'' [zero_message, zero_message\<lparr>m_seq := 7\<rparr>] (sample_disk 100)")
  obtain res r where l: "replay_all ''f'' d' = (res, r)" by force
  have room: "d_creatable (sample_disk 100) ''f''" "8 \<le> d_room (sample_disk 100)"
    "d_room (sample_disk 100) = 100" by (simp_all add: sample_disk_def)
  have clean: "clean_message zero_message = zero_message"
    by (simp add: clean_message_def zero_message_def)
  have "res = [clean_message zero_message] \<and> rp_truncated r"
    using record_replay_prefix [OF room(1) s room(2) l]
    by (simp add: room(3) whole_records_def length_file_image kHeaderSize_def kRecordSize_def)
  then show ?thesis by (simp add: s l clean)
qed

lemma roundtrip_clean:
  assumes "d_creatable d p" "record_session bufsz p ms d = (oks, n, d')"
    "8 + 64 * length ms \<le> d_room d" "replay_all p d' = (res, r)"
  shows "res = map clean_message ms \<and> \<not> rp_truncated r \<and>
    oks = replicate (length ms) True \<and> n = of_nat (length ms)"
proof -
  have b: "file_bytes p d' = take (d_room d) (file_image ms)" and
    oks: "length (file_image ms) \<le> d_room d \<Longrightarrow> oks = replicate (length ms) True" and
    n: "n = of_nat (length (filter id oks))"
    using recorder_image [OF assms(1,2)] by blast+
  have len: "length (file_image ms) = 8 + 64 * length ms"
    by (simp add: length_file_image kHeaderSize_def kRecordSize_def)
  have ne: "file_bytes p d' \<noteq> []" unfolding b using assms(3) len by auto
  have "d_files d' p = Some (take (length (file_image ms)) (file_image ms))"
    using file_bytes_Some [OF ne] b assms(3) len by simp
  moreover have "whole_records (length (file_image ms)) = length ms"
    by (simp add: whole_records_def len)
  ultimately show ?thesis
    using replay_prefix [OF _ _ assms(4), of "length (file_image ms)" ms] oks n assms(3) len
    by simp
qed

lemma roundtrip_content:
  assumes "d_creatable d p" "record_session bufsz p ms d = (oks, n, d')"
    "8 + 64 * length ms \<le> d_room d" "replay_all p d' = (res, r)"
  shows "map message_content res = map message_content ms \<and> \<not> rp_truncated r \<and>
    oks = replicate (length ms) True \<and> n = of_nat (length ms)"
  using roundtrip_clean [OF assms] by simp

text \<open>With enough room every write succeeds and the replay is the whole stream: record, then
  replay, gives back every message with the same content, in order, and nothing is truncated.\<close>

theorem record_replay_roundtrip:
  assumes "d_creatable d p" "record_session bufsz p ms d = (oks, n, d')"
    "8 + 64 * length ms \<le> d_room d" "replay_all p d' = (res, r)"
  shows "map message_content res = map message_content ms \<and> \<not> rp_truncated r \<and>
    oks = replicate (length ms) True \<and> n = of_nat (length ms)"
  using assms by (rule roundtrip_content)

theorem record_replay_roundtrip_witness:
  "case record_session 16 ''f'' [zero_message, zero_message\<lparr>m_seq := 7\<rparr>] (sample_disk 200) of
     (oks, n, d') \<Rightarrow> map m_seq (fst (replay_all ''f'' d')) = [0, 7] \<and> oks = [True, True]"
proof -
  obtain oks n d' where s:
    "record_session 16 ''f'' [zero_message, zero_message\<lparr>m_seq := 7\<rparr>] (sample_disk 200) = (oks, n, d')"
    by (cases "record_session 16 ''f'' [zero_message, zero_message\<lparr>m_seq := 7\<rparr>] (sample_disk 200)")
  obtain res r where l: "replay_all ''f'' d' = (res, r)" by force
  have "map message_content res = map message_content [zero_message, zero_message\<lparr>m_seq := 7\<rparr>]
      \<and> oks = [True, True]"
    using record_replay_roundtrip [OF _ s _ l] by (simp add: sample_disk_def numeral_eq_Suc)
  then have "map m_seq res = [0, 7] \<and> oks = [True, True]"
    by (auto simp: message_content_def zero_message_def map_eq_Cons_conv)
  then show ?thesis by (simp add: s l)
qed

end
