(* ===== verification/Checksum.thy ===== *)
theory Checksum
  imports Replayer
begin

text \<open>
  \<open>StreamChecksum\<close> of \<open>include/replay/checksum.hpp\<close>: 64-bit FNV-1a over the 28 content bytes of every
  message. The multiplier is odd, so a step is injective both in the running hash and in the byte:
  that gives the detection theorems. The checksum is also related to the recorder and the
  replayer, whose determinism it is there to measure.
\<close>

definition kFnvOffsetBasis :: u64 where
  "kFnvOffsetBasis = 0xcbf29ce484222325"

definition kFnvPrime :: u64 where
  "kFnvPrime = 0x100000001b3"

definition message_bytes :: "message \<Rightarrow> u8 list" where
  "message_bytes msg =
     (let b = replicate 28 0;
          b = put_u32 0 (m_stream_id msg) b;
          b = put_u64 4 (m_ts_ns msg) b;
          b = put_u64 12 (m_value msg) b
      in put_u64 20 (m_seq msg) b)"

definition fnv_step :: "u8 \<Rightarrow> u64 \<Rightarrow> u64" where
  "fnv_step b h = (h XOR ucast b) * kFnvPrime"

definition checksum_update :: "message \<Rightarrow> u64 \<Rightarrow> u64" where
  "checksum_update msg h = fold fnv_step (message_bytes msg) h"

definition checksum_init :: u64 where
  "checksum_init = kFnvOffsetBasis"

definition checksum_digest :: "u64 \<Rightarrow> u64" where
  "checksum_digest h = h"

text \<open>The digest of a whole stream.\<close>

definition stream_digest :: "message list \<Rightarrow> u64" where
  "stream_digest ms = checksum_digest (fold checksum_update ms checksum_init)"

section \<open>A step is injective\<close>

text \<open>The inverse of the prime modulo \<open>2 ^ 64\<close>.\<close>

lemma fnv_prime_inverse: "kFnvPrime * 0xce965057aff6957b = 1"
  by (simp add: kFnvPrime_def)

lemma fnv_mult_inj: "x * kFnvPrime = y * kFnvPrime \<longleftrightarrow> x = y"
proof
  assume "x * kFnvPrime = y * kFnvPrime"
  then have "x * (kFnvPrime * 0xce965057aff6957b) = y * (kFnvPrime * 0xce965057aff6957b)"
    by (simp only: mult.assoc [symmetric])
  then show "x = y" by (simp only: fnv_prime_inverse mult_1_right)
qed simp

lemma xor_right_cancel: "(a XOR c = b XOR c) \<longleftrightarrow> a = (b :: 'a::len word)"
  by (metis xor.assoc xor.right_neutral xor_self_eq)

lemma fnv_step_inj_hash: "fnv_step b h = fnv_step b h' \<longleftrightarrow> h = h'"
  by (simp add: fnv_step_def fnv_mult_inj xor_right_cancel)

lemma ucast_down: "(ucast (ucast (b :: u8) :: u64) :: u8) = b"
  by (rule bit_word_eqI) (auto simp: bit_simps)

lemma fnv_step_inj_byte: "fnv_step b h = fnv_step b' h \<longleftrightarrow> b = b'"
proof -
  have "(ucast b :: u64) = ucast b' \<longleftrightarrow> b = b'"
    using arg_cong [where f = "ucast :: u64 \<Rightarrow> u8"] ucast_down by metis
  then show ?thesis
    by (simp add: fnv_step_def fnv_mult_inj xor.commute [of h] xor_right_cancel)
qed

lemma fnv_fold_inj: "fold fnv_step bs h = fold fnv_step bs h' \<longleftrightarrow> h = h'"
  by (induction bs arbitrary: h h') (simp_all add: fnv_step_inj_hash)

lemma checksum_update_inj: "fold checksum_update ms h = fold checksum_update ms h' \<longleftrightarrow> h = h'"
  by (induction ms arbitrary: h h') (simp_all add: checksum_update_def fnv_fold_inj)

section \<open>The bytes that are hashed\<close>

lemma length_message_bytes [simp]: "length (message_bytes m) = 28"
  by (simp add: message_bytes_def Let_def)

lemma message_bytes_cong:
  "message_content a = message_content b \<Longrightarrow> message_bytes a = message_bytes b"
  by (simp add: message_content_eq_iff message_bytes_def)

lemma checksum_update_cong:
  "message_content a = message_content b \<Longrightarrow> checksum_update a h = checksum_update b h"
  by (drule message_bytes_cong) (simp add: checksum_update_def)

lemma stream_digest_cong:
  "map message_content as = map message_content bs \<Longrightarrow> stream_digest as = stream_digest bs"
proof -
  have "map message_content as = map message_content bs \<Longrightarrow>
      fold checksum_update as h = fold checksum_update bs h" for h
  proof (induction as arbitrary: bs h)
    case (Cons a as)
    then obtain b bs' where "bs = b # bs'" "message_content a = message_content b"
      "map message_content as = map message_content bs'" by auto
    then show ?case using Cons.IH [of bs'] checksum_update_cong [of a b] by simp
  qed simp
  moreover assume "map message_content as = map message_content bs"
  ultimately show ?thesis by (simp only: stream_digest_def)
qed

text \<open>The hashed bytes of a decoded record are the content bytes of the record.\<close>

lemma message_bytes_nth:
  "i < 28 \<Longrightarrow> message_bytes m ! i =
    (if i < 4 then ucast (drop_bit (8 * i) (m_stream_id m))
     else if i < 12 then ucast (drop_bit (8 * (i - 4)) (m_ts_ns m))
     else if i < 20 then ucast (drop_bit (8 * (i - 12)) (m_value m))
     else ucast (drop_bit (8 * (i - 20)) (m_seq m)))"
  by (auto simp: message_bytes_def Let_def nth_put_u32 nth_put_u64)

lemma message_bytes_decode:
  assumes "length buf = 64"
  shows "message_bytes (decode_record buf m) = take 4 buf @ take 24 (drop 8 buf)"
proof (rule nth_equalityI)
  show "length (message_bytes (decode_record buf m)) = length (take 4 buf @ take 24 (drop 8 buf))"
    using assms by simp
next
  fix i assume "i < length (message_bytes (decode_record buf m))"
  then have i: "i < 28" by simp
  consider "i < 4" | "4 \<le> i" "i < 12" | "12 \<le> i" "i < 20" | "20 \<le> i" "i < 28"
    using i by linarith
  then show "message_bytes (decode_record buf m) ! i = (take 4 buf @ take 24 (drop 8 buf)) ! i"
    using assms
    by cases (simp_all add: message_bytes_nth decode_record_def get_u32_nth get_u64_nth nth_append)
qed

text \<open>C33: Of the 64 bytes of a stored record the checksum reads exactly the content: changing one byte
  of one record anywhere in a stream changes the digest of the replayed stream if the byte is in
  the stream id or in the timestamp, value or sequence number, and leaves it alone if the byte
  is padding. In particular no later message can hide the corruption.\<close>

theorem checksum_detects_corrupt_byte:
  assumes "length buf = kRecordSize" "j < kRecordSize" "x \<noteq> buf ! j"
  shows "stream_digest (pre @ decode_record (buf[j := x]) out # post) \<noteq>
      stream_digest (pre @ decode_record buf out # post)
    \<longleftrightarrow> j < 4 \<or> 8 \<le> j \<and> j < 32"
proof -
  define h where "h = fold checksum_update pre checksum_init"
  have len: "length buf = 64" using assms(1) by (simp add: kRecordSize_def)
  have dig: "stream_digest (pre @ m # post) = fold checksum_update post (checksum_update m h)" for m
    by (simp add: stream_digest_def checksum_digest_def h_def)
  have "stream_digest (pre @ decode_record (buf[j := x]) out # post) \<noteq>
      stream_digest (pre @ decode_record buf out # post) \<longleftrightarrow>
    checksum_update (decode_record (buf[j := x]) out) h \<noteq> checksum_update (decode_record buf out) h"
    by (simp add: dig checksum_update_inj)
  also have "\<dots> \<longleftrightarrow> fold fnv_step (take 4 (buf[j := x]) @ take 24 (drop 8 (buf[j := x]))) h \<noteq>
      fold fnv_step (take 4 buf @ take 24 (drop 8 buf)) h"
    using len by (simp add: checksum_update_def message_bytes_decode)
  also have "\<dots> \<longleftrightarrow> j < 4 \<or> 8 \<le> j \<and> j < 32"
  proof (cases "j < 4 \<or> 8 \<le> j \<and> j < 32")
    case True
    define as where "as = take 4 buf @ take 24 (drop 8 buf)"
    define k where "k = (if j < 4 then j else j - 4)"
    have k: "k < length as" "as ! k = buf ! j"
      using True len by (auto simp: as_def k_def nth_append)
    have upd: "take 4 (buf[j := x]) @ take 24 (drop 8 (buf[j := x])) = as[k := x]"
      using True len by (auto simp: as_def k_def take_update_swap drop_update_swap list_update_append list_update_beyond)
    have "as = take k as @ as ! k # drop (Suc k) as"
      "as[k := x] = take k as @ x # drop (Suc k) as"
      using k(1) by (simp_all add: id_take_nth_drop upd_conv_take_nth_drop)
    then have "fold fnv_step (as[k := x]) h = fold fnv_step (drop (Suc k) as) (fnv_step x (fold fnv_step (take k as) h))"
      "fold fnv_step as h = fold fnv_step (drop (Suc k) as) (fnv_step (as ! k) (fold fnv_step (take k as) h))"
      by (metis fold_append fold.simps(2) comp_apply)+
    then show ?thesis
      using True assms(3) k(2) by (simp add: upd as_def [symmetric] fnv_fold_inj fnv_step_inj_byte)
  next
    case False
    then show ?thesis
      using assms(2) by (auto simp: take_update_swap drop_update_swap kRecordSize_def list_update_beyond)
  qed
  finally show ?thesis .
qed


theorem checksum_detects_corrupt_byte_witness:
  "stream_digest ([] @ decode_record ((encode_record zero_message)[9 := 1]) zero_message # [zero_message]) \<noteq>
   stream_digest ([] @ decode_record (encode_record zero_message) zero_message # [zero_message])"
proof -
  have b: "encode_record zero_message ! 9 = 0"
    by (simp add: encode_record_def Let_def nth_put_u32 nth_put_u64 kRecordSize_def zero_message_def)
  show ?thesis
    by (subst checksum_detects_corrupt_byte) (simp_all add: kRecordSize_def b)
qed

text \<open>Replaying a recording that fitted on the device has the digest of the live stream, so a
  second digest over the same recording is the same too: record, replay and checksum are
  deterministic, and what the padding of the live messages held does not matter.\<close>

theorem replay_checksum_is_live_checksum:
  assumes "d_creatable d p" "record_session bufsz p ms d = (oks, n, d')"
    "8 + 64 * length ms \<le> d_room d"
  shows "stream_digest (fst (replay_all p d')) = stream_digest ms"
proof (rule stream_digest_cong)
  obtain res r where l: "replay_all p d' = (res, r)" by force
  show "map message_content (fst (replay_all p d')) = map message_content ms"
    using roundtrip_content [OF assms l] l by simp
qed

theorem replay_checksum_is_live_checksum_witness:
  "case record_session 16 ''f'' [zero_message\<lparr>m_pad0 := 5\<rparr>] (sample_disk 72) of
     (oks, n, d') \<Rightarrow> stream_digest (fst (replay_all ''f'' d')) = stream_digest [zero_message\<lparr>m_pad0 := 5\<rparr>]"
proof -
  obtain oks n d' where s:
    "record_session 16 ''f'' [zero_message\<lparr>m_pad0 := 5\<rparr>] (sample_disk 72) = (oks, n, d')"
    by (cases "record_session 16 ''f'' [zero_message\<lparr>m_pad0 := 5\<rparr>] (sample_disk 72)")
  have "stream_digest (fst (replay_all ''f'' d')) = stream_digest [zero_message\<lparr>m_pad0 := 5\<rparr>]"
    using replay_checksum_is_live_checksum [OF _ s] by (simp add: sample_disk_def)
  then show ?thesis by (simp add: s)
qed

end
