(* ===== verification/Message_Layout.thy ===== *)
theory Message_Layout
  imports Checksum
begin

text \<open>
  The memory layout of \<open>Message\<close>, \<open>include/core/message.hpp\<close>: the members with the sizes and alignments of an LP64
  target, placed as the C++ ABI places the members of a standard-layout struct, and the bytes of an
  object on a little-endian machine. The four compile-time checks of the header (one cache line, aligned to
  it, trivially copyable, standard layout) become: the offsets, the size, and that copying the bytes
  copies the message. The record format and the checksum are then views of these bytes.
\<close>

text \<open>Name, size and alignment of each member.\<close>

definition message_members :: "(string \<times> nat \<times> nat) list" where
  "message_members = [(''stream_id'', 4, 4), (''_pad0'', 4, 4), (''ts_ns'', 8, 8), (''value'', 8, 8),
     (''seq'', 8, 8), (''_pad1'', 32, 1)]"

definition message_alignas :: nat where
  "message_alignas = 64"

definition align_up :: "nat \<Rightarrow> nat \<Rightarrow> nat" where
  "align_up a n = (n + a - 1) div a * a"

text \<open>The offsets of the members from a position on, and the end of the last.\<close>

fun place_members :: "nat \<Rightarrow> (string \<times> nat \<times> nat) list \<Rightarrow> (string \<times> nat) list \<times> nat" where
  "place_members pos [] = ([], pos)"
| "place_members pos ((name, bytes, align) # ms) =
     (let start = align_up align pos; (offsets, final) = place_members (start + bytes) ms
      in ((name, start) # offsets, final))"

definition message_alignof :: nat where
  "message_alignof = Max (set (message_alignas # map (\<lambda>(_, _, align). align) message_members))"

definition message_sizeof :: nat where
  "message_sizeof = align_up message_alignof (snd (place_members 0 message_members))"

definition le_bytes :: "nat \<Rightarrow> 'a::len word \<Rightarrow> u8 list" where
  "le_bytes n v = map (\<lambda>i. ucast (drop_bit (8 * i) v)) [0..<n]"

definition object_bytes :: "message \<Rightarrow> u8 list" where
  "object_bytes m = le_bytes 4 (m_stream_id m) @ le_bytes 4 (m_pad0 m) @ le_bytes 8 (m_ts_ns m) @
     le_bytes 8 (m_value m) @ le_bytes 8 (m_seq m) @ m_pad1 m"

text \<open>The object a copied block of bytes is.\<close>

definition object_of_bytes :: "u8 list \<Rightarrow> message" where
  "object_of_bytes bs = \<lparr>m_stream_id = get_u32 0 bs, m_pad0 = get_u32 4 bs, m_ts_ns = get_u64 8 bs,
     m_value = get_u64 16 bs, m_seq = get_u64 24 bs, m_pad1 = take 32 (drop 32 bs)\<rparr>"

definition message_ok :: "message \<Rightarrow> bool" where
  "message_ok m \<longleftrightarrow> length (m_pad1 m) = 32"

lemma length_le_bytes [simp]: "length (le_bytes n v) = n"
  by (simp add: le_bytes_def)

lemma length_object_bytes: "length (object_bytes m) = 32 + length (m_pad1 m)"
  by (simp add: object_bytes_def)

text \<open>Writing a word over the middle of a buffer, and reading it there.\<close>

lemma put_u32_over: "length b = 4 \<Longrightarrow> put_u32 (length a) v (a @ b @ c) = a @ le_bytes 4 v @ c"
  by (rule nth_equalityI) (auto simp: nth_put_u32 nth_append le_bytes_def)

lemma put_u64_over: "length b = 8 \<Longrightarrow> put_u64 (length a) v (a @ b @ c) = a @ le_bytes 8 v @ c"
  by (rule nth_equalityI) (auto simp: nth_put_u64 nth_append le_bytes_def)

lemma get_u32_over: "get_u32 (length a) (a @ le_bytes 4 v @ c) = v"
  using get_put_u32 [of "length a" "a @ le_bytes 4 v @ c" v] put_u32_over [of "le_bytes 4 v" a v c] by simp

lemma get_u64_over: "get_u64 (length a) (a @ le_bytes 8 v @ c) = v"
  using get_put_u64 [of "length a" "a @ le_bytes 8 v @ c" v] put_u64_over [of "le_bytes 8 v" a v c] by simp

lemma object_roundtrip:
  assumes "message_ok m"
  shows "object_of_bytes (object_bytes m) = m"
proof -
  let ?i = "le_bytes 4 (m_stream_id m)" and ?p = "le_bytes 4 (m_pad0 m)" and ?t = "le_bytes 8 (m_ts_ns m)"
    and ?v = "le_bytes 8 (m_value m)" and ?s = "le_bytes 8 (m_seq m)"
  have "get_u32 0 (object_bytes m) = m_stream_id m" "get_u32 4 (object_bytes m) = m_pad0 m"
    "get_u64 8 (object_bytes m) = m_ts_ns m" "get_u64 16 (object_bytes m) = m_value m"
    "get_u64 24 (object_bytes m) = m_seq m"
    unfolding object_bytes_def
    using get_u32_over [of "[]" "m_stream_id m"] get_u32_over [of ?i "m_pad0 m"] get_u64_over [of "?i @ ?p" "m_ts_ns m"]
      get_u64_over [of "?i @ ?p @ ?t" "m_value m"] get_u64_over [of "?i @ ?p @ ?t @ ?v" "m_seq m"]
    by simp_all
  moreover have "take 32 (drop 32 (object_bytes m)) = m_pad1 m"
    using assms by (simp add: object_bytes_def message_ok_def)
  ultimately show ?thesis by (simp add: object_of_bytes_def)
qed

lemma le_bytes_0: "le_bytes n (0 :: 'a::len word) = replicate n 0"
  by (simp add: le_bytes_def map_replicate_const)

lemma encode_is_object: "encode_record m = object_bytes (clean_message m)"
proof -
  let ?z = "\<lambda>n. replicate n (0 :: u8)"
  have "?z kRecordSize = ?z 4 @ ?z 4 @ ?z 8 @ ?z 8 @ ?z 8 @ ?z 32"
    by (simp add: kRecordSize_def flip: replicate_add)
  then show ?thesis
    using put_u32_over [of "?z 4" "[]" "m_stream_id m" "?z 4 @ ?z 8 @ ?z 8 @ ?z 8 @ ?z 32"]
      put_u64_over [of "?z 8" "le_bytes 4 (m_stream_id m) @ ?z 4" "m_ts_ns m" "?z 8 @ ?z 8 @ ?z 32"]
      put_u64_over [of "?z 8" "le_bytes 4 (m_stream_id m) @ ?z 4 @ le_bytes 8 (m_ts_ns m)" "m_value m" "?z 8 @ ?z 32"]
      put_u64_over [of "?z 8" "le_bytes 4 (m_stream_id m) @ ?z 4 @ le_bytes 8 (m_ts_ns m) @ le_bytes 8 (m_value m)"
        "m_seq m" "?z 32"]
    by (simp add: encode_record_def Let_def object_bytes_def clean_message_def le_bytes_0)
qed

lemma checksum_bytes_of_object:
  "message_bytes m = take 4 (object_bytes m) @ take 24 (drop 8 (object_bytes m))"
proof -
  let ?z = "\<lambda>n. replicate n (0 :: u8)"
  have "?z 28 = ?z 4 @ ?z 8 @ ?z 8 @ ?z 8" by (simp flip: replicate_add)
  then show ?thesis
    using put_u32_over [of "?z 4" "[]" "m_stream_id m" "?z 8 @ ?z 8 @ ?z 8"]
      put_u64_over [of "?z 8" "le_bytes 4 (m_stream_id m)" "m_ts_ns m" "?z 8 @ ?z 8"]
      put_u64_over [of "?z 8" "le_bytes 4 (m_stream_id m) @ le_bytes 8 (m_ts_ns m)" "m_value m" "?z 8"]
      put_u64_over [of "?z 8" "le_bytes 4 (m_stream_id m) @ le_bytes 8 (m_ts_ns m) @ le_bytes 8 (m_value m)" "m_seq m" "[]"]
    by (simp add: message_bytes_def Let_def object_bytes_def)
qed

text \<open>Every message the engine makes has all its bytes.\<close>

lemma message_ok_made [simp]:
  "message_ok zero_message" "message_ok (clean_message m)" "message_ok m \<Longrightarrow> message_ok (decode_record bs m)"
  by (simp_all add: message_ok_def zero_message_def clean_message_def decode_record_def)

text \<open>C24: \<open>Message\<close> has the layout its header asserts: the ABI places its members at 0, 4, 8, 16, 24 and 32 without
  a hole, its size and alignment are one cache line of 64 bytes, and copying its bytes copies the message.
  A record on disk is, byte for byte, the object with its padding cleared; what the checksum hashes
  are the object's bytes without the padding.\<close>

theorem message_layout:
  assumes "message_ok m"
  shows "place_members 0 message_members =
      ([(''stream_id'', 0), (''_pad0'', 4), (''ts_ns'', 8), (''value'', 16), (''seq'', 24), (''_pad1'', 32)], 64) \<and>
    message_sizeof = 64 \<and> message_alignof = 64 \<and>
    length (object_bytes m) = message_sizeof \<and> object_of_bytes (object_bytes m) = m \<and>
    encode_record m = object_bytes (clean_message m) \<and>
    message_bytes m = take 4 (object_bytes m) @ take 24 (drop 8 (object_bytes m))"
proof -
  have p: "place_members 0 message_members =
      ([(''stream_id'', 0), (''_pad0'', 4), (''ts_ns'', 8), (''value'', 16), (''seq'', 24), (''_pad1'', 32)], 64)"
    by (simp add: message_members_def align_up_def Let_def)
  have a: "message_alignof = 64" by (simp add: message_alignof_def message_alignas_def message_members_def)
  have s: "message_sizeof = 64" by (simp add: message_sizeof_def p a align_up_def)
  have "length (object_bytes m) = message_sizeof" using assms by (simp add: length_object_bytes message_ok_def s)
  then show ?thesis
    using p a s object_roundtrip [OF assms] encode_is_object [of m] checksum_bytes_of_object [of m] by blast
qed

theorem message_layout_witness:
  "encode_record (zero_message\<lparr>m_stream_id := 258\<rparr>) = [2, 1] @ replicate 62 0 \<and>
   object_of_bytes (object_bytes (zero_message\<lparr>m_stream_id := 258\<rparr>)) = zero_message\<lparr>m_stream_id := 258\<rparr>"
proof -
  have "message_ok (zero_message\<lparr>m_stream_id := 258\<rparr>)" by (simp add: message_ok_def zero_message_def)
  note l = message_layout [OF this]
  have "object_bytes (clean_message (zero_message\<lparr>m_stream_id := 258\<rparr>)) = [2, 1] @ replicate 62 0"
    by code_simp
  then show ?thesis using l by simp
qed

end
