(* ===== verification/Rfc3339.thy ===== *)
theory Rfc3339
  imports Telemetry_Prelude "HOL-Library.Signed_Division"
begin

text \<open>
  The timestamp parser of \<open>include/feed/coinbase.hpp\<close> (namespace \<open>detail\<close>): \<open>days_from_civil\<close>, \<open>read_uint\<close> and
  \<open>parse_rfc3339_ns\<close>. The \<open>unsigned\<close> arithmetic of \<open>days_from_civil\<close> is kept on 32-bit words, wrap-around
  included (it adds \<open>-3u\<close>). The parser's index into the string view is modelled by the rest of
  the string. The \<open>int64_t\<close> intermediates are integers and the result is cut to 64 bits. Past the year
  2262 the code's signed arithmetic overflows, which C++ leaves undefined; the properties that speak of the value of a
  time stamp stop at 2261.
\<close>

definition days_from_civil :: "int \<Rightarrow> u32 \<Rightarrow> u32 \<Rightarrow> int" where
  "days_from_civil y m d =
     (let y = y - (if m \<le> 2 then 1 else 0);
          era = (if y \<ge> 0 then y else y - 399) sdiv 400;
          yoe = (word_of_int (y - era * 400) :: u32);
          doy = (153 * (m + (if m > 2 then - 3 else 9)) + 2) div 5 + d - 1;
          doe = yoe * 365 + yoe div 4 - yoe div 100 + doy
      in era * 146097 + uint doe - 719468)"

definition is_digit :: "char \<Rightarrow> bool" where
  "is_digit c \<longleftrightarrow> 48 \<le> (of_char c :: nat) \<and> (of_char c :: nat) \<le> 57"

definition digit_value :: "char \<Rightarrow> int" where
  "digit_value c = int (of_char c) - 48"

definition digits_value :: "int \<Rightarrow> string \<Rightarrow> int" where
  "digits_value v cs = foldl (\<lambda>v c. v * 10 + digit_value c) v cs"

definition read_uint :: "nat \<Rightarrow> string \<Rightarrow> (int \<times> string) option" where
  "read_uint count s =
     (if count > length s then None
      else if list_all is_digit (take count s)
      then Some (digits_value 0 (take count s), drop count s) else None)"

definition expect :: "char list \<Rightarrow> string \<Rightarrow> string option" where
  "expect cs s = (case s of [] \<Rightarrow> None | c # s' \<Rightarrow> if c \<in> set cs then Some s' else None)"

text \<open>The two digit loops of the fraction: at most nine digits count, more are skipped.\<close>

fun frac_loop :: "string \<Rightarrow> nat \<Rightarrow> int \<Rightarrow> string \<times> nat \<times> int" where
  "frac_loop [] digits frac = ([], digits, frac)"
| "frac_loop (c # s) digits frac =
     (if is_digit c \<and> digits < 9 then frac_loop s (digits + 1) (frac * 10 + digit_value c)
      else (c # s, digits, frac))"

definition parse_fraction :: "string \<Rightarrow> int" where
  "parse_fraction s =
     (case s of
        [] \<Rightarrow> 0
      | c # s' \<Rightarrow>
          if c = CHR ''.''
          then (let (_, digits, frac) = frac_loop s' 0 0 in frac * 10 ^ (9 - digits)) else 0)"

definition epoch_seconds :: "int \<Rightarrow> int \<Rightarrow> int \<Rightarrow> int \<Rightarrow> int \<Rightarrow> int \<Rightarrow> int" where
  "epoch_seconds year mon day hour minute sec =
     days_from_civil year (word_of_int mon) (word_of_int day) * 86400 + hour * 3600 + minute * 60 + sec"

definition parse_rfc3339_ns :: "string \<Rightarrow> u64 option" where
  "parse_rfc3339_ns s =
     Option.bind (read_uint 4 s) (\<lambda>(year, s).
     Option.bind (expect ''-'' s) (\<lambda>s.
     Option.bind (read_uint 2 s) (\<lambda>(mon, s).
     Option.bind (expect ''-'' s) (\<lambda>s.
     Option.bind (read_uint 2 s) (\<lambda>(day, s).
     Option.bind (expect ''Tt '' s) (\<lambda>s.
     Option.bind (read_uint 2 s) (\<lambda>(hour, s).
     Option.bind (expect '':'' s) (\<lambda>s.
     Option.bind (read_uint 2 s) (\<lambda>(minute, s).
     Option.bind (expect '':'' s) (\<lambda>s.
     Option.bind (read_uint 2 s) (\<lambda>(sec, s).
       if mon < 1 \<or> mon > 12 \<or> day < 1 \<or> day > 31 then None
       else Some (word_of_int
              (epoch_seconds year mon day hour minute sec * 1000000000 + parse_fraction s)))))))))))))"

section \<open>The calendar\<close>

definition leap_year :: "int \<Rightarrow> bool" where
  "leap_year y \<longleftrightarrow> 4 dvd y \<and> (\<not> 100 dvd y \<or> 400 dvd y)"

definition month_days :: "int \<Rightarrow> nat \<Rightarrow> nat" where
  "month_days y m = (if m = 2 then (if leap_year y then 29 else 28)
     else if m \<in> {4, 6, 9, 11} then 30 else 31)"

text \<open>The date after a date, by the Gregorian rules.\<close>

definition next_date :: "int \<times> nat \<times> nat \<Rightarrow> int \<times> nat \<times> nat" where
  "next_date ymd = (case ymd of (y, m, d) \<Rightarrow>
     if d < month_days y m then (y, m, d + 1)
     else if m < 12 then (y, m + 1, 1) else (y + 1, 1, 1))"

definition valid_date :: "int \<times> nat \<times> nat \<Rightarrow> bool" where
  "valid_date ymd = (case ymd of (y, m, d) \<Rightarrow> 1 \<le> m \<and> m \<le> 12 \<and> 1 \<le> d \<and> d \<le> month_days y m)"

definition day_number :: "int \<times> nat \<times> nat \<Rightarrow> int" where
  "day_number ymd = (case ymd of (y, m, d) \<Rightarrow> days_from_civil y (of_nat m) (of_nat d))"

text \<open>Days before the first of March of year \<open>y\<close>, and days from there to the first of a month.\<close>

definition year_days :: "int \<Rightarrow> int" where
  "year_days y = 365 * y + y div 4 - y div 100 + y div 400"

definition month_offset :: "nat \<Rightarrow> int" where
  "month_offset m = [306, 337, 0, 31, 61, 92, 122, 153, 184, 214, 245, 275] ! (m - 1)"

lemma era_floor: "(if y \<ge> 0 then y else y - 399) sdiv 400 = (y :: int) div 400"
proof (cases "y \<ge> 0")
  case True
  then show ?thesis by (cases "y = 0") (simp_all add: signed_divide_int_def)
next
  case False
  then have "(y - 399) sdiv 400 = - ((399 - y) div 400)"
    by (simp add: signed_divide_int_def)
  also have "(399 - y) div 400 = - (y div 400)"
  proof (rule int_div_pos_eq)
    show "399 - y = 400 * - (y div 400) + (399 - y mod 400)"
      using mult_div_mod_eq [of 400 y] by linarith
    show "0 \<le> 399 - y mod 400" "399 - y mod 400 < 400"
      using pos_mod_sign [of 400 y] pos_mod_bound [of 400 y] by linarith+
  qed
  finally show ?thesis using False by simp
qed

lemma year_days_era: "y div 400 * 146097 + (y mod 400 * 365 + y mod 400 div 4 - y mod 400 div 100) = year_days y"
  for y :: int
proof -
  define q r where "q = y div 400" and "r = y mod 400"
  have y: "y = r + 100 * q * 4" "y = r + 4 * q * 100" by (simp_all add: q_def r_def)
  have "y div 4 = 100 * q + r div 4" unfolding y(1) by (rule div_mult_self1) simp
  moreover have "y div 100 = 4 * q + r div 100" unfolding y(2) by (rule div_mult_self1) simp
  moreover have "y div 400 = q" "y mod 400 = r" by (simp_all add: q_def r_def)
  ultimately have "year_days y = 365 * y + (100 * q + r div 4) - (4 * q + r div 100) + q"
    by (simp only: year_days_def)
  then show ?thesis using y(1) unfolding q_def [symmetric] r_def [symmetric] by linarith
qed

lemma month_cases: "1 \<le> m \<Longrightarrow> m \<le> 12 \<Longrightarrow>
    m = 1 \<or> m = 2 \<or> m = 3 \<or> m = 4 \<or> m = 5 \<or> m = 6 \<or> m = 7 \<or> m = 8 \<or> m = 9 \<or> m = 10 \<or> m = 11 \<or> m = (12 :: nat)"
  by arith

text \<open>\<open>days_from_civil\<close> without words: this is where the unsigned arithmetic is shown not to wrap.\<close>

lemma doy_word:
  assumes "1 \<le> m" "m \<le> 12" "1 \<le> d" "d \<le> (31 :: nat)"
  shows "uint ((153 * ((of_nat m :: u32) + (if of_nat m > (2 :: u32) then - 3 else 9)) + 2) div 5
      + of_nat d - 1) = month_offset m + int d - 1"
proof -
  have d: "uint (of_nat d :: u32) = int d" using assms(4) by (simp add: uint_nat unat_of_nat)
  have k: "uint ((of_nat k :: u32) + of_nat d - 1) = int k + int d - 1" if "k \<le> 400" for k
  proof -
    have "(of_nat k :: u32) + of_nat d - 1 = of_nat (k + d - 1)" using assms(3) by (simp add: of_nat_diff)
    moreover have "unat (of_nat (k + d - 1) :: u32) = k + d - 1"
      using that assms(4) by (simp add: unat_of_nat)
    ultimately show ?thesis using assms(3) by (simp add: uint_nat)
  qed
  show ?thesis
    using month_cases [OF assms(1,2)] k [of 306] k [of 337] k [of 0] k [of 31] k [of 61] k [of 92]
      k [of 122] k [of 153] k [of 184] k [of 214] k [of 245] k [of 275]
    by (elim disjE) (simp_all add: month_offset_def)
qed


lemma yoe_word:
  assumes "0 \<le> r" "r < (400 :: int)" "0 \<le> x" "x \<le> (400 :: int)"
  shows "uint ((word_of_int r :: u32) * 365 + word_of_int r div 4 - word_of_int r div 100 + word_of_int x) =
    r * 365 + r div 4 - r div 100 + x"
proof -
  define w :: u32 where "w = word_of_int r"
  have w: "uint w = r" using assms(1,2) by (simp add: w_def uint_word_of_int take_bit_int_eq_self)
  have dv: "uint (w div 4) = r div 4" "uint (w div 100) = r div 100"
    by (simp_all add: uint_div w)
  have eq: "w * 365 + w div 4 - w div 100 + word_of_int x =
      word_of_int (r * 365 + r div 4 - r div 100 + x)"
  proof -
    have "w div 4 = word_of_int (r div 4)" "w div 100 = word_of_int (r div 100)"
      unfolding dv [symmetric] by simp_all
    then show ?thesis by (simp add: w_def)
  qed
  have small: "uint (word_of_int k :: u32) = k" if "0 \<le> k" "k < 2 ^ 32" for k
    using that by (simp add: uint_word_of_int take_bit_int_eq_self)
  have "0 \<le> r div 4" "r div 4 \<le> 100" using assms(1,2) by linarith+
  moreover have "0 \<le> r div 100" using assms(1) by simp
  moreover have "r div 100 \<le> r div 4" using assms(1) by (rule zdiv_mono2) simp_all
  moreover have "0 \<le> r * 365" "r * 365 \<le> 400 * 365" using assms(1,2) by simp_all
  ultimately have "0 \<le> r * 365 + r div 4 - r div 100 + x" "r * 365 + r div 4 - r div 100 + x < 2 ^ 32"
    using assms(3,4) by simp_all
  then have "uint (word_of_int (r * 365 + r div 4 - r div 100 + x) :: u32) = r * 365 + r div 4 - r div 100 + x"
    by (rule small)
  then show ?thesis unfolding w_def [symmetric] eq .
qed

lemma days_from_civil_formula:
  assumes "1 \<le> m" "m \<le> 12" "1 \<le> d" "d \<le> (31 :: nat)"
  shows "days_from_civil y (of_nat m) (of_nat d) =
    year_days (if m \<le> 2 then y - 1 else y) + month_offset m + int d - 1 - 719468"
proof -
  define z where "z = (if m \<le> 2 then y - 1 else y)"
  define doy :: u32 where "doy = (153 * ((of_nat m :: u32) + (if of_nat m > (2 :: u32) then - 3 else 9)) + 2) div 5
      + of_nat d - 1"
  have doy: "uint doy = month_offset m + int d - 1" unfolding doy_def by (rule doy_word [OF assms])
  have m2: "of_nat m \<le> (2 :: u32) \<longleftrightarrow> m \<le> 2" using assms(2) by (simp add: word_le_nat_alt unat_of_nat)
  have bound: "month_offset m + int d - 1 \<le> 400" "0 \<le> month_offset m + int d - 1"
    using month_cases [OF assms(1,2)] assms(3,4) by (auto simp: month_offset_def)
  have z: "y - (if of_nat m \<le> (2 :: u32) then 1 else 0) = z" by (simp add: m2 z_def)
  have md: "z - z div 400 * 400 = z mod 400" by (simp add: minus_div_mult_eq_mod)
  have "days_from_civil y (of_nat m) (of_nat d) =
      z div 400 * 146097 + uint ((word_of_int (z mod 400) :: u32) * 365 + word_of_int (z mod 400) div 4
        - word_of_int (z mod 400) div 100 + word_of_int (uint doy)) - 719468"
    by (simp only: days_from_civil_def Let_def z era_floor md doy_def [symmetric] word_of_int_uint)
  also have "\<dots> = z div 400 * 146097 + (z mod 400 * 365 + z mod 400 div 4 - z mod 400 div 100 +
      (month_offset m + int d - 1)) - 719468"
    using bound by (subst yoe_word) (simp_all add: doy)
  also have "\<dots> = year_days z + month_offset m + int d - 1 - 719468"
    using year_days_era [of z] by linarith
  finally show ?thesis by (simp only: z_def)
qed

lemma year_days_step: "year_days y = year_days (y - 1) + (if leap_year y then 366 else 365)"
proof -
  have step: "y div n = (y - 1) div n + (if n dvd y then 1 else 0)" if "0 < n" for n :: int
  proof (cases "n dvd y")
    case True
    then obtain q where "y = n * q" by blast
    moreover have "(n * q - 1) div n = q - 1"
      using that by (intro int_div_pos_eq [where r = "n - 1"]) (simp_all add: algebra_simps)
    ultimately show ?thesis using that by simp
  next
    case False
    then have "y mod n \<noteq> 0" by (simp add: dvd_eq_mod_eq_0)
    moreover have "0 \<le> y mod n" "y mod n < n" using that by simp_all
    ultimately have r: "1 \<le> y mod n" "y mod n < n" by linarith+
    have "(y - 1) div n = y div n"
    proof (rule int_div_pos_eq)
      show "y - 1 = n * (y div n) + (y mod n - 1)" using mult_div_mod_eq [of n y] by linarith
    qed (use r in simp_all)
    then show ?thesis using False by simp
  qed
  show ?thesis by (auto simp: year_days_def leap_year_def step [of 4] step [of 100] step [of 400])
qed


lemma calendar_step:
  assumes "valid_date ymd"
  shows "day_number (next_date ymd) = day_number ymd + 1 \<and> day_number (1970, 1, 1) = 0"
proof -
  obtain y m d where ymd: "ymd = (y, m, d)" by (cases ymd)
  have v: "1 \<le> m" "m \<le> 12" "1 \<le> d" "d \<le> month_days y m" "month_days y m \<le> 31" "28 \<le> month_days y m"
    using assms by (auto simp: valid_date_def ymd month_days_def)
  have num: "day_number (y', m', d') = year_days (if m' \<le> 2 then y' - 1 else y') + month_offset m' + int d' - 719469"
    if "1 \<le> m'" "m' \<le> 12" "1 \<le> d'" "d' \<le> 31" for y' m' d'
    using days_from_civil_formula [OF that, of y'] by (simp add: day_number_def)
  have epoch: "day_number (1970, 1, 1) = 0"
    by (simp add: num year_days_def month_offset_def)
  show ?thesis
  proof (cases "d < month_days y m")
    case True
    then show ?thesis using v epoch by (simp add: next_date_def ymd num)
  next
    case False
    then have d: "d = month_days y m" using v(4) by simp
    have "day_number (if m < 12 then (y, m + 1, 1) else (y + 1, 1, 1)) = day_number (y, m, d) + 1"
      using month_cases [OF v(1,2)] v d year_days_step [of y]
      by (elim disjE) (simp_all add: num month_offset_def month_days_def)
    then show ?thesis using False epoch by (simp add: next_date_def ymd)
  qed
qed

text \<open>\<open>days_from_civil\<close> is the Gregorian calendar: 1970-01-01 is day 0 and the day after a date, by
  the month lengths and the leap year rule, has the next number, for every year the parser can
  read (and before the epoch as well). This determines the number of every date.\<close>

theorem civil_calendar:
  assumes "valid_date ymd"
  shows "day_number (next_date ymd) = day_number ymd + 1 \<and> day_number (1970, 1, 1) = 0"
  using assms by (rule calendar_step)

theorem civil_calendar_witness: "day_number (2024, 3, 1) = day_number (2024, 2, 29) + 1"
  using civil_calendar [of "(2024, 2, 29)"]
  by (simp add: valid_date_def next_date_def month_days_def leap_year_def)


lemma year_days_mono: "a \<le> b \<Longrightarrow> year_days a \<le> year_days b"
proof (induction b rule: int_ge_induct)
  case (step b)
  then show ?case using year_days_step [of "b + 1"] by (auto split: if_splits)
qed simp

section \<open>Reading back a timestamp\<close>

text \<open>\<open>print_uint n v\<close>: the last \<open>n\<close> decimal digits of \<open>v\<close>, zero padded.\<close>

fun print_uint :: "nat \<Rightarrow> nat \<Rightarrow> string" where
  "print_uint 0 v = []"
| "print_uint (Suc n) v = print_uint n (v div 10) @ [char_of (48 + v mod 10)]"

lemma digit_of_char:
  assumes "k < 10"
  shows "is_digit (char_of (48 + k))" "digit_value (char_of (48 + k)) = int k"
proof -
  have e: "of_char (char_of (48 + k) :: char) = (48 + k :: nat)" using assms by simp
  then show "is_digit (char_of (48 + k))" using assms by (simp add: is_digit_def)
  show "digit_value (char_of (48 + k)) = int k" unfolding digit_value_def e by simp
qed

lemma digits_value_snoc: "digits_value v (cs @ [c]) = digits_value v cs * 10 + digit_value c"
  by (simp add: digits_value_def)

lemma print_uint_facts:
  "length (print_uint n v) = n" "list_all is_digit (print_uint n v)"
  "digits_value 0 (print_uint n v) = int (v mod 10 ^ n)"
proof (induction n arbitrary: v)
  case (Suc n)
  { case 1 then show ?case using Suc by simp }
  { case 2 then show ?case using Suc digit_of_char(1) [of "v mod 10"] by simp }
  { case 3
    have "v mod 10 ^ Suc n = 10 * (v div 10 mod 10 ^ n) + v mod 10"
      by (simp add: mod_mult2_eq)
    then show ?case using Suc(3) [of "v div 10"]
      by (simp add: digits_value_snoc digit_of_char(2)) }
qed (simp_all add: digits_value_def)

lemma read_print: "v < 10 ^ n \<Longrightarrow> read_uint n (print_uint n v @ s) = Some (int v, s)"
  by (simp add: read_uint_def print_uint_facts)

lemma frac_loop_digits:
  assumes "list_all is_digit cs" "k + length cs \<le> 9" "s = [] \<or> \<not> is_digit (hd s)"
  shows "frac_loop (cs @ s) k v = (s, k + length cs, digits_value v cs)"
  using assms(1,2)
proof (induction cs arbitrary: k v)
  case Nil
  then show ?case using assms(3) by (cases s) (simp_all add: digits_value_def)
next
  case (Cons c cs)
  then show ?case by (simp add: digits_value_def)
qed

text \<open>\<open>print_timestamp\<close>: \<open>YYYY-MM-DDTHH:MM:SS\<close>, a fraction of \<open>n\<close> digits when \<open>n > 0\<close>, and \<open>Z\<close>.\<close>

definition print_timestamp :: "nat \<Rightarrow> nat \<Rightarrow> nat \<Rightarrow> nat \<Rightarrow> nat \<Rightarrow> nat \<Rightarrow> nat \<Rightarrow> nat \<Rightarrow> string" where
  "print_timestamp y mo d h mi s n f =
     print_uint 4 y @ ''-'' @ print_uint 2 mo @ ''-'' @ print_uint 2 d @ ''T'' @ print_uint 2 h @ '':'' @
     print_uint 2 mi @ '':'' @ print_uint 2 s @ (if n = 0 then [] else ''.'' @ print_uint n f) @ ''Z''"

lemma fraction_print:
  assumes "n \<le> 9" "f < 10 ^ n"
  shows "parse_fraction ((if n = 0 then [] else ''.'' @ print_uint n f) @ ''Z'') = int f * 10 ^ (9 - n)"
proof -
  have "\<not> is_digit CHR ''Z''" by (simp add: is_digit_def)
  then have "frac_loop (print_uint n f @ ''Z'') 0 0 = (''Z'', n, int f)"
    using frac_loop_digits [of "print_uint n f" 0 "''Z''" 0] assms by (simp add: print_uint_facts)
  then show ?thesis using assms by (auto simp: parse_fraction_def)
qed

lemma rfc3339_print:
  assumes "y \<le> 9999" "1 \<le> mo" "mo \<le> 12" "1 \<le> d" "d \<le> 31" "h \<le> 23" "mi \<le> 59" "s \<le> 59"
    "n \<le> 9" "f < 10 ^ n"
  shows "parse_rfc3339_ns (print_timestamp y mo d h mi s n f) = Some (word_of_int
      ((day_number (int y, mo, d) * 86400 + int (h * 3600 + mi * 60 + s)) * 1000000000
      + int f * 10 ^ (9 - n)))"
proof -
  have r: "read_uint 4 (print_uint 4 y @ z) = Some (int y, z)"
    "read_uint 2 (print_uint 2 mo @ z) = Some (int mo, z)"
    "read_uint 2 (print_uint 2 d @ z) = Some (int d, z)"
    "read_uint 2 (print_uint 2 h @ z) = Some (int h, z)"
    "read_uint 2 (print_uint 2 mi @ z) = Some (int mi, z)"
    "read_uint 2 (print_uint 2 s @ z) = Some (int s, z)" for z
    using assms by (simp_all add: read_print del: print_uint.simps)
  have e: "expect ''-'' (''-'' @ z) = Some z" "expect ''Tt '' (''T'' @ z) = Some z"
    "expect '':'' ('':'' @ z) = Some z" for z by (simp_all add: expect_def)
  note fr = fraction_print [OF assms(9,10)]
  have p: "parse_rfc3339_ns (print_timestamp y mo d h mi s n f) = Some (word_of_int
      (epoch_seconds (int y) (int mo) (int d) (int h) (int mi) (int s) * 1000000000 + int f * 10 ^ (9 - n)))"
    unfolding parse_rfc3339_ns_def print_timestamp_def
    using assms by (simp only: r e fr bind.bind_lunit prod.case) (simp add: r)
  have ep: "epoch_seconds (int y) (int mo) (int d) (int h) (int mi) (int s) =
      day_number (int y, mo, d) * 86400 + int (h * 3600 + mi * 60 + s)"
    by (simp add: epoch_seconds_def day_number_def)
  show ?thesis unfolding p ep ..
qed

text \<open>The days from 1970-01-01 to a date, counted year by year and month by month.\<close>

definition calendar_days :: "nat \<Rightarrow> nat \<Rightarrow> nat \<Rightarrow> nat" where
  "calendar_days y m d =
     sum_list (map (\<lambda>k. if leap_year (int k) then 366 else 365) [1970..<y]) +
     sum_list (map (month_days (int y)) [1..<m]) + (d - 1)"

lemma calendar_years:
  "1970 \<le> y \<Longrightarrow> int (sum_list (map (\<lambda>k. if leap_year (int k) then 366 else 365) [1970..<y])) = year_days (int y - 1) - 719162"
proof (induction y rule: nat_induct_at_least)
  case (Suc y)
  then show ?case using year_days_step [of "int y"] by simp
qed (simp add: year_days_def)

lemma calendar_months:
  assumes "1 \<le> m" "m \<le> 12"
  shows "int (sum_list (map (month_days y) [1..<m])) =
    year_days (if m \<le> 2 then y - 1 else y) + month_offset m - year_days (y - 1) - 306"
  using month_cases [OF assms] year_days_step [of y]
  by (elim disjE) (simp_all add: month_offset_def month_days_def upt_conv_Cons)

lemma day_number_calendar:
  assumes "1970 \<le> y" "valid_date (int y, m, d)"
  shows "day_number (int y, m, d) = int (calendar_days y m d)"
proof -
  have v: "1 \<le> m" "m \<le> 12" "1 \<le> d" "d \<le> 31"
    using assms(2) by (auto simp: valid_date_def month_days_def split: if_splits)
  show ?thesis
    using days_from_civil_formula [OF v, of "int y"] calendar_years [OF assms(1)] calendar_months [OF v(1,2), of "int y"] v(3)
    by (simp add: day_number_def calendar_days_def)
qed

text \<open>Up to the year 2261 the nanoseconds fit.\<close>

lemma timestamp_fits:
  assumes "1970 \<le> y" "y \<le> 2261" "valid_date (int y, mo, d)" "h \<le> 23" "mi \<le> 59" "s \<le> 59" "n \<le> 9" "f < 10 ^ n"
  defines "ns \<equiv> (day_number (int y, mo, d) * 86400 + int (h * 3600 + mi * 60 + s)) * 1000000000 + int f * 10 ^ (9 - n)"
  shows "sint (word_of_int ns :: u64) =
    (int (calendar_days y mo d) * 86400 + int (h * 3600 + mi * 60 + s)) * 1000000000 + int f * 10 ^ (9 - n)"
proof -
  have v: "1 \<le> mo" "mo \<le> 12" "1 \<le> d" "d \<le> 31"
    using assms(3) by (auto simp: valid_date_def month_days_def split: if_splits)
  have dn: "day_number (int y, mo, d) =
      year_days (if mo \<le> 2 then int y - 1 else int y) + month_offset mo + int d - 719469"
    using days_from_civil_formula [OF v, of "int y"] by (simp add: day_number_def)
  have "month_offset mo \<le> 337" using month_cases [OF v(1,2)] by (auto simp: month_offset_def)
  moreover have "year_days (if mo \<le> 2 then int y - 1 else int y) \<le> year_days (if mo \<le> 2 then 2260 else 2261)"
    using assms(2) by (auto intro: year_days_mono)
  ultimately have "day_number (int y, mo, d) \<le> 106750"
    using v(4) unfolding dn by (auto simp: year_days_def [of 2260] year_days_def [of 2261] split: if_splits)
  moreover have "0 \<le> day_number (int y, mo, d)" by (simp add: day_number_calendar [OF assms(1,3)])
  moreover have "int f * 10 ^ (9 - n) < 1000000000"
  proof -
    have "int f * 10 ^ (9 - n) < 10 ^ n * 10 ^ (9 - n)" using assms(8) by simp
    also have "\<dots> = (10 :: int) ^ 9" using assms(7) by (simp add: power_add [symmetric])
    finally show ?thesis by simp
  qed
  moreover have "int (h * 3600 + mi * 60 + s) \<le> 86399" using assms(4-6) by simp
  ultimately have "0 \<le> ns" "ns < 2 ^ 63" by (simp_all add: ns_def)
  then have "sint (word_of_int ns :: u64) = ns" by (simp add: signed_of_int signed_take_bit_int_eq_self_iff)
  then show ?thesis by (simp add: ns_def day_number_calendar [OF assms(1,3)])
qed

text \<open>C29: Reading back a printed UTC timestamp gives exactly its nanoseconds since the epoch. For every date of the
  Gregorian calendar from 1970-01-01 to the end of 2261, every time of day and zero to nine fraction digits, the
  64-bit result is the number of days since 1970-01-01 (years of 365 or 366 days, months of
  28 to 31), times 86400, plus the time of day, times \<open>10 ^ 9\<close>, plus the fraction scaled to nanoseconds. Later years
  do not fit 64 bits; for them the code's signed product overflows, and nothing is claimed.\<close>

theorem rfc3339_reads_timestamp:
  assumes "1970 \<le> y" "y \<le> 2261" "valid_date (int y, mo, d)" "h \<le> 23" "mi \<le> 59" "s \<le> 59" "n \<le> 9" "f < 10 ^ n"
  shows "\<exists>ts. parse_rfc3339_ns (print_timestamp y mo d h mi s n f) = Some ts \<and>
    sint ts = (int (calendar_days y mo d) * 86400 + int (h * 3600 + mi * 60 + s)) * 1000000000 + int f * 10 ^ (9 - n)"
proof -
  have "1 \<le> mo" "mo \<le> 12" "1 \<le> d" "d \<le> 31"
    using assms(3) by (auto simp: valid_date_def month_days_def split: if_splits)
  then show ?thesis using assms rfc3339_print [of y mo d h mi s n f] timestamp_fits [OF assms] by simp
qed

theorem rfc3339_reads_timestamp_witness:
  "map_option sint (parse_rfc3339_ns (print_timestamp 2000 3 1 12 34 56 6 789)) = Some 951914096000789000"
proof -
  have days: "calendar_days 2000 3 (Suc 0) = 11017"
    by (simp add: calendar_days_def month_days_def leap_year_def upt_conv_Cons)
  have "valid_date (int 2000, 3, 1)" by (simp add: valid_date_def month_days_def)
  then obtain ts where "parse_rfc3339_ns (print_timestamp 2000 3 1 12 34 56 6 789) = Some ts"
    "sint ts = (int (calendar_days 2000 3 1) * 86400 + int (12 * 3600 + 34 * 60 + 56)) * 1000000000 + int 789 * 10 ^ (9 - 6)"
    using rfc3339_reads_timestamp [of 2000 3 1 12 34 56 6 789] by auto
  then show ?thesis by (simp add: days)
qed

text \<open>What the parser lets through: the 31st of February is read as the 3rd of March, hours and
  minutes are not checked, a numeric UTC offset and any other trailing text are ignored.\<close>

theorem rfc3339_leniency:
  "parse_rfc3339_ns ''2026-02-31T00:00:00Z'' = parse_rfc3339_ns ''2026-03-03T00:00:00Z'' \<and>
   parse_rfc3339_ns ''2026-01-01T99:99:99Z'' = parse_rfc3339_ns ''2026-01-05T04:40:39Z'' \<and>
   parse_rfc3339_ns ''2026-01-01T00:00:00.5+05:00'' = parse_rfc3339_ns ''2026-01-01T00:00:00.5Z'' \<and>
   parse_rfc3339_ns ''2026-01-01T00:00:00 rubbish'' = parse_rfc3339_ns ''2026-01-01T00:00:00Z''"
  by code_simp

end
