(* ===== verification/Ieee_Double.thy ===== *)
theory Ieee_Double
  imports Message
begin

text \<open>
  IEEE-754 binary64 as the detectors compute with it, on the 64-bit patterns of \<open>double\<close>: the basic
  operations in round-to-nearest-even, square root, comparison, \<open>std::ceil\<close>, \<open>std::fmax\<close>, \<open>std::fmin\<close> and the
  integer conversions. A pattern is a sign and a 63-bit magnitude, and magnitudes are ordered as
  the numbers they stand for. Every operation is computed exactly on integers and rounded once.
  NaN payloads are not modelled: every NaN result is the canonical one.

  \<open>d_fix\<close> is the exact value of a finite double in units of \<open>2 ^ -1074\<close>, an integer; the theorems
  about comparisons and signs are stated over it.
\<close>

section \<open>Fields\<close>

definition d_neg :: "double \<Rightarrow> bool" where
  "d_neg d \<longleftrightarrow> 2 ^ 63 \<le> unat d"

definition d_mag :: "double \<Rightarrow> nat" where
  "d_mag d = unat d mod 2 ^ 63"

definition inf_mag :: nat where
  "inf_mag = 0x7FF0000000000000"

definition d_make :: "bool \<Rightarrow> nat \<Rightarrow> double" where
  "d_make s k = of_nat (k + (if s then 2 ^ 63 else 0))"

definition d_nan :: double where
  "d_nan = 0x7FF8000000000000"

definition d_inf :: "bool \<Rightarrow> double" where
  "d_inf s = d_make s inf_mag"

definition d_zero :: "bool \<Rightarrow> double" where
  "d_zero s = d_make s 0"

definition d_one :: double where
  "d_one = 0x3FF0000000000000"

text \<open>The literal \<open>1e9\<close>.\<close>

definition d_1e9 :: double where
  "d_1e9 = 0x41CDCD6500000000"

definition is_nan :: "double \<Rightarrow> bool" where
  "is_nan d \<longleftrightarrow> inf_mag < d_mag d"

definition is_inf :: "double \<Rightarrow> bool" where
  "is_inf d \<longleftrightarrow> d_mag d = inf_mag"

definition is_zero :: "double \<Rightarrow> bool" where
  "is_zero d \<longleftrightarrow> d_mag d = 0"

text \<open>A finite magnitude is \<open>mag_mant * 2 ^ mag_scale\<close>.\<close>

definition mag_mant :: "nat \<Rightarrow> nat" where
  "mag_mant k = (if k < 2 ^ 52 then k else k mod 2 ^ 52 + 2 ^ 52)"

definition mag_scale :: "nat \<Rightarrow> int" where
  "mag_scale k = int (max 1 (k div 2 ^ 52)) - 1075"

section \<open>Rounding\<close>

fun bit_length :: "nat \<Rightarrow> nat" where
  "bit_length n = (if n = 0 then 0 else Suc (bit_length (n div 2)))"

declare bit_length.simps [simp del]

text \<open>Round \<open>m * 2 ^ e\<close>. The lowest bit of \<open>m\<close> may stand for a non-zero rest below it (a sticky bit)
  if \<open>m\<close> has more than 54 bits. Adding the mantissa to the exponent field lets a carry out of
  the mantissa and the subnormal range come out right.\<close>

definition round_mag :: "nat \<Rightarrow> int \<Rightarrow> nat" where
  "round_mag m e =
     (if m = 0 then 0
      else (let q = max (e + int (bit_length m) - 53) (- 1074);
                mant = (if q \<le> e then m * 2 ^ nat (e - q)
                        else (let d = 2 ^ nat (q - e); t = m div d; r = m mod d
                              in if d < 2 * r \<or> d = 2 * r \<and> odd t then t + 1 else t))
            in min inf_mag (nat (q + 1074) * 2 ^ 52 + mant)))"

definition d_round :: "bool \<Rightarrow> nat \<Rightarrow> int \<Rightarrow> double" where
  "d_round s m e = d_make s (round_mag m e)"

section \<open>Operations\<close>

definition d_uminus :: "double \<Rightarrow> double" where
  "d_uminus a = d_make (\<not> d_neg a) (d_mag a)"

text \<open>The exact value as an integer over a common scale. A zero added to anything else changes nothing;
  the sum of opposite zeros or numbers is \<open>+0\<close>.\<close>

definition d_aligned :: "int \<Rightarrow> double \<Rightarrow> int" where
  "d_aligned e a = (if d_neg a then - 1 else 1) *
     int (mag_mant (d_mag a) * 2 ^ nat (mag_scale (d_mag a) - e))"

definition d_add :: "double \<Rightarrow> double \<Rightarrow> double" where
  "d_add a b =
     (if is_nan a \<or> is_nan b then d_nan
      else if is_inf a then (if is_inf b \<and> d_neg a \<noteq> d_neg b then d_nan else a)
      else if is_inf b then b
      else if is_zero a \<and> \<not> is_zero b then b
      else if is_zero b \<and> \<not> is_zero a then a
      else (let e = min (mag_scale (d_mag a)) (mag_scale (d_mag b));
                v = d_aligned e a + d_aligned e b
            in if v = 0 then d_zero (d_neg a \<and> d_neg b)
               else d_round (v < 0) (nat \<bar>v\<bar>) e))"

definition d_sub :: "double \<Rightarrow> double \<Rightarrow> double" where
  "d_sub a b = d_add a (d_uminus b)"

definition d_mul :: "double \<Rightarrow> double \<Rightarrow> double" where
  "d_mul a b =
     (let s = (d_neg a \<noteq> d_neg b)
      in if is_nan a \<or> is_nan b then d_nan
         else if is_inf a \<and> is_zero b \<or> is_zero a \<and> is_inf b then d_nan
         else if is_inf a \<or> is_inf b then d_inf s
         else d_round s (mag_mant (d_mag a) * mag_mant (d_mag b))
                (mag_scale (d_mag a) + mag_scale (d_mag b)))"

definition d_div :: "double \<Rightarrow> double \<Rightarrow> double" where
  "d_div a b =
     (let s = (d_neg a \<noteq> d_neg b)
      in if is_nan a \<or> is_nan b then d_nan
         else if is_inf a \<and> is_inf b \<or> is_zero a \<and> is_zero b then d_nan
         else if is_inf a \<or> is_zero b then d_inf s
         else if is_inf b then d_zero s
         else (let n = mag_mant (d_mag a) * 2 ^ 120; d = mag_mant (d_mag b)
               in d_round s (2 * (n div d) + (if n mod d = 0 then 0 else 1))
                    (mag_scale (d_mag a) - mag_scale (d_mag b) - 121)))"

fun nat_sqrt :: "nat \<Rightarrow> nat" where
  "nat_sqrt n =
     (if n = 0 then 0
      else (let r = 2 * nat_sqrt (n div 4) in if (r + 1) * (r + 1) \<le> n then r + 1 else r))"

declare nat_sqrt.simps [simp del]

definition d_sqrt :: "double \<Rightarrow> double" where
  "d_sqrt a =
     (if is_nan a then d_nan
      else if is_zero a then a
      else if d_neg a then d_nan
      else if is_inf a then a
      else (let e = mag_scale (d_mag a);
                m = mag_mant (d_mag a) * 2 ^ 120 * (if even e then 1 else 2);
                r = nat_sqrt m
            in d_round False (2 * r + (if r * r = m then 0 else 1))
                 ((e - (if even e then 0 else 1) - 120) div 2 - 1)))"

text \<open>Comparisons with a NaN are false; the two zeros are equal.\<close>

definition d_key :: "double \<Rightarrow> int" where
  "d_key a = (if d_neg a then - int (d_mag a) else int (d_mag a))"

definition d_lt :: "double \<Rightarrow> double \<Rightarrow> bool" where
  "d_lt a b \<longleftrightarrow> \<not> is_nan a \<and> \<not> is_nan b \<and> d_key a < d_key b"

definition d_le :: "double \<Rightarrow> double \<Rightarrow> bool" where
  "d_le a b \<longleftrightarrow> \<not> is_nan a \<and> \<not> is_nan b \<and> d_key a \<le> d_key b"

definition d_eq :: "double \<Rightarrow> double \<Rightarrow> bool" where
  "d_eq a b \<longleftrightarrow> \<not> is_nan a \<and> \<not> is_nan b \<and> d_key a = d_key b"

definition d_fmax :: "double \<Rightarrow> double \<Rightarrow> double" where
  "d_fmax a b = (if is_nan a then b else if is_nan b then a else if d_lt a b then b else a)"

definition d_fmin :: "double \<Rightarrow> double \<Rightarrow> double" where
  "d_fmin a b = (if is_nan a then b else if is_nan b then a else if d_lt b a then b else a)"

definition d_ceil :: "double \<Rightarrow> double" where
  "d_ceil a =
     (if inf_mag \<le> d_mag a then (if is_nan a then d_nan else a)
      else if 0 \<le> mag_scale (d_mag a) then a
      else (let d = 2 ^ nat (- mag_scale (d_mag a)); m = mag_mant (d_mag a)
            in d_round (d_neg a) (if d_neg a then m div d else (m + d - 1) div d) 0))"

definition d_of_int :: "int \<Rightarrow> double" where
  "d_of_int k = d_round (k < 0) (nat \<bar>k\<bar>) 0"

text \<open>\<open>static_cast<std::int64_t>\<close>: towards zero; out of range the x86 instruction gives the smallest value.\<close>

definition d_trunc :: "double \<Rightarrow> int" where
  "d_trunc a =
     (let m = mag_mant (d_mag a); e = mag_scale (d_mag a);
          v = (if 0 \<le> e then m * 2 ^ nat e else m div 2 ^ nat (- e))
      in if d_neg a then - int v else int v)"

definition d_to_int64 :: "double \<Rightarrow> u64" where
  "d_to_int64 a =
     (if is_nan a \<or> is_inf a then 0x8000000000000000
      else if - (2 ^ 63) \<le> d_trunc a \<and> d_trunc a < 2 ^ 63 then word_of_int (d_trunc a)
      else 0x8000000000000000)"


text \<open>The recursions unfold on numerals only, so that evaluation by \<open>simp\<close> stops on open terms.\<close>

lemma bit_length_0 [simp]: "bit_length 0 = 0"
  by (simp add: bit_length.simps)

lemma bit_length_jump: "2 ^ j \<le> n \<Longrightarrow> bit_length n = j + bit_length (n div 2 ^ j)"
proof (induction j arbitrary: n)
  case (Suc j)
  have "2 ^ j \<le> n div 2" using Suc.prems by simp
  moreover from this have "n \<noteq> 0" by (cases "n = 0") simp_all
  ultimately show ?case
    using Suc.IH [of "n div 2"] by (subst bit_length.simps) (simp add: div_mult2_eq)
qed simp

lemma bit_length_eval:
  "bit_length (numeral k) =
     (if 2 ^ 64 \<le> (numeral k :: nat) then 64 + bit_length (numeral k div 2 ^ 64)
      else if 2 ^ 8 \<le> (numeral k :: nat) then 8 + bit_length (numeral k div 2 ^ 8)
      else 1 + bit_length (numeral k div 2))" "bit_length (Suc 0) = 1"
  using bit_length_jump [of 64 "numeral k"] bit_length_jump [of 8 "numeral k"]
  by (simp_all add: bit_length.simps [of "numeral k"] bit_length.simps [of "Suc 0"])

text \<open>The facts that evaluate the operations on concrete patterns.\<close>

named_theorems d_eval

lemmas [d_eval] =
  d_add_def [of "numeral k" "numeral l"] d_add_def [of "numeral k" 0]
  d_add_def [of 0 "numeral l"] d_add_def [of 0 0]
  d_sub_def [of "numeral k" "numeral l"] d_sub_def [of "numeral k" 0]
  d_sub_def [of 0 "numeral l"] d_sub_def [of 0 0]
  d_mul_def [of "numeral k" "numeral l"] d_mul_def [of "numeral k" 0]
  d_mul_def [of 0 "numeral l"] d_mul_def [of 0 0]
  d_div_def [of "numeral k" "numeral l"] d_div_def [of "numeral k" 0]
  d_div_def [of 0 "numeral l"] d_div_def [of 0 0]
  d_lt_def [of "numeral k" "numeral l"] d_lt_def [of "numeral k" 0]
  d_lt_def [of 0 "numeral l"] d_lt_def [of 0 0]
  d_le_def [of "numeral k" "numeral l"] d_le_def [of "numeral k" 0]
  d_le_def [of 0 "numeral l"] d_le_def [of 0 0]
  d_eq_def [of "numeral k" "numeral l"] d_eq_def [of "numeral k" 0]
  d_eq_def [of 0 "numeral l"] d_eq_def [of 0 0]
  d_fmax_def [of "numeral k" "numeral l"] d_fmax_def [of "numeral k" 0]
  d_fmax_def [of 0 "numeral l"] d_fmax_def [of 0 0]
  d_fmin_def [of "numeral k" "numeral l"] d_fmin_def [of "numeral k" 0]
  d_fmin_def [of 0 "numeral l"] d_fmin_def [of 0 0]
  d_sqrt_def [of "numeral k"] d_sqrt_def [of 0]
  d_uminus_def [of "numeral k"] d_uminus_def [of 0]
  d_key_def [of "numeral k"] d_key_def [of 0]
  d_ceil_def [of "numeral k"] d_ceil_def [of 0]
  d_trunc_def [of "numeral k"] d_trunc_def [of 0]
  d_to_int64_def [of "numeral k"] d_to_int64_def [of 0]
  for k l

lemmas [d_eval] = d_of_int_def d_aligned_def d_round_def round_mag_def mag_mant_def mag_scale_def
  d_make_def d_zero_def d_inf_def d_nan_def inf_mag_def is_nan_def is_inf_def is_zero_def d_neg_def
  d_mag_def bit_length_eval Let_def

section \<open>Signs and special values\<close>

lemma d_mag_less: "d_mag d < 2 ^ 63"
  by (simp add: d_mag_def)

lemma d_make_fields:
  assumes "k < 2 ^ 63"
  shows "d_neg (d_make s k) = s" "d_mag (d_make s k) = k"
  using assms by (auto simp: d_make_def d_neg_def d_mag_def unat_word_ariths unat_of_nat)

lemma d_make_same [simp]: "d_make (d_neg d) (d_mag d) = d"
proof -
  have "unat d < 2 ^ 64" using unsigned_less [of d] by simp
  then have e: "d_mag d + (if d_neg d then 2 ^ 63 else 0) = unat d"
    by (auto simp: d_mag_def d_neg_def le_mod_geq)
  show ?thesis unfolding d_make_def e by simp
qed

lemma round_mag_le: "round_mag m e \<le> inf_mag"
  by (simp add: round_mag_def Let_def)

lemma inf_mag_less: "inf_mag < 2 ^ 63"
  by (simp add: inf_mag_def)

lemma d_round_fields [simp]:
  "d_neg (d_round s m e) = s" "d_mag (d_round s m e) = round_mag m e" "\<not> is_nan (d_round s m e)"
  using d_make_fields [OF le_less_trans [OF round_mag_le inf_mag_less], of s m e] round_mag_le [of m e]
  by (simp_all add: d_round_def is_nan_def)

lemma d_special_fields [simp]:
  "d_neg (d_zero s) = s" "d_mag (d_zero s) = 0" "d_neg (d_inf s) = s" "d_mag (d_inf s) = inf_mag"
  "is_nan d_nan" "\<not> d_neg d_nan" "\<not> is_nan (d_zero s)" "\<not> is_nan (d_inf s)"
  "is_inf (d_inf s)"
  using d_make_fields [of 0 s] d_make_fields [OF inf_mag_less, of s]
  by (simp_all add: d_zero_def d_inf_def is_nan_def is_inf_def) (simp_all add: d_nan_def d_mag_def d_neg_def inf_mag_def)

lemma d_uminus_fields [simp]:
  "d_neg (d_uminus a) \<longleftrightarrow> \<not> d_neg a" "d_mag (d_uminus a) = d_mag a"
  "is_nan (d_uminus a) = is_nan a" "is_inf (d_uminus a) = is_inf a"
  using d_make_fields [OF d_mag_less, of "\<not> d_neg a" a]
  by (simp_all add: d_uminus_def is_nan_def is_inf_def)

text \<open>NaN spreads through the arithmetic and satisfies no comparison.\<close>

lemma nan_arith [simp]:
  "is_nan a \<or> is_nan b \<Longrightarrow> d_add a b = d_nan" "is_nan a \<or> is_nan b \<Longrightarrow> d_sub a b = d_nan"
  "is_nan a \<or> is_nan b \<Longrightarrow> d_mul a b = d_nan" "is_nan a \<or> is_nan b \<Longrightarrow> d_div a b = d_nan"
  "is_nan a \<Longrightarrow> d_sqrt a = d_nan"
  "is_nan a \<or> is_nan b \<Longrightarrow> \<not> d_lt a b"
  by (auto simp: d_add_def d_sub_def d_mul_def d_div_def d_sqrt_def d_lt_def)

text \<open>\<open>d_ge0\<close>: not negative, or not a number.\<close>

definition d_ge0 :: "double \<Rightarrow> bool" where
  "d_ge0 a \<longleftrightarrow> is_nan a \<or> \<not> d_neg a"

lemma d_aligned_nonneg: "\<not> d_neg a \<Longrightarrow> 0 \<le> d_aligned e a"
  by (simp add: d_aligned_def)

lemma d_add_ge0: "d_ge0 a \<Longrightarrow> d_ge0 b \<Longrightarrow> d_ge0 (d_add a b)"
  using d_aligned_nonneg [of a] d_aligned_nonneg [of b]
  by (auto simp: d_ge0_def d_add_def Let_def not_less add_nonneg_nonneg)

lemma d_mul_ge0: "d_ge0 a \<Longrightarrow> d_ge0 b \<Longrightarrow> d_ge0 (d_mul a b)"
  by (auto simp: d_ge0_def d_mul_def Let_def)

lemma d_mul_neg: "d_neg (d_mul a b) \<Longrightarrow> d_neg a \<noteq> d_neg b"
  by (auto simp: d_mul_def Let_def split: if_splits)

lemma d_mul_square_ge0: "d_ge0 a \<Longrightarrow> d_ge0 (d_mul (d_mul a b) b)"
proof -
  assume a: "d_ge0 a"
  show ?thesis
  proof (cases "is_nan a \<or> is_nan b \<or> is_nan (d_mul a b)")
    case True
    then show ?thesis by (auto simp: d_ge0_def)
  next
    case False
    then have "d_neg (d_mul a b) \<longleftrightarrow> d_neg a \<noteq> d_neg b"
      by (auto simp: d_mul_def Let_def split: if_splits)
    moreover have "\<not> d_neg a" using a False by (simp add: d_ge0_def)
    ultimately show ?thesis using d_mul_neg [of "d_mul a b" b] by (auto simp: d_ge0_def)
  qed
qed

section \<open>The order\<close>

definition mag_fix :: "nat \<Rightarrow> nat" where
  "mag_fix k = mag_mant k * 2 ^ nat (mag_scale k + 1074)"

definition d_fix :: "double \<Rightarrow> int" where
  "d_fix a = (if d_neg a then - int (mag_fix (d_mag a)) else int (mag_fix (d_mag a)))"

lemma mag_fix_split:
  assumes "r < 2 ^ 52"
  shows "mag_fix (q * 2 ^ 52 + r) = (if q = 0 then r else (r + 2 ^ 52) * 2 ^ (q - 1))"
proof -
  have d: "(q * 2 ^ 52 + r) div 2 ^ 52 = q" "(q * 2 ^ 52 + r) mod 2 ^ 52 = r"
    using assms by simp_all
  have lt: "q * 2 ^ 52 + r < 2 ^ 52 \<longleftrightarrow> q = 0" using assms by (cases q) simp_all
  have "nat (int (max 1 q) - 1075 + 1074) = q - 1" by (cases q) simp_all
  then show ?thesis unfolding mag_fix_def mag_mant_def mag_scale_def lt d by (cases q) simp_all
qed

lemma mag_fix_Suc: "mag_fix k < mag_fix (Suc k)"
proof -
  define q r where "q = k div 2 ^ 52" and "r = k mod 2 ^ 52"
  have k: "k = q * 2 ^ 52 + r" "r < 2 ^ 52" by (simp_all add: q_def r_def)
  show ?thesis
  proof (cases "Suc r < 2 ^ 52")
    case True
    have "Suc k = q * 2 ^ 52 + Suc r" using k by simp
    then show ?thesis using mag_fix_split [OF k(2), of q] mag_fix_split [OF True, of q] k(1) by simp
  next
    case False
    then have r: "r = 2 ^ 52 - 1" using k(2) by simp
    have s: "Suc k = Suc q * 2 ^ 52 + 0" using k(1) r by simp
    have "mag_fix (Suc k) = 2 ^ 52 * 2 ^ q"
      unfolding s by (subst mag_fix_split) simp_all
    moreover have "mag_fix k = (if q = 0 then r else (r + 2 ^ 52) * 2 ^ (q - 1))"
      unfolding k(1) by (rule mag_fix_split [OF k(2)])
    moreover have "q \<noteq> 0 \<Longrightarrow> (2::nat) ^ q = 2 * 2 ^ (q - 1)" by (cases q) simp_all
    ultimately show ?thesis using r by (cases "q = 0") simp_all
  qed
qed

lemma mag_fix_mono: "mag_fix j < mag_fix k \<longleftrightarrow> j < k" "mag_fix j \<le> mag_fix k \<longleftrightarrow> j \<le> k"
proof -
  have "strict_mono mag_fix" by (simp add: strict_mono_Suc_iff mag_fix_Suc)
  then show "mag_fix j < mag_fix k \<longleftrightarrow> j < k" "mag_fix j \<le> mag_fix k \<longleftrightarrow> j \<le> k"
    by (simp_all add: strict_mono_less strict_mono_less_eq)
qed

lemma mag_fix_0: "mag_fix 0 = 0"
  using mag_fix_split [of 0 0] by simp

lemma d_key_fix: "d_key a \<le> d_key b \<longleftrightarrow> d_fix a \<le> d_fix b"
proof -
  have z: "mag_fix j = 0 \<longleftrightarrow> j = 0" for j
    using mag_fix_mono(2) [of j 0] by (simp add: mag_fix_0)
  have neg: "int j \<le> - int k \<longleftrightarrow> int (mag_fix j) \<le> - int (mag_fix k)" for j k
    using z [of j] z [of k] by linarith
  show ?thesis
    using mag_fix_mono(2) [of "d_mag a" "d_mag b"] mag_fix_mono(2) [of "d_mag b" "d_mag a"]
      neg [of "d_mag a" "d_mag b"]
    by (simp add: d_key_def d_fix_def)
qed

text \<open>The comparison of the code is the comparison of the exact values.\<close>

lemma d_le_fix: "d_le a b \<longleftrightarrow> \<not> is_nan a \<and> \<not> is_nan b \<and> d_fix a \<le> d_fix b"
  by (simp add: d_le_def d_key_fix)

lemma d_lt_fix: "d_lt a b \<longleftrightarrow> \<not> is_nan a \<and> \<not> is_nan b \<and> d_fix a < d_fix b"
  using d_key_fix [of b a] by (auto simp: d_lt_def)

lemma d_lt_not_le: "\<not> is_nan a \<Longrightarrow> \<not> is_nan b \<Longrightarrow> d_lt a b \<longleftrightarrow> \<not> d_le b a"
  by (auto simp: d_lt_fix d_le_fix)


section \<open>Rounding respects the order\<close>

lemma bit_length_bounds: "0 < n \<Longrightarrow> n < 2 ^ bit_length n \<and> 2 ^ (bit_length n - 1) \<le> n"
proof (induction n rule: bit_length.induct)
  case (1 n)
  show ?case
  proof (cases "n div 2 = 0")
    case True
    then have "n = 1" using 1(2) by simp
    then show ?thesis by (simp add: bit_length.simps)
  next
    case False
    then have ih: "n div 2 < 2 ^ bit_length (n div 2)" "2 ^ (bit_length (n div 2) - 1) \<le> n div 2"
      using 1 by simp_all
    have "bit_length n = Suc (bit_length (n div 2))" using 1(2) by (subst bit_length.simps) simp
    moreover obtain l where "bit_length (n div 2) = Suc l"
      using False by (cases "bit_length (n div 2)") (use ih in simp_all)
    ultimately show ?thesis using ih by simp linarith
  qed
qed

lemma bit_length_unique: "0 < n \<Longrightarrow> 2 ^ l \<le> n \<Longrightarrow> n < 2 ^ Suc l \<Longrightarrow> bit_length n = Suc l"
proof -
  assume n: "0 < n" "2 ^ l \<le> n" "n < 2 ^ Suc l"
  note b = bit_length_bounds [OF n(1)]
  have "l < bit_length n"
    using power_less_imp_less_exp [OF _ le_less_trans [OF n(2) conjunct1 [OF b]]] by simp
  moreover have "bit_length n - 1 < Suc l"
    using power_less_imp_less_exp [OF _ le_less_trans [OF conjunct2 [OF b] n(3)]] by simp
  ultimately show ?thesis by simp
qed

lemma bit_length_shift: "0 < m \<Longrightarrow> bit_length (m * 2 ^ k) = bit_length m + k"
proof -
  assume m: "0 < m"
  obtain l where l: "bit_length m = Suc l"
    using bit_length_bounds [OF m] m by (cases "bit_length m") auto
  have "2 ^ l \<le> m" "m < 2 ^ Suc l" using bit_length_bounds [OF m] l by simp_all
  then have "2 ^ (l + k) \<le> m * 2 ^ k" "m * 2 ^ k < 2 ^ Suc (l + k)"
    by (simp_all add: power_add)
  then have "bit_length (m * 2 ^ k) = Suc (l + k)" using m by (intro bit_length_unique) simp_all
  then show ?thesis using l by simp
qed

definition rnd_nat :: "nat \<Rightarrow> nat \<Rightarrow> nat" where
  "rnd_nat n p = (let t = n div 2 ^ p; r = n mod 2 ^ p
     in if 2 ^ p < 2 * r \<or> 2 ^ p = 2 * r \<and> odd t then t + 1 else t)"

text \<open>For results of additions the rounded value is a whole number \<open>n\<close> of units.\<close>

lemma round_mag_nat:
  assumes "0 < m" "n = m * 2 ^ k"
  shows "round_mag m (int k - 1074) =
    min inf_mag ((bit_length n - 53) * 2 ^ 52 + rnd_nat n (bit_length n - 53))"
proof -
  define p where "p = bit_length n - 53"
  define q where "q = max (int k - 1074 + int (bit_length m) - 53) (- 1074)"
  have m0: "m \<noteq> 0" using assms(1) by simp
  have bl: "bit_length n = bit_length m + k" using bit_length_shift [OF assms(1)] assms(2) by simp
  have q: "nat (q + 1074) = p" "q = int p - 1074" by (auto simp: q_def p_def bl max_def)
  have qe: "q \<le> int k - 1074 \<longleftrightarrow> p \<le> k" by (simp add: q)
  have "(if p \<le> k then m * 2 ^ (k - p)
     else (let d = 2 ^ (p - k); t = m div d; r = m mod d
           in if d < 2 * r \<or> d = 2 * r \<and> odd t then t + 1 else t)) = rnd_nat n p"
  proof (cases "p \<le> k")
    case True
    then have "n = m * 2 ^ (k - p) * 2 ^ p" by (simp add: assms(2) power_add [symmetric])
    then have "n div 2 ^ p = m * 2 ^ (k - p)" "n mod 2 ^ p = 0" by simp_all
    then show ?thesis using True by (simp add: rnd_nat_def)
  next
    case False
    then have p: "(2::nat) ^ p = 2 ^ (p - k) * 2 ^ k" by (simp add: power_add [symmetric])
    have "n div 2 ^ p = m div 2 ^ (p - k)" "n mod 2 ^ p = m mod 2 ^ (p - k) * 2 ^ k"
      unfolding p assms(2) by (simp_all add: mult_mod_left [symmetric])
    moreover have "2 ^ (p - k) * 2 ^ k < 2 * (r * 2 ^ k) \<longleftrightarrow> 2 ^ (p - k) < 2 * r"
      "2 ^ (p - k) * 2 ^ k = 2 * (r * 2 ^ k) \<longleftrightarrow> 2 ^ (p - k) = 2 * r" for r :: nat
    proof -
      have e: "2 * (r * 2 ^ k) = 2 * r * 2 ^ k" by simp
      show "2 ^ (p - k) * 2 ^ k < 2 * (r * 2 ^ k) \<longleftrightarrow> 2 ^ (p - k) < 2 * r"
        "2 ^ (p - k) * 2 ^ k = 2 * (r * 2 ^ k) \<longleftrightarrow> 2 ^ (p - k) = 2 * r"
        unfolding e by (simp_all only: mult_less_cancel2 mult_cancel2) simp_all
    qed
    ultimately show ?thesis using False by (simp add: rnd_nat_def Let_def p)
  qed
  moreover have ex: "nat (int k - 1074 - q) = k - p" "nat (q - (int k - 1074)) = p - k"
    by (simp_all add: q)
  ultimately have "(if q \<le> int k - 1074 then m * 2 ^ nat (int k - 1074 - q)
     else (let d = 2 ^ nat (q - (int k - 1074)); t = m div d; r = m mod d
           in if d < 2 * r \<or> d = 2 * r \<and> odd t then t + 1 else t)) = rnd_nat n p"
    by (simp only: qe ex)
  moreover have "round_mag m (int k - 1074) = min inf_mag (nat (q + 1074) * 2 ^ 52 +
     (if q \<le> int k - 1074 then m * 2 ^ nat (int k - 1074 - q)
     else (let d = 2 ^ nat (q - (int k - 1074)); t = m div d; r = m mod d
           in if d < 2 * r \<or> d = 2 * r \<and> odd t then t + 1 else t)))"
    using m0 by (simp only: round_mag_def q_def Let_def if_False)
  ultimately show ?thesis by (simp only: q(1) p_def [symmetric])
qed

lemma mag_fix_repr:
  assumes "t \<le> 2 ^ 53" "p = 0 \<or> 2 ^ 52 \<le> t"
  shows "mag_fix (p * 2 ^ 52 + t) = t * 2 ^ p"
proof -
  consider "t < 2 ^ 52" "p = 0" | "2 ^ 52 \<le> t" "t < 2 ^ 53" | "t = 2 ^ 53" using assms by linarith
  then show ?thesis
  proof cases
    case 1
    then show ?thesis using mag_fix_split [of t 0] by simp
  next
    case 2
    then have "p * 2 ^ 52 + t = Suc p * 2 ^ 52 + (t - 2 ^ 52)" "t - 2 ^ 52 < 2 ^ 52" by simp_all
    then show ?thesis using mag_fix_split [of "t - 2 ^ 52" "Suc p"] 2 by simp
  next
    case 3
    then have "p * 2 ^ 52 + t = Suc (Suc p) * 2 ^ 52 + 0" by simp
    then show ?thesis using mag_fix_split [of 0 "Suc (Suc p)"] 3 by (simp add: add.commute)
  qed
qed

lemma round_mag_bounds:
  assumes "0 < m" "n = m * 2 ^ k"
  shows "n \<le> mag_fix j \<Longrightarrow> round_mag m (int k - 1074) \<le> j"
    "mag_fix j \<le> n \<Longrightarrow> j \<le> inf_mag \<Longrightarrow> j \<le> round_mag m (int k - 1074)"
proof -
  have n: "0 < n" using assms by simp
  define p where "p = bit_length n - 53"
  define t where "t = n div 2 ^ p"
  have bl: "n < 2 ^ bit_length n" "2 ^ (bit_length n - 1) \<le> n"
    using bit_length_bounds [OF n] by simp_all
  have "n < 2 ^ (53 + p)"
    using bl(1) by (rule less_le_trans) (simp add: p_def)
  then have t: "t < 2 ^ 53" by (simp add: t_def power_add less_mult_imp_div_less)
  have pt: "p = 0 \<or> 2 ^ 52 \<le> t"
  proof (cases "p = 0")
    case False
    then have "bit_length n - 1 = 52 + p" by (simp add: p_def)
    then have "(2::nat) ^ (bit_length n - 1) = 2 ^ 52 * 2 ^ p" by (simp only: power_add)
    with bl(2) have "2 ^ 52 * 2 ^ p \<le> n" by simp
    then have "2 ^ 52 * 2 ^ p div 2 ^ p \<le> t" unfolding t_def by (rule div_le_mono)
    then show ?thesis by simp
  qed simp
  have lo: "mag_fix (p * 2 ^ 52 + t) = t * 2 ^ p" using t pt by (intro mag_fix_repr) simp_all
  have hi: "mag_fix (p * 2 ^ 52 + (t + 1)) = (t + 1) * 2 ^ p" using t pt by (intro mag_fix_repr) auto
  have nt: "n = t * 2 ^ p + n mod 2 ^ p" unfolding t_def by (rule div_mult_mod_eq [symmetric])
  have md: "n mod 2 ^ p < 2 ^ p" by simp
  have r: "round_mag m (int k - 1074) = min inf_mag (p * 2 ^ 52 + rnd_nat n p)"
    unfolding p_def by (rule round_mag_nat [OF assms])
  have rnd: "rnd_nat n p = t \<or> rnd_nat n p = t + 1 \<and> 0 < n mod 2 ^ p"
    by (auto simp: rnd_nat_def t_def Let_def intro!: gr0I)
  show "round_mag m (int k - 1074) \<le> j" if "n \<le> mag_fix j"
  proof -
    have "p * 2 ^ 52 + rnd_nat n p \<le> j"
      using rnd
    proof
      assume e: "rnd_nat n p = t"
      have "mag_fix (p * 2 ^ 52 + t) \<le> mag_fix j" using lo nt that by linarith
      then show ?thesis by (simp only: e mag_fix_mono)
    next
      assume e: "rnd_nat n p = t + 1 \<and> 0 < n mod 2 ^ p"
      then have "mag_fix (p * 2 ^ 52 + t) < mag_fix j" using lo nt that by linarith
      then show ?thesis using e by (simp add: mag_fix_mono)
    qed
    then show ?thesis by (simp add: r)
  qed
  show "j \<le> round_mag m (int k - 1074)" if "mag_fix j \<le> n" "j \<le> inf_mag"
  proof -
    have "(t + 1) * 2 ^ p = t * 2 ^ p + 2 ^ p" by simp
    then have "mag_fix j < mag_fix (p * 2 ^ 52 + (t + 1))" using hi nt md that(1) by linarith
    then have "j \<le> p * 2 ^ 52 + t" by (simp add: mag_fix_mono)
    then show ?thesis using rnd that(2) by (auto simp: r)
  qed
qed


text \<open>A rounded sum lies on the same side of a double as the exact sum.\<close>

definition is_finite :: "double \<Rightarrow> bool" where
  "is_finite d \<longleftrightarrow> d_mag d < inf_mag"

lemma finite_not [simp]: "is_finite d \<Longrightarrow> \<not> is_nan d" "is_finite d \<Longrightarrow> \<not> is_inf d"
  by (simp_all add: is_finite_def is_nan_def is_inf_def)

lemma mag_scale_ge: "- 1074 \<le> mag_scale k"
  by (simp add: mag_scale_def)

lemma d_aligned_fix:
  assumes "- 1074 \<le> e" "e \<le> mag_scale (d_mag a)"
  shows "d_fix a = d_aligned e a * 2 ^ nat (e + 1074)"
proof -
  have "nat (mag_scale (d_mag a) + 1074) = nat (mag_scale (d_mag a) - e) + nat (e + 1074)"
    using assms by linarith
  then have "mag_fix (d_mag a) = mag_mant (d_mag a) * 2 ^ nat (mag_scale (d_mag a) - e) * 2 ^ nat (e + 1074)"
    by (simp add: mag_fix_def power_add)
  then show ?thesis by (simp add: d_fix_def d_aligned_def)
qed

lemma zero_fix: "is_zero a \<longleftrightarrow> d_fix a = 0"
proof -
  have "mag_fix j = 0 \<longleftrightarrow> j = 0" for j
    using mag_fix_mono(2) [of j 0] by (simp add: mag_fix_0)
  then show ?thesis by (auto simp: is_zero_def d_fix_def)
qed

lemma d_add_finite:
  assumes "is_finite a" "is_finite b"
  obtains (exact) "d_fix (d_add a b) = d_fix a + d_fix b" "\<not> is_nan (d_add a b)"
  | (round) m k where "0 < m" "nat \<bar>d_fix a + d_fix b\<bar> = m * 2 ^ k" "d_fix a + d_fix b \<noteq> 0"
      "d_add a b = d_round (d_fix a + d_fix b < 0) m (int k - 1074)"
proof (cases "is_zero a \<noteq> is_zero b")
  case True
  then have "d_add a b = (if is_zero a then b else a)"
    using assms by (auto simp: d_add_def)
  then show thesis using True assms by (intro exact) (auto simp: zero_fix)
next
  case zeros: False
  define e where "e = min (mag_scale (d_mag a)) (mag_scale (d_mag b))"
  define v where "v = d_aligned e a + d_aligned e b"
  define k where "k = nat (e + 1074)"
  have lo: "- 1074 \<le> e" using mag_scale_ge [of "d_mag a"] mag_scale_ge [of "d_mag b"]
    by (simp add: e_def)
  then have "e = int k - 1074" by (simp add: k_def)
  note e = lo this
  have sum: "d_fix a + d_fix b = v * 2 ^ k"
    using d_aligned_fix [OF e(1), of a] d_aligned_fix [OF e(1), of b]
    by (simp add: v_def k_def e_def algebra_simps)
  have add: "d_add a b = (if v = 0 then d_zero (d_neg a \<and> d_neg b) else d_round (v < 0) (nat \<bar>v\<bar>) e)"
    using assms zeros by (simp add: d_add_def Let_def e_def v_def)
  show thesis
  proof (cases "v = 0")
    case True
    then show thesis using exact add sum by (simp add: d_fix_def mag_fix_0)
  next
    case False
    have "nat \<bar>d_fix a + d_fix b\<bar> = nat \<bar>v\<bar> * 2 ^ k"
      by (simp add: sum abs_mult nat_mult_distrib nat_power_eq)
    moreover have "d_fix a + d_fix b < 0 \<longleftrightarrow> v < 0" by (simp add: sum mult_less_0_iff)
    ultimately show thesis using False add sum e(2) by (intro round [of "nat \<bar>v\<bar>" k]) simp_all
  qed
qed

lemma d_key_mono_mag:
  "\<not> s \<Longrightarrow> k < 2 ^ 63 \<Longrightarrow> d_key (d_make s k) = int k" "s \<Longrightarrow> k < 2 ^ 63 \<Longrightarrow> d_key (d_make s k) = - int k"
  by (simp_all add: d_key_def d_make_fields)

lemma d_fix_sign: "d_fix a \<le> 0 \<longleftrightarrow> d_key a \<le> 0" "0 \<le> d_fix a \<longleftrightarrow> 0 \<le> d_key a"
proof -
  have z: "mag_fix j = 0 \<longleftrightarrow> j = 0" for j
    using mag_fix_mono(2) [of j 0] by (simp add: mag_fix_0)
  show "d_fix a \<le> 0 \<longleftrightarrow> d_key a \<le> 0" "0 \<le> d_fix a \<longleftrightarrow> 0 \<le> d_key a"
    using z [of "d_mag a"] by (auto simp: d_fix_def d_key_def)
qed

lemma d_add_not_nan: "is_finite a \<Longrightarrow> is_finite b \<Longrightarrow> \<not> is_nan (d_add a b)"
  by (erule (1) d_add_finite) simp_all

lemma d_add_le:
  assumes "is_finite a" "is_finite b" "\<not> is_nan c" "d_fix a + d_fix b \<le> d_fix c"
  shows "d_le (d_add a b) c"
proof -
  have cm: "d_mag c \<le> inf_mag" using assms(3) by (simp add: is_nan_def)
  have "d_key (d_add a b) \<le> d_key c"
    using assms(1,2)
  proof (cases rule: d_add_finite)
    case exact
    then show ?thesis using assms(4) by (simp add: d_key_fix)
  next
    case (round m k)
    define n where "n = m * 2 ^ k"
    have key: "d_key (d_add a b) = (if d_fix a + d_fix b < 0 then - 1 else 1) * int (round_mag m (int k - 1074))"
      by (simp add: round(4) d_key_def)
    show ?thesis
    proof (cases "d_fix a + d_fix b < 0")
      case False
      then have "0 < d_fix c" using round(3) assms(4) by linarith
      then have c: "\<not> d_neg c" "d_fix c = int (mag_fix (d_mag c))"
        by (auto simp: d_fix_def split: if_splits)
      have "n \<le> mag_fix (d_mag c)" using assms(4) round(2) c(2) False by (simp add: n_def)
      then have "round_mag m (int k - 1074) \<le> d_mag c"
        by (rule round_mag_bounds(1) [OF round(1) n_def])
      then show ?thesis using False c(1) unfolding key by (simp add: d_key_def)
    next
      case True
      show ?thesis
      proof (cases "d_fix c < 0")
        case False
        then show ?thesis using True d_fix_sign(2) [of c] by (simp add: key)
      next
        case neg: True
        then have c: "d_neg c" "d_fix c = - int (mag_fix (d_mag c))"
          by (auto simp: d_fix_def split: if_splits)
        have "mag_fix (d_mag c) \<le> n" using assms(4) round(2) c(2) True by (simp add: n_def)
        then have "d_mag c \<le> round_mag m (int k - 1074)"
          using cm by (rule round_mag_bounds(2) [OF round(1) n_def])
        then show ?thesis using True c(1) unfolding key by (simp add: d_key_def)
      qed
    qed
  qed
  then show ?thesis using assms(3) d_add_not_nan [OF assms(1,2)] by (simp add: d_le_def)
qed


lemma d_add_ge:
  assumes "is_finite a" "is_finite b" "\<not> is_nan c" "d_fix c \<le> d_fix a + d_fix b"
  shows "d_le c (d_add a b)"
proof -
  have cm: "d_mag c \<le> inf_mag" using assms(3) by (simp add: is_nan_def)
  have "d_key c \<le> d_key (d_add a b)"
    using assms(1,2)
  proof (cases rule: d_add_finite)
    case exact
    then show ?thesis using assms(4) by (simp add: d_key_fix)
  next
    case (round m k)
    define n where "n = m * 2 ^ k"
    have key: "d_key (d_add a b) = (if d_fix a + d_fix b < 0 then - 1 else 1) * int (round_mag m (int k - 1074))"
      by (simp add: round(4) d_key_def)
    show ?thesis
    proof (cases "d_fix a + d_fix b < 0")
      case True
      then have "d_fix c < 0" using assms(4) by linarith
      then have c: "d_neg c" "d_fix c = - int (mag_fix (d_mag c))"
        by (auto simp: d_fix_def split: if_splits)
      have "n \<le> mag_fix (d_mag c)" using assms(4) round(2) c(2) True by (simp add: n_def)
      then have "round_mag m (int k - 1074) \<le> d_mag c"
        by (rule round_mag_bounds(1) [OF round(1) n_def])
      then show ?thesis using True c(1) unfolding key by (simp add: d_key_def)
    next
      case False
      show ?thesis
      proof (cases "0 < d_fix c")
        case neg: False
        then show ?thesis using False d_fix_sign(1) [of c] by (simp add: key)
      next
        case True
        then have c: "\<not> d_neg c" "d_fix c = int (mag_fix (d_mag c))"
          by (auto simp: d_fix_def split: if_splits)
        have "mag_fix (d_mag c) \<le> n" using assms(4) round(2) c(2) False by (simp add: n_def)
        then have "d_mag c \<le> round_mag m (int k - 1074)"
          using cm by (rule round_mag_bounds(2) [OF round(1) n_def])
        then show ?thesis using False c(1) unfolding key by (simp add: d_key_def)
      qed
    qed
  qed
  then show ?thesis using assms(3) d_add_not_nan [OF assms(1,2)] by (simp add: d_le_def)
qed

lemma d_le_finite: "is_finite a \<Longrightarrow> is_finite c \<Longrightarrow> d_le a b \<Longrightarrow> d_le b c \<Longrightarrow> is_finite b"
  by (auto simp: d_le_def d_key_def is_finite_def split: if_splits)

lemma d_le_trans: "d_le a b \<Longrightarrow> d_le b c \<Longrightarrow> d_le a c"
  by (simp add: d_le_def)

lemma finite_zero [simp]: "is_finite 0" "d_fix 0 = 0" "\<not> is_nan 0" "d_key 0 = 0"
    "\<not> d_neg 0" "d_mag 0 = 0"
  by (simp_all add: is_finite_def inf_mag_def d_fix_def d_mag_def d_neg_def mag_fix_0 is_nan_def d_key_def)

lemma d_fix_uminus [simp]: "d_fix (d_uminus a) = - d_fix a"
  by (simp add: d_fix_def)

lemma finite_uminus [simp]: "is_finite (d_uminus a) = is_finite a"
  by (simp add: is_finite_def)

lemma d_fmax_zero: "d_le 0 (d_fmax 0 x)" "\<not> is_nan (d_fmax 0 x)"
  by (auto simp: d_fmax_def d_le_def d_lt_def)

lemma d_fmin_zero: "d_le (d_fmin 0 x) 0" "\<not> is_nan (d_fmin 0 x)"
  by (auto simp: d_fmin_def d_le_def d_lt_def)

text \<open>Square roots and quotients of numbers.\<close>

lemma round_mag_pos:
  assumes "0 < m" "- 1074 \<le> e"
  shows "0 < round_mag m e"
proof -
  have "0 < nat (q + 1074) * 2 ^ 52 + (if q \<le> e then m * 2 ^ nat (e - q) else x)"
    if "- 1074 \<le> q" "\<not> q \<le> e \<Longrightarrow> - 1074 < q" for q and x :: nat
    using that assms by auto
  then show ?thesis
    using assms unfolding round_mag_def Let_def by (auto simp: inf_mag_def)
qed

lemma nat_sqrt_pos: "0 < n \<Longrightarrow> 0 < nat_sqrt n"
proof (induction n rule: nat_sqrt.induct)
  case (1 n)
  show ?case
  proof (cases "n div 4 = 0")
    case True
    then show ?thesis using 1(2) by (subst nat_sqrt.simps) (simp add: nat_sqrt.simps [of 0] Let_def)
  next
    case False
    then have "0 < nat_sqrt (n div 4)" using 1 by simp
    then show ?thesis using 1(2) by (subst nat_sqrt.simps) (simp add: Let_def)
  qed
qed

lemma nat_sqrt_le: "nat_sqrt n * nat_sqrt n \<le> n"
proof (induction n rule: nat_sqrt.induct)
  case (1 n)
  show ?case
  proof (cases "n = 0")
    case False
    then have ih: "nat_sqrt (n div 4) * nat_sqrt (n div 4) \<le> n div 4" using 1 by simp
    have "4 * (nat_sqrt (n div 4) * nat_sqrt (n div 4)) \<le> 4 * (n div 4)" using ih by linarith
    also have "4 * (n div 4) \<le> n" by (simp add: mult.commute)
    finally show ?thesis using False by (subst (1 2) nat_sqrt.simps) (simp add: Let_def)
  qed (simp add: nat_sqrt.simps)
qed

lemma nat_sqrt_ge: "n < (nat_sqrt n + 1) * (nat_sqrt n + 1)"
proof (induction n rule: nat_sqrt.induct)
  case (1 n)
  show ?case
  proof (cases "n = 0")
    case False
    define r where "r = nat_sqrt (n div 4)"
    have "n div 4 + 1 \<le> (r + 1) * (r + 1)" using 1 False by (simp add: r_def)
    then have "4 * (n div 4 + 1) \<le> 4 * ((r + 1) * (r + 1))" by (rule mult_le_mono2)
    moreover have "n < 4 * (n div 4 + 1)" by (simp add: mult.commute)
    moreover have "4 * ((r + 1) * (r + 1)) = (2 * r + 1 + 1) * (2 * r + 1 + 1)" by (simp add: algebra_simps)
    ultimately have "n < (2 * r + 1 + 1) * (2 * r + 1 + 1)" by linarith
    then show ?thesis using False by (subst (1 2) nat_sqrt.simps) (simp add: Let_def r_def)
  qed (simp add: nat_sqrt.simps)
qed

lemma nat_sqrt_unique: "r * r \<le> n \<Longrightarrow> n < (r + 1) * (r + 1) \<Longrightarrow> nat_sqrt n = r"
proof -
  assume r: "r * r \<le> n" "n < (r + 1) * (r + 1)"
  have "r * r < (nat_sqrt n + 1) * (nat_sqrt n + 1)" using r(1) nat_sqrt_ge [of n] by linarith
  then have "r < nat_sqrt n + 1" using mult_le_mono [of "nat_sqrt n + 1" r "nat_sqrt n + 1" r] by linarith
  moreover have "nat_sqrt n * nat_sqrt n < (r + 1) * (r + 1)" using r(2) nat_sqrt_le [of n] by linarith
  then have "nat_sqrt n < r + 1" using mult_le_mono [of "r + 1" "nat_sqrt n" "r + 1" "nat_sqrt n"] by linarith
  ultimately show ?thesis by linarith
qed

lemma mag_mant_0: "mag_mant k = 0 \<longleftrightarrow> k = 0"
  by (simp add: mag_mant_def)

lemma mag_mant_less: "mag_mant k < 2 ^ 53"
  using mod_less_divisor [of "2 ^ 52" k] by (auto simp: mag_mant_def)

lemma mag_scale_le: "k < inf_mag \<Longrightarrow> mag_scale k \<le> 971"
proof -
  assume "k < inf_mag"
  then have "k div 2 ^ 52 < 2047" by (simp add: inf_mag_def less_mult_imp_div_less)
  then show ?thesis by (simp add: mag_scale_def)
qed

lemma bit_length_le: "m < 2 ^ b \<Longrightarrow> bit_length m \<le> b"
proof (cases "m = 0")
  case False
  assume m: "m < 2 ^ b"
  have "2 ^ (bit_length m - 1) \<le> m" using bit_length_bounds [of m] False by simp
  then have "(2::nat) ^ (bit_length m - 1) < 2 ^ b" using m by (rule le_less_trans)
  then have "bit_length m - 1 < b" by (rule power_less_imp_less_exp [rotated]) simp
  then show ?thesis by simp
qed simp

lemma round_mag_finite:
  assumes "m < 2 ^ b" "e + int b \<le> 1000"
  shows "round_mag m e < inf_mag"
proof (cases "m = 0")
  case False
  define q where "q = max (e + int (bit_length m) - 53) (- 1074)"
  have bl: "bit_length m \<le> b" by (rule bit_length_le [OF assms(1)])
  have mb: "m < 2 ^ bit_length m" using bit_length_bounds [of m] False by simp
  have mant: "(if q \<le> e then m * 2 ^ nat (e - q)
      else (let d = 2 ^ nat (q - e); t = m div d; r = m mod d
            in if d < 2 * r \<or> d = 2 * r \<and> odd t then t + 1 else t)) \<le> 2 ^ 53"
  proof (cases "q \<le> e")
    case True
    have "m * 2 ^ nat (e - q) \<le> 2 ^ bit_length m * 2 ^ nat (e - q)" using mb by simp
    also have "\<dots> = 2 ^ (bit_length m + nat (e - q))" by (simp add: power_add)
    also have "\<dots> \<le> 2 ^ 53"
    proof (rule power_increasing)
      have "int (bit_length m) + (e - q) \<le> 53" unfolding q_def by linarith
      then show "bit_length m + nat (e - q) \<le> 53" using True by linarith
    qed simp
    finally show ?thesis using True by simp
  next
    case False
    have "(2::nat) ^ bit_length m \<le> 2 ^ (53 + nat (q - e))"
      using False by (intro power_increasing) (simp_all add: q_def)
    with mb have "m < 2 ^ 53 * 2 ^ nat (q - e)" by (simp add: power_add)
    then have "m div 2 ^ nat (q - e) < 2 ^ 53" by (simp add: less_mult_imp_div_less)
    then show ?thesis using False by (simp add: Let_def)
  qed
  have "q \<le> 947" using bl assms(2) by (simp add: q_def)
  then have "nat (q + 1074) * 2 ^ 52 \<le> 2021 * 2 ^ 52" by simp
  with mant show ?thesis
    using False unfolding round_mag_def q_def [symmetric] Let_def inf_mag_def by (simp del: nat_le_iff)
qed (simp add: round_mag_def inf_mag_def)

lemma d_sqrt_pos:
  assumes "is_finite a" "\<not> d_neg a" "\<not> is_zero a"
  shows "is_finite (d_sqrt a)" "\<not> is_zero (d_sqrt a)" "\<not> d_neg (d_sqrt a)"
proof -
  define e where "e = mag_scale (d_mag a)"
  define m where "m = mag_mant (d_mag a) * 2 ^ 120 * (if even e then 1 else 2)"
  define r where "r = nat_sqrt m"
  define f where "f = (e - (if even e then 0 else 1) - 120) div 2 - 1"
  have eq: "d_sqrt a = d_round False (2 * r + (if r * r = m then 0 else 1)) f"
    using assms by (simp add: d_sqrt_def Let_def e_def m_def r_def f_def)
  have "0 < m" using assms(3) mag_mant_0 [of "d_mag a"] by (auto simp: m_def is_zero_def)
  then have r: "0 < r" unfolding r_def by (rule nat_sqrt_pos)
  have e: "- 1074 \<le> e" "e \<le> 971"
    using mag_scale_ge [of "d_mag a"] mag_scale_le [of "d_mag a"] assms(1)
    by (simp_all add: e_def is_finite_def)
  then have f: "- 1074 \<le> f" "f \<le> 500" unfolding f_def by (cases "even e"; simp; linarith)+
  have "m < 2 ^ 174" using mag_mant_less [of "d_mag a"] by (auto simp: m_def)
  moreover have "r \<le> m" using nat_sqrt_le [of m] r unfolding r_def [symmetric]
    by (metis le_square order_trans)
  ultimately have "2 * r + (if r * r = m then 0 else 1) < 2 ^ 176" by auto
  then have "round_mag (2 * r + (if r * r = m then 0 else 1)) f < inf_mag"
    using f(2) by (intro round_mag_finite [where b = 176]) simp_all
  moreover have "0 < round_mag (2 * r + (if r * r = m then 0 else 1)) f"
    using r f(1) by (intro round_mag_pos) simp_all
  ultimately show "is_finite (d_sqrt a)" "\<not> is_zero (d_sqrt a)" "\<not> d_neg (d_sqrt a)"
    by (simp_all add: eq is_zero_def is_finite_def)
qed

lemma d_div_not_nan:
  "\<not> is_nan a \<Longrightarrow> \<not> is_nan b \<Longrightarrow> \<not> is_inf b \<Longrightarrow> \<not> is_zero b \<Longrightarrow> \<not> is_nan (d_div a b)"
  by (simp add: d_div_def Let_def)

end
