(* ===== verification/Text_Input.thy ===== *)
theory Text_Input
  imports Rfc3339 Ieee_Double
begin

text \<open>
  The text functions of the C++ and C standard libraries the parsers use: \<open>std::getline\<close> over a whole
  file, \<open>std::string\<close> searches and trimming, \<open>std::from_chars\<close> for integers and \<open>std::strtod\<close> in the C locale.
  A function that reports how far it read returns the rest of its input.
\<close>

section \<open>Lines and tokens\<close>

text \<open>The lines a \<open>while (std::getline(in, line))\<close> loop sees: the text after the last newline counts
  only when it is not empty.\<close>

fun lines_of :: "string \<Rightarrow> string list" where
  "lines_of [] = []"
| "lines_of (c # s) =
     (if c = CHR 0x0A then [] # lines_of s
      else (case lines_of s of
              [] \<Rightarrow> [[c]]
            | l # ls \<Rightarrow> (c # l) # ls))"

text \<open>\<open>split_at c s\<close>: the text before and after the first \<open>c\<close>, as \<open>find\<close> and \<open>substr\<close> give it.\<close>

fun split_at :: "char \<Rightarrow> string \<Rightarrow> (string \<times> string) option" where
  "split_at c [] = None"
| "split_at c (x # s) = (if x = c then Some ([], s) else map_option (apfst (Cons x)) (split_at c s))"

definition is_blank :: "char \<Rightarrow> bool" where
  "is_blank c \<longleftrightarrow> c \<in> set [CHR 0x20, CHR 0x09, CHR 0x0D, CHR 0x0A]"

definition trim :: "string \<Rightarrow> string" where
  "trim s = rev (dropWhile is_blank (rev (dropWhile is_blank s)))"

section \<open>Integers\<close>

text \<open>\<open>std::from_chars\<close> for an unsigned and a signed integer below the given bound; None for any error.\<close>

definition from_chars_nat :: "nat \<Rightarrow> string \<Rightarrow> (nat \<times> string) option" where
  "from_chars_nat bound s =
     (let ds = takeWhile is_digit s; v = nat (digits_value 0 ds)
      in if ds = [] \<or> v \<ge> bound then None else Some (v, dropWhile is_digit s))"

definition from_chars_u32 :: "string \<Rightarrow> (u32 \<times> string) option" where
  "from_chars_u32 s = map_option (apfst of_nat) (from_chars_nat (2 ^ 32) s)"

definition from_chars_i64 :: "string \<Rightarrow> (u64 \<times> string) option" where
  "from_chars_i64 s =
     (case s of
        c # s' \<Rightarrow>
          if c = CHR ''-''
          then map_option (apfst (\<lambda>v. word_of_int (- int v))) (from_chars_nat (2 ^ 63 + 1) s')
          else map_option (apfst of_nat) (from_chars_nat (2 ^ 63) s)
      | [] \<Rightarrow> None)"

section \<open>strtod\<close>

definition is_space :: "char \<Rightarrow> bool" where
  "is_space c \<longleftrightarrow> c = CHR 0x20 \<or> 9 \<le> (of_char c :: nat) \<and> (of_char c :: nat) \<le> 13"

definition to_lower :: "char \<Rightarrow> char" where
  "to_lower c = (if 65 \<le> (of_char c :: nat) \<and> (of_char c :: nat) \<le> 90 then char_of (of_char c + (32 :: nat)) else c)"

definition hex_value :: "char \<Rightarrow> int option" where
  "hex_value c =
     (let n = (of_char (to_lower c) :: nat)
      in if is_digit c then Some (digit_value c)
         else if 97 \<le> n \<and> n \<le> 102 then Some (int n - 87) else None)"

definition is_hex :: "char \<Rightarrow> bool" where
  "is_hex c \<longleftrightarrow> hex_value c \<noteq> None"

text \<open>Strip a prefix given in lower case, ignoring the case of the text.\<close>

fun strip_nocase :: "string \<Rightarrow> string \<Rightarrow> string option" where
  "strip_nocase [] s = Some s"
| "strip_nocase (p # ps) [] = None"
| "strip_nocase (p # ps) (c # s) = (if to_lower c = p then strip_nocase ps s else None)"

definition scan_sign :: "string \<Rightarrow> bool \<times> string" where
  "scan_sign s =
     (case s of
        c # s' \<Rightarrow> if c = CHR ''-'' then (True, s') else if c = CHR ''+'' then (False, s') else (False, s)
      | [] \<Rightarrow> (False, s))"

text \<open>Digits with at most one point: the digits before it, those after it, and the rest.\<close>

definition scan_digits :: "(char \<Rightarrow> bool) \<Rightarrow> string \<Rightarrow> string \<times> string \<times> string" where
  "scan_digits p s =
     (let ip = takeWhile p s; r = dropWhile p s
      in case r of
           c # r' \<Rightarrow> if c = CHR ''.'' then (ip, takeWhile p r', dropWhile p r') else (ip, [], r)
         | [] \<Rightarrow> (ip, [], r))"

text \<open>An optional exponent: when no digit follows the mark, nothing of it is read.\<close>

definition scan_exponent :: "char \<Rightarrow> string \<Rightarrow> int \<times> string" where
  "scan_exponent mark s =
     (case s of
        c # s' \<Rightarrow>
          if to_lower c = mark
          then (let (neg, r) = scan_sign s'; ds = takeWhile is_digit r
                in if ds = [] then (0, s)
                   else ((if neg then - digits_value 0 ds else digits_value 0 ds), dropWhile is_digit r))
          else (0, s)
      | [] \<Rightarrow> (0, s))"

text \<open>The double nearest to \<open>n * 10 ^ x\<close>.\<close>

definition decimal_double :: "bool \<Rightarrow> nat \<Rightarrow> int \<Rightarrow> double" where
  "decimal_double neg n x =
     (if 0 \<le> x then d_round neg (n * 10 ^ nat x) 0
      else if n = 0 then d_zero neg
      else (let den = 10 ^ nat (- x); k = bit_length den + 64; m = n * 2 ^ k
            in d_round neg (2 * (m div den) + (if m mod den = 0 then 0 else 1)) (- int k - 1)))"

definition strtod_dec :: "bool \<Rightarrow> string \<Rightarrow> (double \<times> string) option" where
  "strtod_dec neg s =
     (let (ip, fp, r) = scan_digits is_digit s
      in if ip = [] \<and> fp = [] then None
         else (let (x, r) = scan_exponent CHR ''e'' r
               in Some (decimal_double neg (nat (digits_value 0 (ip @ fp))) (x - int (length fp)), r)))"

definition hexes_value :: "string \<Rightarrow> int" where
  "hexes_value cs = foldl (\<lambda>v c. v * 16 + the (hex_value c)) 0 cs"

definition strtod_hex :: "bool \<Rightarrow> string \<Rightarrow> (double \<times> string) option" where
  "strtod_hex neg s =
     (case strip_nocase ''0x'' s of
        None \<Rightarrow> None
      | Some t \<Rightarrow>
          (let (ip, fp, r) = scan_digits is_hex t
           in if ip = [] \<and> fp = [] then None
              else (let (x, r) = scan_exponent CHR ''p'' r
                    in Some (d_round neg (nat (hexes_value (ip @ fp))) (x - 4 * int (length fp)), r))))"

definition strtod_nan :: "string \<Rightarrow> (double \<times> string) option" where
  "strtod_nan s =
     (case strip_nocase ''nan'' s of
        None \<Rightarrow> None
      | Some r \<Rightarrow>
          Some (d_nan,
            case r of
              c # r' \<Rightarrow>
                if c = CHR ''(''
                then (let w = dropWhile (\<lambda>c. is_digit c \<or> c = CHR ''_'' \<or>
                              97 \<le> (of_char (to_lower c) :: nat) \<and> (of_char (to_lower c) :: nat) \<le> 122) r'
                      in case w of d # w' \<Rightarrow> if d = CHR '')'' then w' else r | [] \<Rightarrow> r)
                else r
            | [] \<Rightarrow> r))"

definition strtod_inf :: "bool \<Rightarrow> string \<Rightarrow> (double \<times> string) option" where
  "strtod_inf neg s =
     (case strip_nocase ''infinity'' s of
        Some r \<Rightarrow> Some (d_inf neg, r)
      | None \<Rightarrow> map_option (\<lambda>r. (d_inf neg, r)) (strip_nocase ''inf'' s))"

text \<open>Without a number at the start nothing is read and the result is zero.\<close>

definition strtod :: "string \<Rightarrow> double \<times> string" where
  "strtod s =
     (let (neg, t) = scan_sign (dropWhile is_space s)
      in case strtod_inf neg t of Some r \<Rightarrow> r | None \<Rightarrow>
         case strtod_nan t of Some r \<Rightarrow> r | None \<Rightarrow>
         case strtod_hex neg t of Some r \<Rightarrow> r | None \<Rightarrow>
         case strtod_dec neg t of Some r \<Rightarrow> r | None \<Rightarrow> (d_zero False, s))"


text \<open>The facts that evaluate the text functions on concrete strings.\<close>

named_theorems text_eval

lemmas [text_eval] = split_at.simps is_blank_def trim_def lines_of.simps from_chars_nat_def
  from_chars_u32_def from_chars_i64_def is_space_def to_lower_def hex_value_def is_hex_def
  strip_nocase.simps scan_sign_def scan_digits_def scan_exponent_def decimal_double_def strtod_dec_def
  hexes_value_def strtod_hex_def strtod_nan_def strtod_inf_def strtod_def is_digit_def
  digit_value_def digits_value_def Let_def

end
