(* ===== verification/Fault_Labels.thy ===== *)
theory Fault_Labels
  imports Text_Input Stream_File
begin

text \<open>
  The ground-truth file of the fault injector, \<open>include/replay/fault_injector.hpp\<close>: the fault types and
  labels, the text the injector prints through \<open>std::ofstream\<close>, and \<open>read_labels\<close>, which reads it back and
  skips what it cannot read.
\<close>

datatype fault_type = KSpike | KDrift | KStuckAtValue | KDropout

record fault_label =
  lb_stream_id :: u32
  lb_type :: fault_type
  lb_start_ns :: u64
  lb_end_ns :: u64

text \<open>\<open>operator==\<close> compares every member.\<close>

definition fault_label_eq :: "fault_label \<Rightarrow> fault_label \<Rightarrow> bool" where
  "fault_label_eq a b \<longleftrightarrow> lb_stream_id a = lb_stream_id b \<and> lb_type a = lb_type b \<and>
     lb_start_ns a = lb_start_ns b \<and> lb_end_ns a = lb_end_ns b"

lemma fault_label_eq_iff [simp]: "fault_label_eq a b \<longleftrightarrow> a = b"
  by (cases a, cases b) (simp add: fault_label_eq_def)

definition fault_type_name :: "fault_type \<Rightarrow> string" where
  "fault_type_name t =
     (case t of
        KSpike \<Rightarrow> ''spike''
      | KDrift \<Rightarrow> ''drift''
      | KStuckAtValue \<Rightarrow> ''stuck_at_value''
      | KDropout \<Rightarrow> ''dropout'')"

definition parse_fault_type :: "string \<Rightarrow> fault_type option" where
  "parse_fault_type name =
     (if name = ''spike'' then Some KSpike
      else if name = ''drift'' then Some KDrift
      else if name = ''stuck_at_value'' then Some KStuckAtValue
      else if name = ''dropout'' then Some KDropout
      else None)"

text \<open>Characters and bytes of a file.\<close>

definition byte_of :: "char \<Rightarrow> u8" where
  "byte_of c = of_nat (of_char c)"

definition char_at :: "u8 \<Rightarrow> char" where
  "char_at b = char_of (unat b)"

text \<open>\<open>operator<<\<close> for integers.\<close>

fun show_nat :: "nat \<Rightarrow> string" where
  "show_nat n = (if n < 10 then [char_of (48 + n)] else show_nat (n div 10) @ [char_of (48 + n mod 10)])"

declare show_nat.simps [simp del]

definition show_int :: "int \<Rightarrow> string" where
  "show_int i = (if i < 0 then CHR ''-'' # show_nat (nat (- i)) else show_nat (nat i))"

definition label_pieces :: "fault_label \<Rightarrow> string list" where
  "label_pieces l = [show_nat (unat (lb_stream_id l)), ''|'', fault_type_name (lb_type l), ''|'',
     show_int (sint (lb_start_ns l)), ''|'', show_int (sint (lb_end_ns l)), [CHR 0x0A]]"

fun ofs_puts :: "string list \<Rightarrow> ofstream \<Rightarrow> disk \<Rightarrow> ofstream \<times> disk" where
  "ofs_puts [] out d = (out, d)"
| "ofs_puts (s # ss) out d = (let (out, d) = ofs_write (map byte_of s) out d in ofs_puts ss out d)"

text \<open>The end of \<open>inject_impl\<close>; the destructor closes the stream.\<close>

definition write_labels :: "nat \<Rightarrow> string \<Rightarrow> fault_label list \<Rightarrow> disk \<Rightarrow> bool \<times> disk" where
  "write_labels bufsz labels_path labels d =
     (let (out, d) = ofs_open bufsz labels_path d
      in if \<not> os_open out then (False, d)
         else (let (out, d) = ofs_puts (concat (map label_pieces labels)) out d;
                   (out, d) = ofs_flush out d;
                   good = os_good out;
                   (_, d) = ofs_close out d
               in (good, d)))"

text \<open>\<open>parse_int_field\<close>: the whole field must be a number in range.\<close>

definition parse_field_u32 :: "string \<Rightarrow> u32 option" where
  "parse_field_u32 s = (case from_chars_u32 s of Some (v, rest) \<Rightarrow> if rest = [] \<and> s \<noteq> [] then Some v else None | None \<Rightarrow> None)"

definition parse_field_i64 :: "string \<Rightarrow> u64 option" where
  "parse_field_i64 s = (case from_chars_i64 s of Some (v, rest) \<Rightarrow> if rest = [] \<and> s \<noteq> [] then Some v else None | None \<Rightarrow> None)"

text \<open>The body of the loop of \<open>read_labels\<close>; None is \<open>continue\<close>.\<close>

definition read_label :: "string \<Rightarrow> fault_label option" where
  "read_label line =
     (if line = [] then None
      else case split_at CHR ''|'' line of
        None \<Rightarrow> None
      | Some (id_s, r) \<Rightarrow>
     (case split_at CHR ''|'' r of
        None \<Rightarrow> None
      | Some (type_s, r) \<Rightarrow>
     (case split_at CHR ''|'' r of
        None \<Rightarrow> None
      | Some (start_s, end_s) \<Rightarrow>
     (case parse_fault_type type_s of
        None \<Rightarrow> None
      | Some type \<Rightarrow>
     (case (parse_field_u32 id_s, parse_field_i64 start_s, parse_field_i64 end_s) of
        (Some i, Some s, Some e) \<Rightarrow>
          Some \<lparr>lb_stream_id = i, lb_type = type, lb_start_ns = s, lb_end_ns = e\<rparr>
      | _ \<Rightarrow> None)))))"

definition read_labels :: "string \<Rightarrow> disk \<Rightarrow> fault_label list" where
  "read_labels labels_path d =
     (case d_files d labels_path of
        None \<Rightarrow> []
      | Some bytes \<Rightarrow> List.map_filter read_label (lines_of (map char_at bytes)))"

section \<open>Numbers\<close>

lemma char_at_byte [simp]: "char_at (byte_of c) = c"
proof -
  have "(of_char c :: nat) < 256" using nat_of_char_less_256 [of c] by simp
  then show ?thesis by (simp add: char_at_def byte_of_def unat_of_nat)
qed

lemma show_nat_facts:
  "list_all is_digit (show_nat n) \<and> digits_value 0 (show_nat n) = int n \<and> show_nat n \<noteq> []"
proof (induction n rule: show_nat.induct)
  case (1 n)
  show ?case
  proof (cases "n < 10")
    case True
    then show ?thesis by (simp add: show_nat.simps [of n] digit_of_char digits_value_def)
  next
    case False
    have "int (n div 10) * 10 + int (n mod 10) = int n" by presburger
    then show ?thesis using 1 False by (simp add: show_nat.simps [of n] digit_of_char digits_value_snoc)
  qed
qed

lemma from_chars_show: "n < b \<Longrightarrow> from_chars_nat b (show_nat n) = Some (n, [])"
  using show_nat_facts [of n]
  by (simp add: from_chars_nat_def Let_def list_all_iff takeWhile_eq_all_conv [THEN iffD2])

lemma parse_show_u32: "parse_field_u32 (show_nat (unat v)) = Some v"
proof -
  have "unat v < 2 ^ 32" using unsigned_less [of v] by simp
  then show ?thesis using show_nat_facts [of "unat v"]
    by (simp add: parse_field_u32_def from_chars_u32_def from_chars_show)
qed

lemma parse_show_i64: "parse_field_i64 (show_int (sint v)) = Some v"
proof (cases "sint v < 0")
  case True
  have "- (2 ^ 63) \<le> sint v" using sint_ge [of v] by simp
  then have "nat (- sint v) < 2 ^ 63 + 1" by simp
  then show ?thesis using True show_nat_facts [of "nat (- sint v)"]
    by (simp add: show_int_def parse_field_i64_def from_chars_i64_def from_chars_show)
next
  case False
  have "sint v < 2 ^ 63" using sint_lt [of v] by simp
  then have b: "nat (sint v) < 2 ^ 63" using False by simp
  obtain c cs where s: "show_nat (nat (sint v)) = c # cs"
    using show_nat_facts [of "nat (sint v)"] by (cases "show_nat (nat (sint v))") auto
  have "is_digit c" using show_nat_facts [of "nat (sint v)"] by (simp add: s)
  then have "c \<noteq> CHR ''-''" by (auto simp: is_digit_def)
  moreover have "(of_nat (nat (sint v)) :: u64) = v"
  proof -
    have "(of_nat (nat (sint v)) :: u64) = of_int (int (nat (sint v)))" by (simp only: of_int_of_nat_eq)
    also have "int (nat (sint v)) = sint v" using False by simp
    finally show ?thesis by simp
  qed
  ultimately show ?thesis using False from_chars_show [OF b]
    by (simp add: show_int_def parse_field_i64_def from_chars_i64_def s)
qed

section \<open>Lines\<close>

lemma split_at_first: "c \<notin> set a \<Longrightarrow> split_at c (a @ c # b) = Some (a, b)"
  by (induction a) auto

lemma lines_of_append: "CHR 0x0A \<notin> set l \<Longrightarrow> lines_of (l @ CHR 0x0A # s) = l # lines_of s"
  by (induction l) auto

lemma not_in_digits: "list_all is_digit s \<Longrightarrow> \<not> is_digit c \<Longrightarrow> c \<notin> set s"
  by (auto simp: list_all_iff)

lemma show_no_bar [simp]:
  "CHR ''|'' \<notin> set (show_nat n)" "CHR ''|'' \<notin> set (show_int i)"
  "CHR 0x0A \<notin> set (show_nat n)" "CHR 0x0A \<notin> set (show_int i)"
proof -
  have "\<not> is_digit CHR ''|''" "\<not> is_digit CHR 0x0A" by (simp_all add: is_digit_def)
  then have n: "CHR ''|'' \<notin> set (show_nat n)" "CHR 0x0A \<notin> set (show_nat n)" for n
    using show_nat_facts [of n] not_in_digits by blast+
  then show "CHR ''|'' \<notin> set (show_nat n)" "CHR ''|'' \<notin> set (show_int i)"
    "CHR 0x0A \<notin> set (show_nat n)" "CHR 0x0A \<notin> set (show_int i)"
    by (simp_all add: show_int_def)
qed

definition label_line :: "fault_label \<Rightarrow> string" where
  "label_line l = show_nat (unat (lb_stream_id l)) @ CHR ''|'' # fault_type_name (lb_type l) @ CHR ''|'' #
     show_int (sint (lb_start_ns l)) @ CHR ''|'' # show_int (sint (lb_end_ns l))"

lemma label_pieces_line: "concat (label_pieces l) = label_line l @ [CHR 0x0A]"
  by (simp add: label_pieces_def label_line_def)

lemma read_label_line: "read_label (label_line l) = Some l"
proof -
  have nm: "CHR ''|'' \<notin> set (fault_type_name t)" "parse_fault_type (fault_type_name t) = Some t" for t
    by (cases t; simp add: fault_type_name_def parse_fault_type_def)+
  show ?thesis
    by (simp add: read_label_def label_line_def split_at_first nm parse_show_u32 parse_show_i64)
qed

lemma label_line_no_newline: "CHR 0x0A \<notin> set (label_line l)"
  by (cases "lb_type l") (simp_all add: label_line_def fault_type_name_def)

lemma lines_of_labels: "lines_of (concat (map (\<lambda>l. label_line l @ [CHR 0x0A]) ls)) = map label_line ls"
  by (induction ls) (simp_all add: lines_of_append label_line_no_newline)

section \<open>Writing\<close>

lemma ofs_puts_written:
  "written room bs os d \<Longrightarrow> ofs_puts ss os d = (os', d') \<Longrightarrow>
     written room (bs @ map byte_of (concat ss)) os' d' \<and> os_path os' = os_path os \<and> os_open os' = os_open os"
proof (induction ss arbitrary: bs os d)
  case (Cons s ss)
  obtain os1 d1 where w: "ofs_write (map byte_of s) os d = (os1, d1)" by force
  have "ofs_puts ss os1 d1 = (os', d')" using Cons.prems(2) by (simp add: w)
  moreover have "os_path os1 = os_path os" "os_open os1 = os_open os"
    using ofs_write_same [of "map byte_of s" os d] by (simp_all add: w)
  ultimately show ?case
    using Cons.IH [OF written_write [OF Cons.prems(1) w [symmetric]]] by simp
qed simp

definition labels_text :: "fault_label list \<Rightarrow> string" where
  "labels_text ls = concat (map (\<lambda>l. label_line l @ [CHR 0x0A]) ls)"

lemma write_labels_result:
  assumes "d_creatable d p" "write_labels bufsz p ls d = (ok, d')"
  shows "file_bytes p d' = take (d_room d) (map byte_of (labels_text ls))"
    "ok \<longleftrightarrow> length (labels_text ls) \<le> d_room d"
proof -
  obtain os d1 where o: "ofs_open bufsz p d = (os, d1)" by force
  have op: "os_open os" "os_path os = p" using o assms(1) by (auto simp: ofs_open_def)
  note w0 = written_open [OF assms(1) o [symmetric]]
  obtain os2 d2 where u: "ofs_puts (concat (map label_pieces ls)) os d1 = (os2, d2)" by force
  have tx: "concat (concat (map label_pieces ls)) = labels_text ls"
    by (induction ls) (simp_all add: label_pieces_line labels_text_def)
  note w1 = ofs_puts_written [OF w0 u, unfolded tx, simplified]
  obtain os3 d3 where f: "ofs_flush os2 d2 = (os3, d3)" by force
  have w2: "written (d_room d) (map byte_of (labels_text ls)) os3 d3"
    using written_flush [OF _ f [symmetric]] w1 by blast
  have s3: "os_path os3 = p" "os_open os3" using ofs_flush_same [of os2 d2] f w1 op by simp_all
  obtain os4 d4 where c: "ofs_close os3 d3 = (os4, d4)" by force
  have r: "ok = os_good os3" "d' = d4" using assms(2) op(1) by (simp_all add: write_labels_def o u f c)
  show "file_bytes p d' = take (d_room d) (map byte_of (labels_text ls))"
    using written_close(1) [OF w2 c [symmetric] s3(2)] s3(1) r by simp
  have "os_good os3 \<Longrightarrow> os_buf os3 = []"
    using f by (auto simp: ofs_flush_def disk_append_def split: if_splits)
  then show "ok \<longleftrightarrow> length (labels_text ls) \<le> d_room d"
    using w2 unfolding r(1) by (auto simp: written_def split: if_splits)
qed

lemma write_labels_has_file:
  assumes "d_creatable d p" "write_labels bufsz p ls d = (ok, d')"
  shows "d_files d' p \<noteq> None"
proof -
  obtain os d1 where o: "ofs_open bufsz p d = (os, d1)" by force
  have op: "os_open os" "os_path os = p" using o assms(1) by (auto simp: ofs_open_def)
  obtain os2 d2 where u: "ofs_puts (concat (map label_pieces ls)) os d1 = (os2, d2)" by force
  obtain os3 d3 where f: "ofs_flush os2 d2 = (os3, d3)" by force
  have "os_path os3 = p" "os_open os3"
    using ofs_flush_same [of os2 d2] f ofs_puts_written [OF written_open [OF assms(1) o [symmetric]] u] op
    by simp_all
  then show ?thesis using assms(2) op(1)
    by (auto simp: write_labels_def o u f ofs_close_def disk_append_def)
qed

lemma labels_read_back:
  assumes "d_creatable d p" "write_labels bufsz p labels d = (True, d')"
  shows "read_labels p d' = labels"
proof -
  have "file_bytes p d' = map byte_of (labels_text labels)"
    using write_labels_result [OF assms] by simp
  then have "d_files d' p = Some (map byte_of (labels_text labels))"
    using write_labels_has_file [OF assms] by (auto simp: file_bytes_def)
  moreover have "List.map_filter read_label (map label_line ls) = ls" for ls
    by (induction ls) (simp_all add: map_filter_simps read_label_line)
  ultimately show ?thesis
    by (simp add: read_labels_def comp_def labels_text_def lines_of_labels)
qed

text \<open>The labels file is a faithful record: when the injector reports that it has written it, reading
  it gives back the very labels, for all stream ids, fault types and signed 64-bit times.\<close>

theorem labels_roundtrip:
  assumes "d_creatable d p" "write_labels bufsz p labels d = (True, d')"
  shows "read_labels p d' = labels"
  using assms by (rule labels_read_back)

theorem labels_roundtrip_witness:
  "read_labels ''labels'' (snd (write_labels 16 ''labels''
     [\<lparr>lb_stream_id = 7, lb_type = KStuckAtValue, lb_start_ns = - 5, lb_end_ns = 12\<rparr>]
     \<lparr>d_files = Map.empty, d_room = 100, d_creatable = (\<lambda>_. True)\<rparr>)) =
   [\<lparr>lb_stream_id = 7, lb_type = KStuckAtValue, lb_start_ns = - 5, lb_end_ns = 12\<rparr>]"
proof -
  define l where "l = \<lparr>lb_stream_id = 7, lb_type = KStuckAtValue, lb_start_ns = - 5, lb_end_ns = 12\<rparr>"
  define d where "d = \<lparr>d_files = Map.empty, d_room = 100, d_creatable = (\<lambda>_. True)\<rparr>"
  obtain ok d' where w: "write_labels 16 ''labels'' [l] d = (ok, d')" by force
  have "length (labels_text [l]) = 23"
    by (simp add: labels_text_def label_line_def l_def fault_type_name_def show_int_def show_nat.simps)
  then have "ok" using write_labels_result(2) [OF _ w] by (simp add: d_def)
  then show ?thesis using labels_roundtrip [of d "''labels''" 16 "[l]" d'] w
    by (simp add: l_def [symmetric] d_def [symmetric]) (simp add: d_def)
qed

end
