(* ===== verification/Fault_Injector.thy ===== *)
theory Fault_Injector
  imports Fault_Labels Replayer
begin

text \<open>
  \<open>FaultInjector\<close> of \<open>include/replay/fault_injector.hpp\<close>: faults with known ground truth injected into a
  recording. The pass over the specifications is \<open>inject_faults\<close>; \<open>inject_impl\<close> reads the input with the
  replayer, writes the output with the recorder and then the labels. Sizes and indices are 64-bit words
  where the code computes with them. Allocation failures (the catch-all of \<open>inject\<close>) are not
  modelled.
\<close>

record fault_spec =
  sp_type :: fault_type
  sp_stream_id :: u32
  sp_onset :: u64
  sp_duration :: u64
  sp_magnitude :: double

definition kAutoOnset :: u64 where
  "kAutoOnset = - 1"

text \<open>SplitMix64: the number and the next state.\<close>

definition next_rand :: "u64 \<Rightarrow> u64 \<times> u64" where
  "next_rand rng_state =
     (let rng_state = rng_state + 0x9E3779B97F4A7C15;
          z = rng_state;
          z = (z XOR drop_bit 30 z) * 0xBF58476D1CE4E5B9;
          z = (z XOR drop_bit 27 z) * 0x94D049BB133111EB
      in (z XOR drop_bit 31 z, rng_state))"

record injection =
  in_msgs :: "message list"
  in_dropped :: "bool list"
  in_labels :: "fault_label list"
  in_rng :: u64

definition put_value :: "nat \<Rightarrow> double \<Rightarrow> injection \<Rightarrow> injection" where
  "put_value g v s = s\<lparr>in_msgs := (in_msgs s)[g := (in_msgs s ! g)\<lparr>m_value := v\<rparr>]\<rparr>"

text \<open>One sample of a fault: the \<open>switch\<close>.\<close>

definition fault_apply :: "fault_spec \<Rightarrow> double list \<Rightarrow> double \<Rightarrow> u64 \<Rightarrow> u64 \<Rightarrow> nat \<Rightarrow> injection \<Rightarrow> injection" where
  "fault_apply spec orig_value frozen onset j g s =
     (let dur = d_of_int (uint (sp_duration spec))
      in case sp_type spec of
           KSpike \<Rightarrow> put_value g (d_add (orig_value ! g) (sp_magnitude spec)) s
         | KDrift \<Rightarrow>
             (let frac = d_div (d_of_int (uint (j - onset + 1))) dur
              in put_value g (d_add (orig_value ! g) (d_mul (sp_magnitude spec) frac)) s)
         | KStuckAtValue \<Rightarrow> put_value g frozen s
         | KDropout \<Rightarrow> s\<lparr>in_dropped := (in_dropped s)[g := True]\<rparr>)"

definition stream_indices :: "u32 \<Rightarrow> message list \<Rightarrow> nat list" where
  "stream_indices i msgs = filter (\<lambda>k. m_stream_id (msgs ! k) = i) [0..<length msgs]"

text \<open>The onset of a fault and the next state of the generator.\<close>

definition fault_onset :: "fault_spec \<Rightarrow> u64 \<Rightarrow> u64 \<Rightarrow> u64 \<times> u64" where
  "fault_onset spec n rng =
     (if sp_onset spec = kAutoOnset
      then (let max_onset = (if n \<ge> sp_duration spec then n - sp_duration spec else 0);
                (r, rng) = next_rand rng
            in (r mod (max_onset + 1), rng))
      else (sp_onset spec, rng))"

definition fault_loop :: "fault_spec \<Rightarrow> double list \<Rightarrow> nat list \<Rightarrow> u64 \<Rightarrow> u64 \<Rightarrow> injection \<Rightarrow> injection" where
  "fault_loop spec orig_value idx onset final s =
     fold (\<lambda>j. fault_apply spec orig_value (orig_value ! (idx ! unat onset)) onset (of_nat j) (idx ! j))
       [unat onset..<Suc (unat final)] s"

text \<open>The body of the loop over the specifications.\<close>

definition inject_spec :: "double list \<Rightarrow> fault_spec \<Rightarrow> injection \<Rightarrow> injection" where
  "inject_spec orig_value spec s =
     (let idx = stream_indices (sp_stream_id spec) (in_msgs s);
          n = of_nat (length idx)
      in if n = 0 \<or> sp_duration spec = 0 then s
         else (let (onset, rng) = fault_onset spec n (in_rng s);
                   s = s\<lparr>in_rng := rng\<rparr>
               in if onset \<ge> n then s
                  else (let final = onset + sp_duration spec - 1;
                            final = (if final \<ge> n then n - 1 else final);
                            label = \<lparr>lb_stream_id = sp_stream_id spec, lb_type = sp_type spec,
                              lb_start_ns = m_ts_ns (in_msgs s ! (idx ! unat onset)),
                              lb_end_ns = m_ts_ns (in_msgs s ! (idx ! unat final))\<rparr>;
                            s = s\<lparr>in_labels := in_labels s @ [label]\<rparr>
                        in fault_loop spec orig_value idx onset final s)))"

definition inject_faults :: "fault_spec list \<Rightarrow> message list \<Rightarrow> u64 \<Rightarrow> injection" where
  "inject_faults specs msgs rng =
     fold (inject_spec (map m_value msgs)) specs
       \<lparr>in_msgs = msgs, in_dropped = replicate (length msgs) False, in_labels = [], in_rng = rng\<rparr>"

text \<open>The output loop, with its early return.\<close>

fun write_kept :: "message list \<Rightarrow> bool list \<Rightarrow> recorder \<Rightarrow> disk \<Rightarrow> bool \<times> recorder \<times> disk" where
  "write_kept (m # ms) (x # xs) r d =
     (if x then write_kept ms xs r d
      else (let (ok, r, d) = recorder_write m r d
            in if \<not> ok then (False, r, d) else write_kept ms xs r d))"
| "write_kept _ _ r d = (True, r, d)"

text \<open>The recorder's destructor closes the file on every path, the labels stream's in \<open>write_labels\<close>.\<close>

definition inject_impl ::
  "nat \<Rightarrow> string \<Rightarrow> string \<Rightarrow> string \<Rightarrow> fault_spec list \<Rightarrow> u64 \<Rightarrow> disk \<Rightarrow> bool \<times> u64 \<times> disk" where
  "inject_impl bufsz input_path output_path labels_path specs rng d =
     (let replayer = replayer_open input_path d
      in if rp_status replayer \<noteq> kOk then (False, rng, d)
         else (let (msgs, _) = replay_loop replayer zero_message [];
                   s = inject_faults specs msgs rng;
                   (rec, d) = recorder_open bufsz output_path d
               in if \<not> recorder_is_open rec then (False, in_rng s, snd (recorder_close rec d))
                  else (let (ok, rec, d) = write_kept (in_msgs s) (in_dropped s) rec d;
                            (_, d) = recorder_close rec d
                        in if \<not> ok then (False, in_rng s, d)
                           else (let (ok, d) = write_labels bufsz labels_path (in_labels s) d
                                 in (ok, in_rng s, d)))))"

section \<open>The labels cover every change\<close>

definition same_but_value :: "message \<Rightarrow> message \<Rightarrow> bool" where
  "same_but_value a b \<longleftrightarrow> b = a\<lparr>m_value := m_value b\<rparr>"

text \<open>Label \<open>l\<close> spans position \<open>i\<close>: it starts and ends at samples of the same stream around it.\<close>

definition spans :: "message list \<Rightarrow> nat \<Rightarrow> fault_label \<Rightarrow> bool" where
  "spans msgs i l \<longleftrightarrow> (\<exists>a b. a \<le> i \<and> i \<le> b \<and> b < length msgs \<and>
     m_stream_id (msgs ! a) = lb_stream_id l \<and> m_stream_id (msgs ! i) = lb_stream_id l \<and>
     m_stream_id (msgs ! b) = lb_stream_id l \<and>
     lb_start_ns l = m_ts_ns (msgs ! a) \<and> lb_end_ns l = m_ts_ns (msgs ! b))"

definition inject_ok :: "message list \<Rightarrow> injection \<Rightarrow> bool" where
  "inject_ok msgs s \<longleftrightarrow> length (in_msgs s) = length msgs \<and> length (in_dropped s) = length msgs \<and>
     (\<forall>i < length msgs. same_but_value (msgs ! i) (in_msgs s ! i) \<and>
        (in_msgs s ! i \<noteq> msgs ! i \<or> in_dropped s ! i \<longrightarrow> list_ex (spans msgs i) (in_labels s)))"

lemma same_but_value_fields:
  "same_but_value a b \<Longrightarrow> m_stream_id b = m_stream_id a \<and> m_ts_ns b = m_ts_ns a"
  by (metis message.select_convs(1,3) message.surjective message.update_convs(4) same_but_value_def)

lemma put_value_ok:
  assumes "inject_ok msgs s" "g < length msgs" "list_ex (spans msgs g) (in_labels s)"
  shows "inject_ok msgs (put_value g v s)"
proof -
  have "same_but_value (msgs ! g) (in_msgs s ! g)" using assms(1,2) by (simp add: inject_ok_def)
  then have "in_msgs s ! g = (msgs ! g)\<lparr>m_value := m_value (in_msgs s ! g)\<rparr>" by (simp only: same_but_value_def)
  then have "(in_msgs s ! g)\<lparr>m_value := v\<rparr> = (msgs ! g)\<lparr>m_value := v\<rparr>"
    by (metis message.update_convs(4) message.surjective)
  then show ?thesis using assms
    by (auto simp: inject_ok_def put_value_def nth_list_update same_but_value_def)
qed

lemma fault_apply_ok:
  assumes "inject_ok msgs s" "g < length msgs" "list_ex (spans msgs g) (in_labels s)"
  shows "inject_ok msgs (fault_apply spec orig frozen onset j g s) \<and>
    in_labels (fault_apply spec orig frozen onset j g s) = in_labels s"
proof (cases "sp_type spec")
  case KDropout
  then show ?thesis using assms by (auto simp: fault_apply_def inject_ok_def nth_list_update)
qed (use assms in \<open>simp_all add: fault_apply_def put_value_ok Let_def\<close>, simp_all add: put_value_def)

lemma fault_fold_ok:
  assumes "inject_ok msgs s" "\<And>j. j \<in> set js \<Longrightarrow> idx ! j < length msgs \<and> list_ex (spans msgs (idx ! j)) (in_labels s)"
  shows "inject_ok msgs (fold (\<lambda>j. fault_apply spec orig frozen onset (of_nat j) (idx ! j)) js s)"
  using assms
proof (induction js arbitrary: s)
  case (Cons j js)
  note a = fault_apply_ok [OF Cons.prems(1), of "idx ! j" spec orig frozen onset "of_nat j"]
  show ?case using Cons.IH a Cons.prems(2) by simp
qed simp

lemma stream_indices_facts:
  "sorted (stream_indices i msgs)"
  "j < length (stream_indices i msgs) \<Longrightarrow>
     stream_indices i msgs ! j < length msgs \<and> m_stream_id (msgs ! (stream_indices i msgs ! j)) = i"
  using nth_mem [of j "stream_indices i msgs"]
  by (simp_all add: stream_indices_def sorted_wrt_filter)

lemma stream_indices_same:
  assumes "inject_ok msgs s"
  shows "stream_indices i (in_msgs s) = stream_indices i msgs"
proof -
  have "m_stream_id (in_msgs s ! k) = m_stream_id (msgs ! k)" if "k < length msgs" for k
    using assms that same_but_value_fields by (simp add: inject_ok_def)
  moreover have "length (in_msgs s) = length msgs" using assms by (simp add: inject_ok_def)
  ultimately show ?thesis by (auto simp: stream_indices_def intro!: filter_cong)
qed

lemma inject_spec_fires:
  assumes "idx = stream_indices (sp_stream_id spec) (in_msgs s)" "n = of_nat (length idx)"
    "n \<noteq> 0" "sp_duration spec \<noteq> 0" "fault_onset spec n (in_rng s) = (onset, rng)" "\<not> onset \<ge> n"
    "final = (if onset + sp_duration spec - 1 \<ge> n then n - 1 else onset + sp_duration spec - 1)"
    "s1 = s\<lparr>in_rng := rng, in_labels := in_labels s @
       [\<lparr>lb_stream_id = sp_stream_id spec, lb_type = sp_type spec,
         lb_start_ns = m_ts_ns (in_msgs s ! (idx ! unat onset)),
         lb_end_ns = m_ts_ns (in_msgs s ! (idx ! unat final))\<rparr>]\<rparr>"
  shows "inject_spec orig spec s = fault_loop spec orig idx onset final s1"
proof -
  have "\<not> (n = 0 \<or> sp_duration spec = 0)" using assms(3,4) by blast
  then show ?thesis
    unfolding inject_spec_def assms(1) [symmetric] Let_def assms(2) [symmetric]
    by (simp only: if_False assms(5) prod.case assms(6) assms(7) [symmetric] assms(8) injection.simps) simp
qed

lemma inject_spec_ok:
  assumes ok: "inject_ok msgs s" and len: "length msgs < 2 ^ 64"
  shows "inject_ok msgs (inject_spec orig spec s)"
proof -
  define idx where "idx = stream_indices (sp_stream_id spec) msgs"
  define n :: u64 where "n = of_nat (length idx)"
  have idx: "stream_indices (sp_stream_id spec) (in_msgs s) = idx"
    using stream_indices_same [OF ok] by (simp add: idx_def)
  have "length idx \<le> length msgs" by (simp add: idx_def stream_indices_def order_trans [OF length_filter_le])
  then have n: "unat n = length idx" using len by (simp add: n_def unat_of_nat)
  obtain onset rng where o: "fault_onset spec n (in_rng s) = (onset, rng)" by force
  show ?thesis
  proof (cases "n = 0 \<or> sp_duration spec = 0 \<or> onset \<ge> n")
    case True
    then show ?thesis using ok o
      by (auto simp: inject_spec_def Let_def idx n_def inject_ok_def)
  next
    case False
    define final where
      "final = (if onset + sp_duration spec - 1 \<ge> n then n - 1 else onset + sp_duration spec - 1)"
    have "n - 1 < n"
    proof -
      have "unat (n - 1) = unat n - 1" "unat n \<noteq> 0" using False by (simp_all add: unat_minus_one unat_eq_zero)
      then show ?thesis by (simp add: word_less_nat_alt)
    qed
    then have "final < n" by (simp add: final_def not_le)
    then have f: "unat final < length idx" using n by (simp add: word_less_nat_alt)
    have on: "unat onset < length idx" using False n by (simp add: word_le_nat_alt)
    define l where "l = \<lparr>lb_stream_id = sp_stream_id spec, lb_type = sp_type spec,
       lb_start_ns = m_ts_ns (in_msgs s ! (idx ! unat onset)),
       lb_end_ns = m_ts_ns (in_msgs s ! (idx ! unat final))\<rparr>"
    define s1 where "s1 = s\<lparr>in_rng := rng, in_labels := in_labels s @ [l]\<rparr>"
    note s1' = s1_def [unfolded l_def]
    have s1: "inject_ok msgs s1" using ok by (auto simp: inject_ok_def s1_def)
    have at: "idx ! j < length msgs" "m_stream_id (msgs ! (idx ! j)) = sp_stream_id spec" if "j < length idx" for j
      using stream_indices_facts(2) [of j "sp_stream_id spec" msgs] that by (simp_all add: idx_def)
    have ts: "m_ts_ns (in_msgs s ! (idx ! j)) = m_ts_ns (msgs ! (idx ! j))" if "j < length idx" for j
      using ok at(1) [OF that] same_but_value_fields by (simp add: inject_ok_def)
    have "spans msgs (idx ! j) l" if "unat onset \<le> j" "j \<le> unat final" for j
    proof -
      have "sorted idx" by (simp add: idx_def stream_indices_facts(1))
      then have "idx ! unat onset \<le> idx ! j" "idx ! j \<le> idx ! unat final"
        using that f by (simp_all add: sorted_nth_mono)
      moreover have "j < length idx" using that f by simp
      ultimately show ?thesis using at [of j] at [OF on] at [OF f] ts [OF on] ts [OF f]
        by (auto simp: spans_def l_def)
    qed
    then have "inject_ok msgs (fault_loop spec orig idx onset final s1)"
      unfolding fault_loop_def using s1 at f
      by (intro fault_fold_ok) (auto simp: s1_def)
    moreover have "inject_spec orig spec s = fault_loop spec orig idx onset final s1"
      using False by (intro inject_spec_fires [OF idx [symmetric] n_def _ _ o _ final_def s1']) blast+
    ultimately show ?thesis by simp
  qed
qed

lemma inject_fold_ok:
  "length msgs < 2 ^ 64 \<Longrightarrow> inject_ok msgs s \<Longrightarrow> inject_ok msgs (fold (inject_spec orig) specs s)"
proof (induction specs arbitrary: s)
  case (Cons spec specs)
  show ?case using Cons.IH [OF Cons.prems(1) inject_spec_ok [OF Cons.prems(2,1)]] by simp
qed simp

lemma inject_faults_ok:
  assumes "length msgs < 2 ^ 64"
  shows "inject_ok msgs (inject_faults specs msgs rng)"
proof -
  have "inject_ok msgs \<lparr>in_msgs = msgs, in_dropped = replicate (length msgs) False, in_labels = [], in_rng = rng\<rparr>"
    by (simp add: inject_ok_def same_but_value_def)
  then show ?thesis using inject_fold_ok [OF assms] by (simp add: inject_faults_def)
qed

text \<open>C7: The labels are the ground truth. Whatever faults are asked for, overlapping or out of range, no
  message changes in anything but its value, and every message that was changed or dropped lies, on its
  stream, between the start and the end of a recorded label (the stream's time stamps being in
  order); so a message outside every label is the original one, bit for bit.\<close>

theorem faults_are_labelled:
  assumes "length msgs < 2 ^ 64" "s = inject_faults specs msgs rng" "i < length msgs"
    "sorted_wrt (\<lambda>a b. m_stream_id a = m_stream_id b \<longrightarrow> sint (m_ts_ns a) \<le> sint (m_ts_ns b)) msgs"
  shows "in_msgs s ! i = (msgs ! i)\<lparr>m_value := m_value (in_msgs s ! i)\<rparr> \<and>
    (in_msgs s ! i \<noteq> msgs ! i \<or> in_dropped s ! i \<longrightarrow>
       (\<exists>l \<in> set (in_labels s). lb_stream_id l = m_stream_id (msgs ! i) \<and>
          sint (lb_start_ns l) \<le> sint (m_ts_ns (msgs ! i)) \<and> sint (m_ts_ns (msgs ! i)) \<le> sint (lb_end_ns l)))"
proof -
  have ok: "inject_ok msgs s" using inject_faults_ok [OF assms(1)] by (simp add: assms(2))
  have le: "sint (m_ts_ns (msgs ! a)) \<le> sint (m_ts_ns (msgs ! b))"
    if "a \<le> b" "b < length msgs" "m_stream_id (msgs ! a) = m_stream_id (msgs ! b)" for a b
    using assms(4) that by (cases "a = b") (auto simp: sorted_wrt_iff_nth_less)
  have "lb_stream_id l = m_stream_id (msgs ! i) \<and> sint (lb_start_ns l) \<le> sint (m_ts_ns (msgs ! i)) \<and>
      sint (m_ts_ns (msgs ! i)) \<le> sint (lb_end_ns l)" if "spans msgs i l" for l
    using that le assms(3) by (auto simp: spans_def)
  moreover have "in_msgs s ! i \<noteq> msgs ! i \<or> in_dropped s ! i \<Longrightarrow> \<exists>l \<in> set (in_labels s). spans msgs i l"
    using ok assms(3) by (simp add: inject_ok_def list_ex_iff)
  moreover have "in_msgs s ! i = (msgs ! i)\<lparr>m_value := m_value (in_msgs s ! i)\<rparr>"
    using ok assms(3) by (simp add: inject_ok_def same_but_value_def)
  ultimately show ?thesis by blast
qed

section \<open>Windows\<close>

lemma dropout_fold:
  assumes "sp_type spec = KDropout"
  shows "(\<And>j. j \<in> set js \<Longrightarrow> idx ! j < length (in_dropped s)) \<Longrightarrow>
    t = fold (\<lambda>j. fault_apply spec orig frozen onset (of_nat j) (idx ! j)) js s \<Longrightarrow>
    in_msgs t = in_msgs s \<and> in_labels t = in_labels s \<and> length (in_dropped t) = length (in_dropped s) \<and>
    (\<forall>i < length (in_dropped s). in_dropped t ! i \<longleftrightarrow> in_dropped s ! i \<or> (\<exists>j \<in> set js. idx ! j = i))"
proof (induction js arbitrary: s)
  case (Cons j js)
  have "fault_apply spec orig frozen onset (of_nat j) (idx ! j) s = s\<lparr>in_dropped := (in_dropped s)[idx ! j := True]\<rparr>"
    using assms by (simp add: fault_apply_def Let_def)
  then show ?case using Cons.IH [of "s\<lparr>in_dropped := (in_dropped s)[idx ! j := True]\<rparr>"] Cons.prems
    by (auto simp: nth_list_update)
qed simp

lemma fault_apply_labels: "in_labels (fault_apply spec orig frozen onset j g s) = in_labels s"
  by (simp add: fault_apply_def put_value_def Let_def split: fault_type.split)

lemma fault_loop_labels: "in_labels (fault_loop spec orig idx onset final s) = in_labels s"
proof -
  have "in_labels (fold (\<lambda>j. fault_apply spec orig frozen onset (of_nat j) (idx ! j)) js s) = in_labels s" for js frozen
    by (induction js arbitrary: s) (simp_all add: fault_apply_labels)
  then show ?thesis by (simp add: fault_loop_def)
qed

lemma unat_pred: "0 < unat w \<Longrightarrow> unat (w - 1) = unat w - 1" for w :: u64
  by (metis neq0_conv unat_0 unat_minus_one)

lemma auto_onset:
  fixes n :: u64
  assumes "sp_onset spec = kAutoOnset" "0 < sp_duration spec" "sp_duration spec \<le> n"
    "fault_onset spec n rng = (onset, rng')"
  shows "unat onset + unat (sp_duration spec) \<le> unat n" "\<not> onset \<ge> n"
    "onset + sp_duration spec - 1 < n" "unat (onset + sp_duration spec - 1) = unat onset + unat (sp_duration spec) - 1"
proof -
  define d where "d = sp_duration spec"
  have d: "0 < unat d" "unat d \<le> unat n" using assms(2,3) by (simp_all add: d_def word_less_nat_alt word_le_nat_alt)
  have nb: "unat n < 2 ^ 64" using unsigned_less [of n] by simp
  have nd: "unat (n - d) = unat n - unat d" using assms(3) by (simp add: d_def unat_sub)
  then have "unat (n - d + 1) = unat n - unat d + 1" using d nb by (simp add: unat_word_ariths)
  moreover have "unat onset = unat (fst (next_rand rng)) mod unat (n - d + 1)"
    using assms by (auto simp: fault_onset_def d_def Let_def unat_mod_distrib case_prod_unfold)
  ultimately have "unat onset < unat n - unat d + 1" by simp
  then show le: "unat onset + unat (sp_duration spec) \<le> unat n" using d by (simp add: d_def)
  then show "\<not> onset \<ge> n" using d by (simp add: word_le_nat_alt d_def)
  have "unat (onset + d) = unat onset + unat d" using le nb by (simp add: unat_word_ariths d_def)
  then show last: "unat (onset + sp_duration spec - 1) = unat onset + unat (sp_duration spec) - 1"
    using d unat_pred [of "onset + d"] by (simp add: d_def)
  show "onset + sp_duration spec - 1 < n" unfolding word_less_nat_alt last using le d by (simp add: d_def)
qed

text \<open>An automatic onset always leaves room: for every seed, a fault of \<open>d\<close> samples on a stream of at
  least \<open>d\<close> gets exactly one label, from the first to the last of \<open>d\<close> consecutive samples of the
  stream, and a dropout removes exactly those and changes nothing.\<close>

theorem auto_onset_window:
  assumes "idx = stream_indices (sp_stream_id spec) msgs" "length msgs < 2 ^ 64"
    "sp_onset spec = kAutoOnset" "0 < sp_duration spec" "unat (sp_duration spec) \<le> length idx"
    "s = inject_faults [spec] msgs rng"
  shows "\<exists>k. k + unat (sp_duration spec) \<le> length idx \<and>
    in_labels s = [\<lparr>lb_stream_id = sp_stream_id spec, lb_type = sp_type spec,
       lb_start_ns = m_ts_ns (msgs ! (idx ! k)),
       lb_end_ns = m_ts_ns (msgs ! (idx ! (k + unat (sp_duration spec) - 1)))\<rparr>] \<and>
    (sp_type spec = KDropout \<longrightarrow> in_msgs s = msgs \<and>
       (\<forall>i < length msgs. in_dropped s ! i \<longleftrightarrow> (\<exists>j \<in> {k..<k + unat (sp_duration spec)}. idx ! j = i)))"
proof -
  define d where "d = sp_duration spec"
  define n :: u64 where "n = of_nat (length idx)"
  define s0 where "s0 = \<lparr>in_msgs = msgs, in_dropped = replicate (length msgs) False, in_labels = [], in_rng = rng\<rparr>"
  have "length idx \<le> length msgs" by (simp add: assms(1) stream_indices_def order_trans [OF length_filter_le])
  then have n: "unat n = length idx" using assms(2) by (simp add: n_def unat_of_nat)
  obtain onset rng' where o: "fault_onset spec n (in_rng s0) = (onset, rng')" by force
  have dn: "sp_duration spec \<le> n" using assms(5) n by (simp add: word_le_nat_alt)
  note w = auto_onset [OF assms(3,4) dn o]
  define final where
    "final = (if onset + sp_duration spec - 1 \<ge> n then n - 1 else onset + sp_duration spec - 1)"
  have f: "unat final = unat onset + unat d - 1" using w(3,4) by (simp add: final_def d_def not_le [symmetric])
  define s1 where "s1 = s0\<lparr>in_rng := rng', in_labels := in_labels s0 @
       [\<lparr>lb_stream_id = sp_stream_id spec, lb_type = sp_type spec,
         lb_start_ns = m_ts_ns (in_msgs s0 ! (idx ! unat onset)),
         lb_end_ns = m_ts_ns (in_msgs s0 ! (idx ! unat final))\<rparr>]\<rparr>"
  have d0: "0 < unat d" using assms(4) by (simp add: d_def word_less_nat_alt)
  have ne: "n \<noteq> 0" "sp_duration spec \<noteq> 0" using d0 assms(5) n by (auto simp: d_def)
  have ix: "idx = stream_indices (sp_stream_id spec) (in_msgs s0)" by (simp add: assms(1) s0_def)
  have s: "s = fault_loop spec (map m_value msgs) idx onset final s1"
    using inject_spec_fires [OF ix n_def ne o w(2) final_def s1_def]
    by (simp add: assms(6) inject_faults_def s0_def)
  have js: "[unat onset..<Suc (unat final)] = [unat onset..<unat onset + unat d]" using f d0 by simp
  have at: "idx ! j < length (in_dropped s1)" if "j \<in> set [unat onset..<unat onset + unat d]" for j
    using that w(1) n stream_indices_facts(2) [of j "sp_stream_id spec" msgs]
    by (simp add: assms(1) s1_def s0_def d_def)
  have drop: "in_msgs s = msgs \<and>
       (\<forall>i < length msgs. in_dropped s ! i \<longleftrightarrow> (\<exists>j \<in> {unat onset..<unat onset + unat d}. idx ! j = i))"
    if "sp_type spec = KDropout"
    using dropout_fold [OF that at s [unfolded fault_loop_def js]] by (simp add: s1_def s0_def)
  have "in_labels s = in_labels s1" by (simp add: s fault_loop_labels)
  then show ?thesis
    using w(1) n f drop by (intro exI [of _ "unat onset"]) (simp add: s1_def s0_def d_def)
qed

text \<open>C34: A duration that overflows the index arithmetic gives a false label: when the onset is in range
  and \<open>onset + duration - 1\<close> passes \<open>2 ^ 64\<close>, a label is recorded whose end lies before its start on the
  stream, and no message is changed or dropped.\<close>

theorem fault_duration_overflow:
  assumes "idx = stream_indices (sp_stream_id spec) msgs" "length msgs < 2 ^ 63"
    "sp_onset spec \<noteq> kAutoOnset" "unat (sp_onset spec) < length idx"
    "2 ^ 64 < unat (sp_onset spec) + unat (sp_duration spec)" "s = inject_faults [spec] msgs rng"
  shows "in_msgs s = msgs \<and> in_dropped s = replicate (length msgs) False \<and>
    (\<exists>j < unat (sp_onset spec). in_labels s = [\<lparr>lb_stream_id = sp_stream_id spec, lb_type = sp_type spec,
       lb_start_ns = m_ts_ns (msgs ! (idx ! unat (sp_onset spec))), lb_end_ns = m_ts_ns (msgs ! (idx ! j))\<rparr>])"
proof -
  define n :: u64 where "n = of_nat (length idx)"
  define onset where "onset = sp_onset spec"
  define s0 where "s0 = \<lparr>in_msgs = msgs, in_dropped = replicate (length msgs) False, in_labels = [], in_rng = rng\<rparr>"
  have "length idx \<le> length msgs" by (simp add: assms(1) stream_indices_def order_trans [OF length_filter_le])
  then have n: "unat n = length idx" using assms(2) by (simp add: n_def unat_of_nat)
  have o: "fault_onset spec n (in_rng s0) = (onset, in_rng s0)"
    using assms(3) by (simp add: fault_onset_def onset_def)
  have on: "\<not> onset \<ge> n" using assms(4) n by (simp add: word_le_nat_alt onset_def)
  have db: "unat (sp_duration spec) < 2 ^ 64" using unsigned_less [of "sp_duration spec"] by simp
  have ob: "unat onset < 2 ^ 64" using unsigned_less [of onset] by simp
  have "unat (onset + sp_duration spec) = (unat onset + unat (sp_duration spec)) mod 2 ^ 64"
    by (simp add: unat_word_ariths)
  also have "\<dots> = (unat onset + unat (sp_duration spec) - 2 ^ 64) mod 2 ^ 64"
    using assms(5) by (intro le_mod_geq) (simp add: onset_def)
  also have "\<dots> = unat onset + unat (sp_duration spec) - 2 ^ 64"
    using db ob by (intro mod_less) simp
  finally have "unat (onset + sp_duration spec) = unat onset + unat (sp_duration spec) - 2 ^ 64" .
  then have e: "unat (onset + sp_duration spec - 1) = unat onset + unat (sp_duration spec) - 2 ^ 64 - 1"
    using assms(5) unat_pred [of "onset + sp_duration spec"] by (simp add: onset_def)
  define final where
    "final = (if onset + sp_duration spec - 1 \<ge> n then n - 1 else onset + sp_duration spec - 1)"
  have lt: "unat (onset + sp_duration spec - 1) < unat onset" unfolding e using db assms(5) by (simp add: onset_def)
  then have "\<not> onset + sp_duration spec - 1 \<ge> n" using on by (simp add: word_le_nat_alt)
  then have f: "unat final < unat onset" using lt by (simp add: final_def)
  define s1 where "s1 = s0\<lparr>in_rng := in_rng s0, in_labels := in_labels s0 @
       [\<lparr>lb_stream_id = sp_stream_id spec, lb_type = sp_type spec,
         lb_start_ns = m_ts_ns (in_msgs s0 ! (idx ! unat onset)),
         lb_end_ns = m_ts_ns (in_msgs s0 ! (idx ! unat final))\<rparr>]\<rparr>"
  have ne: "n \<noteq> 0" "sp_duration spec \<noteq> 0" using assms(4,5) n ob by (auto simp: onset_def)
  have ix: "idx = stream_indices (sp_stream_id spec) (in_msgs s0)" by (simp add: assms(1) s0_def)
  have "s = fault_loop spec (map m_value msgs) idx onset final s1"
    using inject_spec_fires [OF ix n_def ne o on final_def s1_def]
    by (simp add: assms(6) inject_faults_def s0_def)
  moreover have "[unat onset..<Suc (unat final)] = []" using f by simp
  ultimately have "s = s1" by (simp only: fault_loop_def fold_simps id_apply)
  then show ?thesis using f by (auto simp: s1_def s0_def onset_def)
qed

section \<open>What is on disk afterwards\<close>

text \<open>How much room a closed stream leaves.\<close>

lemma written_room:
  assumes "written room bs os d" "os_open os" "ofs_close os d = (os', d')"
  shows "d_room d' = room - length bs"
  using assms by (auto simp: ofs_close_def disk_append_def written_def split: if_splits)

lemma recording_room:
  assumes "recording room ms p r d" "recorder_close r d = (r', d')"
  shows "d_room d' = room - length (file_image ms)"
proof -
  obtain os1 d1 where f: "ofs_flush (rc_file r) d = (os1, d1)" by force
  obtain os2 d2 where c: "ofs_close os1 d1 = (os2, d2)" by force
  have "d' = d2" "os_open os1"
    using assms f c ofs_flush_same [of "rc_file r" d] by (auto simp: recorder_close_def recording_def)
  then show ?thesis
    using written_room [OF written_flush [OF _ f [symmetric]] _ c] assms(1) by (simp add: recording_def)
qed

fun kept :: "message list \<Rightarrow> bool list \<Rightarrow> message list" where
  "kept (m # ms) (x # xs) = (if x then kept ms xs else m # kept ms xs)"
| "kept _ _ = []"

lemma write_kept_recording:
  "recording room ms0 p r d \<Longrightarrow> write_kept ms xs r d = (True, r', d') \<Longrightarrow>
     recording room (ms0 @ kept ms xs) p r' d'"
proof (induction ms arbitrary: xs ms0 r d)
  case (Cons m ms)
  show ?case
  proof (cases xs)
    case Nil
    then show ?thesis using Cons.prems by simp
  next
    case (Cons x xs')
    obtain ok r1 d1 where w: "recorder_write m r d = (ok, r1, d1)" by (cases "recorder_write m r d")
    show ?thesis
    proof (cases x)
      case True
      then show ?thesis using Cons.prems Cons Cons.IH by simp
    next
      case False
      then have "write_kept ms xs' r1 d1 = (True, r', d')"
        using Cons.prems(2) Cons by (auto simp: w split: if_splits)
      then show ?thesis
        using Cons.IH [OF recording_write(1) [OF Cons.prems(1) w]] False Cons by simp
    qed
  qed
qed simp

lemma ofs_flush_other: "q \<noteq> os_path os \<Longrightarrow> d_files (snd (ofs_flush os d)) q = d_files d q"
  by (simp add: ofs_flush_def disk_append_def)

lemma ofs_close_other: "q \<noteq> os_path os \<Longrightarrow> d_files (snd (ofs_close os d)) q = d_files d q"
  by (simp add: ofs_close_def disk_append_def)

lemma ofs_puts_other:
  "q \<noteq> os_path os \<Longrightarrow> d_files (snd (ofs_puts ss os d)) q = d_files d q \<and> os_path (fst (ofs_puts ss os d)) = os_path os"
proof (induction ss arbitrary: os d)
  case (Cons s ss)
  obtain os1 d1 where w: "ofs_write (map byte_of s) os d = (os1, d1)" by force
  have "os_path os1 = os_path os" "d_files d1 q = d_files d q"
    using ofs_write_same [of "map byte_of s" os d] ofs_write_other [OF Cons.prems, of "map byte_of s" d]
    by (simp_all add: w)
  then show ?case using Cons.IH [of os1 d1] Cons.prems by (simp add: w)
qed simp

lemma write_labels_other:
  assumes "q \<noteq> p" "write_labels bufsz p ls d = (ok, d')"
  shows "d_files d' q = d_files d q"
proof -
  obtain os d1 where o: "ofs_open bufsz p d = (os, d1)" by force
  have o': "os_path os = p" "d_files d1 q = d_files d q" using o assms(1) by (auto simp: ofs_open_def split: if_splits)
  show ?thesis
  proof (cases "os_open os")
    case False
    then show ?thesis using assms(2) o o' by (simp add: write_labels_def)
  next
    case True
    obtain os2 d2 where u: "ofs_puts (concat (map label_pieces ls)) os d1 = (os2, d2)" by force
    obtain os3 d3 where f: "ofs_flush os2 d2 = (os3, d3)" by force
    have "os_path os2 = p" "d_files d2 q = d_files d q"
      using ofs_puts_other [of q os "concat (map label_pieces ls)" d1] assms(1) u o' by simp_all
    moreover from this have "os_path os3 = p" using f ofs_flush_same(1) [of os2 d2] by simp
    moreover from calculation have "d_files d3 q = d_files d2 q"
      using ofs_flush_other [of q os2 d2] assms(1) f by simp
    moreover have "d' = snd (ofs_close os3 d3)"
      using assms(2) True by (simp add: write_labels_def o u f case_prod_unfold)
    ultimately show ?thesis using ofs_close_other [of q os3 d3] assms(1) by simp
  qed
qed

lemma recorder_open_creatable:
  "recorder_open n p d = (r, d') \<Longrightarrow> recorder_is_open r \<Longrightarrow> d_creatable d p"
  by (cases "d_creatable d p") (auto simp: recorder_open_def ofs_open_def recorder_is_open_def)

lemma write_labels_creatable: "write_labels bufsz p ls d = (True, d') \<Longrightarrow> d_creatable d p"
  by (cases "d_creatable d p") (auto simp: write_labels_def ofs_open_def)

lemma inject_keeps_clean:
  assumes "length ms < 2 ^ 64" "s = inject_faults specs (map clean_message ms) rng"
  shows "map clean_message (kept (in_msgs s) (in_dropped s)) = kept (in_msgs s) (in_dropped s)"
proof -
  have ok: "inject_ok (map clean_message ms) s" using inject_faults_ok [of "map clean_message ms"] assms by simp
  have "clean_message m = m" if m: "m \<in> set (in_msgs s)" for m
  proof -
    obtain i where i: "i < length ms" "m = in_msgs s ! i" using m ok by (auto simp: in_set_conv_nth inject_ok_def)
    then have "m = (clean_message (ms ! i))\<lparr>m_value := m_value m\<rparr>"
      using ok by (simp add: inject_ok_def same_but_value_def)
    then have "m_pad0 m = 0 \<and> m_pad1 m = replicate 32 0"
      by (metis clean_message_pads message.select_convs(2,6) message.surjective message.update_convs(4))
    then show ?thesis by (simp add: clean_message_def)
  qed
  moreover have "set (kept as xs) \<subseteq> set as" for as xs by (induction as xs rule: kept.induct) auto
  ultimately show ?thesis by (intro map_idI) blast
qed

lemma inject_reads_recording:
  assumes "d_files d input = Some (file_image ms)"
  shows "rp_status (replayer_open input d) = kOk"
    "fst (replay_loop (replayer_open input d) zero_message []) = map clean_message ms"
proof -
  obtain res r where a: "replay_all input d = (res, r)" by force
  have img: "d_files d input = Some (take (length (file_image ms)) (file_image ms))" using assms(1) by simp
  have "whole_records (length (file_image ms)) = length ms"
    by (simp add: whole_records_def length_file_image kHeaderSize_def kRecordSize_def)
  then show "fst (replay_loop (replayer_open input d) zero_message []) = map clean_message ms"
    using replay_prefix [OF _ img a] a by (simp add: replay_all_def length_file_image kHeaderSize_def)
  show "rp_status (replayer_open input d) = kOk"
    using replayer_open_good [of d input "concat (map encode_record ms)"] assms(1) by (simp add: file_image_def)
qed

text \<open>When \<open>inject\<close> returns true, the labels file reads back as the ground truth of the faults it applied
  to the recording, and the output recording replays to exactly the faulted messages that were not
  dropped, provided at least one fault was labelled or the device had room for the recording. (The
  failure of the output's last flush goes unnoticed; without any label to write, nothing else would
  notice the full device.)\<close>

theorem inject_true_is_trustworthy:
  assumes "d_files d input = Some (file_image ms)" "length ms < 2 ^ 64" "out_path \<noteq> labels_path"
    "inject_impl bufsz input out_path labels_path specs rng d = (True, rng', d')"
    "s = inject_faults specs (map clean_message ms) rng"
    "in_labels s \<noteq> [] \<or> 8 + 64 * length (kept (in_msgs s) (in_dropped s)) \<le> d_room d"
  shows "read_labels labels_path d' = in_labels s \<and> rng' = in_rng s \<and>
    fst (replay_all out_path d') = kept (in_msgs s) (in_dropped s)"
proof -
  define ks where "ks = kept (in_msgs s) (in_dropped s)"
  note rd = inject_reads_recording [OF assms(1)]
  obtain rc d1 where o: "recorder_open bufsz out_path d = (rc, d1)" by force
  have op: "recorder_is_open rc" using assms(4) rd o by (auto simp: inject_impl_def Let_def split: if_splits prod.splits)
  obtain ok rc2 d2 where w: "write_kept (in_msgs s) (in_dropped s) rc d1 = (ok, rc2, d2)"
    by (cases "write_kept (in_msgs s) (in_dropped s) rc d1")
  obtain rc3 d3 where c: "recorder_close rc2 d2 = (rc3, d3)" by force
  obtain lok d4 where l: "write_labels bufsz labels_path (in_labels s) d3 = (lok, d4)" by force
  have r: "ok" "lok" "d' = d4" "rng' = in_rng s"
    using assms(4) rd(1) o op w c l unfolding inject_impl_def rd(2) [symmetric] assms(5)
    by (auto simp: Let_def case_prod_unfold split: if_splits)
  note cr = recorder_open_creatable [OF o op]
  have rec: "recording (d_room d) ks out_path rc2 d2"
    using write_kept_recording [OF recording_open(1) [OF cr o]] w r(1) by (simp add: ks_def)
  have l': "write_labels bufsz labels_path (in_labels s) d3 = (True, d')" using l r by simp
  note lc = write_labels_creatable [OF l']
  have room: "d_room d3 = d_room d - length (file_image ks)" using recording_room [OF rec c] .
  have full: "length (file_image ks) \<le> d_room d"
  proof (cases "in_labels s = []")
    case True
    then show ?thesis using assms(6) by (simp add: length_file_image kHeaderSize_def kRecordSize_def ks_def)
  next
    case False
    then have "0 < length (labels_text (in_labels s))" by (cases "in_labels s") (simp_all add: labels_text_def)
    moreover have "length (labels_text (in_labels s)) \<le> d_room d3" using write_labels_result(2) [OF lc l'] by simp
    ultimately show ?thesis using room by linarith
  qed
  have b: "file_bytes out_path d' = file_image ks"
    using recording_close(1) [OF rec c] write_labels_other [OF assms(3) l'] full by (simp add: file_bytes_def)
  moreover have "0 < length (file_image ks)" by (simp add: length_file_image kHeaderSize_def)
  ultimately have img: "d_files d' out_path = Some (take (length (file_image ks)) (file_image ks))"
    using file_bytes_Some [where p = out_path] b by fastforce
  obtain res rr where a: "replay_all out_path d' = (res, rr)" by force
  have "whole_records (length (file_image ks)) = length ks"
    by (simp add: whole_records_def length_file_image kHeaderSize_def kRecordSize_def)
  then have "res = map clean_message ks"
    using replay_prefix [OF _ img a] by (simp add: length_file_image kHeaderSize_def)
  then show ?thesis
    using labels_read_back [OF lc l'] inject_keeps_clean [OF assms(2,5)] a r(4) by (simp add: ks_def)
qed

theorem faults_are_labelled_witness:
  "in_msgs (inject_faults [\<lparr>sp_type = KStuckAtValue, sp_stream_id = 1, sp_onset = 0, sp_duration = 1, sp_magnitude = 0\<rparr>]
     [zero_message, zero_message\<lparr>m_stream_id := 1\<rparr>] 5) ! 0 =
   zero_message\<lparr>m_value := m_value (in_msgs (inject_faults
     [\<lparr>sp_type = KStuckAtValue, sp_stream_id = 1, sp_onset = 0, sp_duration = 1, sp_magnitude = 0\<rparr>]
     [zero_message, zero_message\<lparr>m_stream_id := 1\<rparr>] 5) ! 0)\<rparr>"
  using faults_are_labelled [OF _ refl, of "[zero_message, zero_message\<lparr>m_stream_id := 1\<rparr>]" 0
      "[\<lparr>sp_type = KStuckAtValue, sp_stream_id = 1, sp_onset = 0, sp_duration = 1, sp_magnitude = 0\<rparr>]" 5]
  by simp

text \<open>A stream of three samples among other messages.\<close>

definition three_samples :: "message list" where
  "three_samples = map (\<lambda>(i, t). zero_message\<lparr>m_stream_id := i, m_ts_ns := t\<rparr>) [(1, 10), (2, 11), (1, 12), (1, 13)]"

lemma three_indices: "stream_indices 1 three_samples = [0, 2, 3]"
  by (simp add: stream_indices_def three_samples_def upt_rec)

lemma three_length: "length three_samples = 4"
  by (simp add: three_samples_def)

theorem auto_onset_window_witness:
  "length (in_labels (inject_faults [\<lparr>sp_type = KDropout, sp_stream_id = 1, sp_onset = kAutoOnset, sp_duration = 2,
     sp_magnitude = 0\<rparr>] three_samples 42)) = 1"
proof -
  define spec where "spec = \<lparr>sp_type = KDropout, sp_stream_id = 1, sp_onset = kAutoOnset, sp_duration = 2,
     sp_magnitude = 0\<rparr>"
  have p: "sp_onset spec = kAutoOnset" "0 < sp_duration spec" "sp_stream_id spec = 1" "unat (sp_duration spec) = 2"
    by (simp_all add: spec_def)
  have "length three_samples < 2 ^ 64" by (simp add: three_length)
  moreover have "unat (sp_duration spec) \<le> length (stream_indices (sp_stream_id spec) three_samples)"
    by (simp add: p three_indices)
  ultimately have "\<exists>l. in_labels (inject_faults [spec] three_samples 42) = [l]"
    using auto_onset_window [OF refl _ p(1,2) _ refl, of three_samples 42] by blast
  then show ?thesis by (auto simp: spec_def)
qed

theorem fault_duration_overflow_witness:
  "in_msgs (inject_faults [\<lparr>sp_type = KSpike, sp_stream_id = 1, sp_onset = 2, sp_duration = 0xFFFFFFFFFFFFFFFF, sp_magnitude = 0\<rparr>]
     three_samples 42) = three_samples"
proof -
  define spec where "spec = \<lparr>sp_type = KSpike, sp_stream_id = 1, sp_onset = 2, sp_duration = 0xFFFFFFFFFFFFFFFF,
     sp_magnitude = 0\<rparr>"
  have p: "sp_onset spec \<noteq> kAutoOnset" "sp_stream_id spec = 1" "sp_onset spec = 2"
    "2 ^ 64 < unat (sp_onset spec) + unat (sp_duration spec)"
    by (simp_all add: spec_def kAutoOnset_def)
  have "length three_samples < 2 ^ 63" by (simp add: three_length)
  moreover have "unat (sp_onset spec) < length (stream_indices (sp_stream_id spec) three_samples)"
    by (simp add: p three_indices)
  ultimately have "in_msgs (inject_faults [spec] three_samples 42) = three_samples"
    using fault_duration_overflow [OF refl _ p(1) _ p(4) refl, of three_samples 42] by blast
  then show ?thesis by (simp add: spec_def)
qed

section \<open>Success\<close>

lemma creatable_kept [simp]:
  "d_creatable (snd (ofs_open n p d)) = d_creatable d"
  "d_creatable (snd (ofs_write bs os d)) = d_creatable d"
  "d_creatable (snd (ofs_flush os d)) = d_creatable d"
  "d_creatable (snd (ofs_close os d)) = d_creatable d"
  by (simp_all add: ofs_open_def ofs_write_def ofs_flush_def ofs_close_def disk_append_def)

lemma recorder_creatable_kept [simp]:
  "d_creatable (snd (recorder_open n p d)) = d_creatable d"
  "d_creatable (snd (snd (recorder_write m r d))) = d_creatable d"
  "d_creatable (snd (recorder_close r d)) = d_creatable d"
  by (simp_all add: recorder_open_def recorder_write_def recorder_close_def Let_def case_prod_unfold)

lemma write_kept_creatable: "d_creatable (snd (snd (write_kept ms xs r d))) = d_creatable d"
proof (induction ms arbitrary: xs r d)
  case (Cons m ms)
  then show ?case
    using recorder_creatable_kept(2) [of m r d] by (cases xs) (simp_all add: case_prod_unfold Let_def)
qed simp

lemma recording_header: "recording room ms p r d \<Longrightarrow> length (file_image ms) \<le> room \<Longrightarrow> recorder_is_open r"
  using recording_good [of room ms p r d] by (auto simp: recording_def recorder_is_open_def)

lemma length_file_image_mono: "length (file_image as) \<le> length (file_image (as @ bs))"
  by (simp add: length_file_image)

lemma write_kept_succeeds:
  "recording room ms0 p r d \<Longrightarrow> length (file_image (ms0 @ kept ms xs)) \<le> room \<Longrightarrow>
     fst (write_kept ms xs r d)"
proof (induction ms arbitrary: xs ms0 r d)
  case (Cons m ms)
  show ?case
  proof (cases xs)
    case (Cons x xs')
    obtain ok r1 d1 where w: "recorder_write m r d = (ok, r1, d1)" by (cases "recorder_write m r d")
    show ?thesis
    proof (cases x)
      case True
      then show ?thesis using Cons.prems Cons Cons.IH by simp
    next
      case False
      note rw = recording_write(1,2) [OF Cons.prems(1) w]
      have img: "length (file_image ((ms0 @ [m]) @ kept ms xs')) \<le> room" using Cons.prems(2) Cons False by simp
      then have "ok" using rw(2) recording_good [OF rw(1)] length_file_image_mono [of "ms0 @ [m]" "kept ms xs'"] by simp
      then show ?thesis using Cons.IH [OF rw(1) img] w False Cons by simp
    qed
  qed simp
qed simp

lemma inject_succeeds:
  assumes "d_files d input = Some (file_image ms)" "d_creatable d out_path" "d_creatable d labels_path"
    "s = inject_faults specs (map clean_message ms) rng"
    "length (file_image (kept (in_msgs s) (in_dropped s))) + length (labels_text (in_labels s)) \<le> d_room d"
  shows "fst (inject_impl bufsz input out_path labels_path specs rng d)"
proof -
  note rd = inject_reads_recording [OF assms(1)]
  obtain rc d1 where o: "recorder_open bufsz out_path d = (rc, d1)" by force
  note rec0 = recording_open(1) [OF assms(2) o]
  have "length (file_image []) \<le> d_room d"
    using assms(5) length_file_image_mono [of "[]" "kept (in_msgs s) (in_dropped s)"] by simp
  note op = recording_header [OF rec0 this]
  obtain ok rc2 d2 where w: "write_kept (in_msgs s) (in_dropped s) rc d1 = (ok, rc2, d2)"
    by (cases "write_kept (in_msgs s) (in_dropped s) rc d1")
  have ok: "ok" using write_kept_succeeds [OF rec0, of "in_msgs s" "in_dropped s"] assms(5) w by simp
  obtain rc3 d3 where c: "recorder_close rc2 d2 = (rc3, d3)" by force
  obtain lok d4 where l: "write_labels bufsz labels_path (in_labels s) d3 = (lok, d4)" by force
  have "d_creatable d3 = d_creatable d"
    using recorder_creatable_kept(1) [of bufsz out_path d] write_kept_creatable [of "in_msgs s" "in_dropped s" rc d1]
      recorder_creatable_kept(3) [of rc2 d2] o w c by simp
  moreover have "d_room d3 = d_room d - length (file_image (kept (in_msgs s) (in_dropped s)))"
    using recording_room [OF _ c] write_kept_recording [OF rec0] w ok by fastforce
  ultimately have "lok" using write_labels_result(2) [OF _ l] assms(3,5) by simp
  then show ?thesis
    using rd(1) o op w ok c l unfolding inject_impl_def rd(2) [symmetric] assms(4)
    by (simp add: Let_def case_prod_unfold)
qed

text \<open>A recording of four samples, one of them dropped.\<close>

definition one_dropout :: fault_spec where
  "one_dropout = \<lparr>sp_type = KDropout, sp_stream_id = 1, sp_onset = 1, sp_duration = 1, sp_magnitude = 0\<rparr>"

lemma one_dropout_faults:
  "inject_faults [one_dropout] (map clean_message three_samples) 5 =
     \<lparr>in_msgs = three_samples, in_dropped = [False, False, True, False],
      in_labels = [\<lparr>lb_stream_id = 1, lb_type = KDropout, lb_start_ns = 12, lb_end_ns = 12\<rparr>], in_rng = 5\<rparr>"
proof -
  have c: "map clean_message three_samples = three_samples"
    by (simp add: three_samples_def clean_message_def zero_message_def)
  have w: "\<not> (3 :: u64) \<le> 1" by (simp add: word_le_nat_alt)
  have r: "(replicate 4 False)[2 := True] = [False, False, True, False]" by (simp add: eval_nat_numeral)
  show ?thesis unfolding c
    by (simp add: w r inject_faults_def inject_spec_def three_indices fault_onset_def one_dropout_def kAutoOnset_def
        fault_loop_def fault_apply_def Let_def three_length)
      (simp add: three_samples_def upt_rec w r)
qed

theorem inject_true_is_trustworthy_witness:
  "case inject_impl 16 ''in'' ''out'' ''labels'' [one_dropout] 5
      ((sample_disk 1000)\<lparr>d_files := [''in'' \<mapsto> file_image three_samples]\<rparr>) of
     (ok, rng', d') \<Rightarrow> ok \<and> length (fst (replay_all ''out'' d')) = 3 \<and>
       read_labels ''labels'' d' = [\<lparr>lb_stream_id = 1, lb_type = KDropout, lb_start_ns = 12, lb_end_ns = 12\<rparr>]"
proof -
  define d where "d = (sample_disk 1000)\<lparr>d_files := [''in'' \<mapsto> file_image three_samples]\<rparr>"
  have d: "d_files d ''in'' = Some (file_image three_samples)" "d_creatable d p" "d_room d = 1000" for p
    by (simp_all add: d_def sample_disk_def)
  obtain ok rng' d' where i: "inject_impl 16 ''in'' ''out'' ''labels'' [one_dropout] 5 d = (ok, rng', d')"
    by (cases "inject_impl 16 ''in'' ''out'' ''labels'' [one_dropout] 5 d")
  define s where "s = inject_faults [one_dropout] (map clean_message three_samples) 5"
  have s: "length (kept (in_msgs s) (in_dropped s)) = 3"
    "in_labels s = [\<lparr>lb_stream_id = 1, lb_type = KDropout, lb_start_ns = 12, lb_end_ns = 12\<rparr>]"
    by (simp_all add: s_def one_dropout_faults) (simp add: three_samples_def)
  have "length (labels_text (in_labels s)) = 16"
    by (simp add: s labels_text_def label_line_def fault_type_name_def show_int_def show_nat.simps)
  then have "ok"
    using inject_succeeds [OF d(1,2,2) s_def, of 16 "''out''" "''labels''"] i s(1) d(3)
    by (simp add: length_file_image kHeaderSize_def kRecordSize_def)
  then have "read_labels ''labels'' d' = in_labels s \<and> fst (replay_all ''out'' d') = kept (in_msgs s) (in_dropped s)"
    using inject_true_is_trustworthy [OF d(1) _ _ _ s_def, of "''out''" "''labels''" 16 rng' d'] i s(2)
    by (simp add: three_length)
  then show ?thesis using \<open>ok\<close> s unfolding d_def [symmetric] i by simp
qed

end
