(* ===== verification/Rules.thy ===== *)
theory Rules
  imports Text_Input
begin

text \<open>
  Layer 1 of the detector, \<open>include/detect/rules.hpp\<close>: \<open>RuleChecker\<close> (hard bounds and rate of change per
  stream) and the startup parser \<open>load_rule_config\<close>. The exceptions of the parser are the left side of
  a sum; a file that cannot be opened is None.
\<close>

datatype rule_result = ROk | ROutOfBounds | RRateViolation

record rule_config =
  rg_stream_id :: u32
  rg_min :: double
  rg_max :: double
  rg_max_rate :: double

record rule_state =
  rs_cfg :: rule_config
  rs_prev_value :: double
  rs_prev_ts_ns :: u64
  rs_has_prev :: bool

type_synonym rule_checker = "u32 \<rightharpoonup> rule_state"

definition rules_init :: rule_checker where
  "rules_init = Map.empty"

definition rules_add :: "rule_config \<Rightarrow> rule_checker \<Rightarrow> rule_checker" where
  "rules_add cfg rules = rules(rg_stream_id cfg \<mapsto>
     \<lparr>rs_cfg = cfg, rs_prev_value = 0, rs_prev_ts_ns = 0, rs_has_prev = False\<rparr>)"

definition rule_rate :: "double \<Rightarrow> u64 \<Rightarrow> rule_state \<Rightarrow> double" where
  "rule_rate value ts_ns st =
     (let dt = d_div (d_of_int (sint (ts_ns - rs_prev_ts_ns st))) d_1e9;
          dv = d_sub value (rs_prev_value st)
      in d_div (if d_lt dv 0 then d_uminus dv else dv) dt)"

definition rules_check :: "u32 \<Rightarrow> double \<Rightarrow> u64 \<Rightarrow> rule_checker \<Rightarrow> rule_result \<times> rule_checker" where
  "rules_check stream_id value ts_ns rules =
     (case rules stream_id of
        None \<Rightarrow> (ROk, rules)
      | Some st \<Rightarrow>
          (let result =
             (if d_lt value (rg_min (rs_cfg st)) \<or> d_lt (rg_max (rs_cfg st)) value then ROutOfBounds
              else if rs_has_prev st \<and> sint (rs_prev_ts_ns st) < sint ts_ns
              then (if d_lt (rg_max_rate (rs_cfg st)) (rule_rate value ts_ns st) then RRateViolation else ROk)
              else ROk)
           in (result, rules(stream_id \<mapsto>
                 st\<lparr>rs_prev_value := value, rs_prev_ts_ns := ts_ns, rs_has_prev := True\<rparr>))))"

section \<open>The configuration file\<close>

datatype rule_error = CannotOpen | InvalidValue string string | MissingField | MinNotBelowMax

definition parse_u32_or_throw :: "string \<Rightarrow> string \<Rightarrow> rule_error + u32" where
  "parse_u32_or_throw key val =
     (case from_chars_u32 val of
        Some (v, rest) \<Rightarrow> if rest = [] then Inr v else Inl (InvalidValue key val)
      | None \<Rightarrow> Inl (InvalidValue key val))"

definition parse_double_or_throw :: "string \<Rightarrow> string \<Rightarrow> rule_error + double" where
  "parse_double_or_throw key val =
     (let (v, rest) = strtod val
      in if rest \<noteq> [] \<or> val = [] then Inl (InvalidValue key val) else Inr v)"

text \<open>The four optionals the loop fills.\<close>

record rule_fields =
  rf_stream_id :: "u32 option"
  rf_min :: "double option"
  rf_max :: "double option"
  rf_max_rate :: "double option"

definition rule_line :: "string \<Rightarrow> rule_fields \<Rightarrow> rule_error + rule_fields" where
  "rule_line line f =
     (let line = (case split_at CHR ''#'' line of None \<Rightarrow> line | Some (before, _) \<Rightarrow> before)
      in case split_at CHR '':'' line of
           None \<Rightarrow> Inr f
         | Some (key, val) \<Rightarrow>
             (let key = trim key; val = trim val
              in if key = [] \<or> val = [] then Inr f
                 else if key = ''stream_id''
                 then map_sum id (\<lambda>v. f\<lparr>rf_stream_id := Some v\<rparr>) (parse_u32_or_throw key val)
                 else if key = ''min''
                 then map_sum id (\<lambda>v. f\<lparr>rf_min := Some v\<rparr>) (parse_double_or_throw key val)
                 else if key = ''max''
                 then map_sum id (\<lambda>v. f\<lparr>rf_max := Some v\<rparr>) (parse_double_or_throw key val)
                 else if key = ''max_rate_of_change''
                 then map_sum id (\<lambda>v. f\<lparr>rf_max_rate := Some v\<rparr>) (parse_double_or_throw key val)
                 else Inr f))"

fun rule_lines :: "string list \<Rightarrow> rule_fields \<Rightarrow> rule_error + rule_fields" where
  "rule_lines [] f = Inr f"
| "rule_lines (l # ls) f = (case rule_line l f of Inl e \<Rightarrow> Inl e | Inr f \<Rightarrow> rule_lines ls f)"

definition no_fields :: rule_fields where
  "no_fields = \<lparr>rf_stream_id = None, rf_min = None, rf_max = None, rf_max_rate = None\<rparr>"

definition load_rule_config :: "string option \<Rightarrow> rule_error + rule_config" where
  "load_rule_config file_text =
     (case file_text of
        None \<Rightarrow> Inl CannotOpen
      | Some txt \<Rightarrow>
          (case rule_lines (lines_of txt) no_fields of
             Inl e \<Rightarrow> Inl e
           | Inr f \<Rightarrow>
               (case (rf_stream_id f, rf_min f, rf_max f, rf_max_rate f) of
                  (Some i, Some mn, Some mx, Some rate) \<Rightarrow>
                    if d_le mx mn then Inl MinNotBelowMax
                    else Inr \<lparr>rg_stream_id = i, rg_min = mn, rg_max = mx, rg_max_rate = rate\<rparr>
                | _ \<Rightarrow> Inl MissingField)))"

section \<open>The checker\<close>

lemma rules_check_same: "j \<noteq> i \<Longrightarrow> snd (rules_check i v t rules) j = rules j"
  by (simp add: rules_check_def Let_def split: option.splits)

lemma rules_check_records:
  "rules i = Some st \<Longrightarrow> snd (rules_check i v t rules) i =
     Some (st\<lparr>rs_prev_value := v, rs_prev_ts_ns := t, rs_has_prev := True\<rparr>)"
  by (simp add: rules_check_def Let_def)

text \<open>C35: The bounds are checked on the exact numbers: for a value and bounds that are numbers the check
  reports out of bounds exactly when the value is strictly outside the closed interval, before the
  rate is looked at; whatever the result, the sample becomes the stream's previous one and no other
  stream is touched. A stream without a rule is never reported and gets no state.\<close>

theorem rules_bounds_exact:
  assumes "rules i = Some st" "\<not> is_nan v" "\<not> is_nan (rg_min (rs_cfg st))" "\<not> is_nan (rg_max (rs_cfg st))"
  shows "(fst (rules_check i v t rules) = ROutOfBounds \<longleftrightarrow>
      \<not> (d_fix (rg_min (rs_cfg st)) \<le> d_fix v \<and> d_fix v \<le> d_fix (rg_max (rs_cfg st)))) \<and>
    snd (rules_check i v t rules) = rules(i \<mapsto>
      st\<lparr>rs_prev_value := v, rs_prev_ts_ns := t, rs_has_prev := True\<rparr>) \<and>
    (\<forall>j. rules j = None \<longrightarrow> rules_check j v t rules = (ROk, rules))"
  using assms by (auto simp: rules_check_def Let_def d_lt_fix)

text \<open>A rate is reported only against an earlier sample of the same stream.\<close>

lemma rules_rate_only_forward:
  "rules i = Some st \<Longrightarrow> fst (rules_check i v t rules) = RRateViolation \<Longrightarrow>
   rs_has_prev st \<and> sint (rs_prev_ts_ns st) < sint t \<and>
   d_lt (rg_max_rate (rs_cfg st)) (rule_rate v t st)"
  by (auto simp: rules_check_def Let_def split: if_splits)

lemma nan_uminus: "is_nan (if b then d_uminus a else a) = is_nan a"
  by simp

lemma rule_rate_nan: "is_nan v \<or> is_nan (rs_prev_value st) \<Longrightarrow> is_nan (rule_rate v t st)"
proof -
  assume a: "is_nan v \<or> is_nan (rs_prev_value st)"
  then have "d_sub v (rs_prev_value st) = d_nan" by (rule nan_arith(2))
  then have "rule_rate v t st = d_nan"
    unfolding rule_rate_def Let_def by (intro nan_arith(4)) (simp add: nan_uminus)
  then show ?thesis by simp
qed

text \<open>A NaN is invisible to the rules: a NaN sample is reported as fine whatever the configured bounds
  and rate, and the sample after it, if it is inside the bounds, is fine too however far it jumped.\<close>

theorem rules_pass_nan:
  assumes "is_nan v" "rules_check i v t rules = (r, rules')"
    "rules' i = Some st'" "\<not> d_lt w (rg_min (rs_cfg st'))" "\<not> d_lt (rg_max (rs_cfg st')) w"
  shows "r = ROk \<and> fst (rules_check i w t' rules') = ROk"
proof -
  obtain st where st: "rules i = Some st"
    using assms(2,3) by (cases "rules i") (auto simp: rules_check_def)
  have r: "r = ROk"
    using assms(1,2) st rule_rate_nan [of v st t] by (auto simp: rules_check_def Let_def)
  have "rs_prev_value st' = v"
    using rules_check_records [of rules i st v t] st assms(2,3) by auto
  then have "is_nan (rule_rate w t' st')" using assms(1) by (intro rule_rate_nan) simp
  then show ?thesis using r assms(3-5) by (simp add: rules_check_def Let_def)
qed


text \<open>A rule for 49 to 51 (Hz) with at most 1 per second, for the examples.\<close>

definition sample_rules :: rule_checker where
  "sample_rules = rules_add \<lparr>rg_stream_id = 1, rg_min = 0x4048800000000000, rg_max = 0x4049800000000000,
     rg_max_rate = 0x3FF0000000000000\<rparr> rules_init"

lemma sample_rules_1: "sample_rules 1 = Some \<lparr>rs_cfg = \<lparr>rg_stream_id = 1, rg_min = 0x4048800000000000,
    rg_max = 0x4049800000000000, rg_max_rate = 0x3FF0000000000000\<rparr>, rs_prev_value = 0,
    rs_prev_ts_ns = 0, rs_has_prev = False\<rparr>"
  by (simp add: sample_rules_def rules_add_def rules_init_def)

theorem rules_bounds_exact_witness:
  "fst (rules_check 1 0x404A000000000000 0 sample_rules) = ROutOfBounds"
  using rules_bounds_exact [of sample_rules 1, OF sample_rules_1, of "0x404A000000000000" 0]
  by (simp add: is_nan_def d_mag_def inf_mag_def d_fix_def d_neg_def mag_fix_def mag_mant_def mag_scale_def)

theorem rules_pass_nan_witness:
  "fst (rules_check 1 d_nan 0 sample_rules) = ROk \<and>
   fst (rules_check 1 0x4049000000000000 1 (snd (rules_check 1 d_nan 0 sample_rules))) = ROk"
proof -
  obtain r rules' where c: "rules_check 1 d_nan 0 sample_rules = (r, rules')" by force
  define st' where "st' = \<lparr>rs_cfg = \<lparr>rg_stream_id = 1, rg_min = 0x4048800000000000,
    rg_max = 0x4049800000000000, rg_max_rate = 0x3FF0000000000000\<rparr>, rs_prev_value = d_nan,
    rs_prev_ts_ns = 0, rs_has_prev = True\<rparr>"
  have s: "rules' 1 = Some st'"
    using rules_check_records [of sample_rules 1, OF sample_rules_1, of d_nan 0] c by (simp add: st'_def)
  have "r = ROk \<and> fst (rules_check 1 0x4049000000000000 1 rules') = ROk"
    by (rule rules_pass_nan [OF _ c s]) (simp_all add: st'_def d_lt_def d_key_def d_neg_def d_mag_def)
  then show ?thesis by (simp add: c)
qed

section \<open>What the parser accepts\<close>

text \<open>The key and value of a line, after the comment is cut off and both are trimmed.\<close>

definition rule_entry :: "string \<Rightarrow> (string \<times> string) option" where
  "rule_entry line =
     (case split_at CHR '':'' (case split_at CHR ''#'' line of None \<Rightarrow> line | Some (before, _) \<Rightarrow> before) of
        None \<Rightarrow> None
      | Some (key, val) \<Rightarrow> if trim key = [] \<or> trim val = [] then None else Some (trim key, trim val))"

definition rule_values :: "string \<Rightarrow> string list \<Rightarrow> string list" where
  "rule_values key ls = map snd (filter (\<lambda>e. fst e = key) (List.map_filter rule_entry ls))"

definition reads_u32 :: "string \<Rightarrow> bool" where
  "reads_u32 v \<longleftrightarrow> (case from_chars_u32 v of Some (_, rest) \<Rightarrow> rest = [] | None \<Rightarrow> False)"

definition reads_double :: "string \<Rightarrow> bool" where
  "reads_double v \<longleftrightarrow> v \<noteq> [] \<and> snd (strtod v) = []"

definition u32_of :: "string \<Rightarrow> u32" where
  "u32_of v = (case from_chars_u32 v of Some (x, _) \<Rightarrow> x | None \<Rightarrow> 0)"

definition last_value :: "(string \<Rightarrow> 'a) \<Rightarrow> string list \<Rightarrow> 'a option \<Rightarrow> 'a option" where
  "last_value conv vs old = (if vs = [] then old else Some (conv (last vs)))"

definition rule_values_ok :: "string list \<Rightarrow> bool" where
  "rule_values_ok ls \<longleftrightarrow> list_all reads_u32 (rule_values ''stream_id'' ls) \<and>
     list_all reads_double (rule_values ''min'' ls) \<and> list_all reads_double (rule_values ''max'' ls) \<and>
     list_all reads_double (rule_values ''max_rate_of_change'' ls)"

lemma parse_reads:
  "parse_u32_or_throw key v = (if reads_u32 v then Inr (u32_of v) else Inl (InvalidValue key v))"
  "parse_double_or_throw key v = (if reads_double v then Inr (fst (strtod v)) else Inl (InvalidValue key v))"
  by (auto simp: parse_u32_or_throw_def reads_u32_def u32_of_def parse_double_or_throw_def
      reads_double_def Let_def split: option.splits prod.splits)

lemma rule_values_simps:
  "rule_values key [] = []"
  "rule_entry l = None \<Longrightarrow> rule_values key (l # ls) = rule_values key ls"
  "rule_entry l = Some (k, v) \<Longrightarrow>
     rule_values key (l # ls) = (if k = key then v # rule_values key ls else rule_values key ls)"
  by (simp_all add: rule_values_def List.map_filter_def)

lemma last_value_Cons: "last_value conv (v # vs) old = last_value conv vs (Some (conv v))"
  by (simp add: last_value_def)

lemma rule_line_entry:
  "rule_line l f = (case rule_entry l of
      None \<Rightarrow> Inr f
    | Some (key, val) \<Rightarrow>
        if key = ''stream_id'' then map_sum id (\<lambda>v. f\<lparr>rf_stream_id := Some v\<rparr>) (parse_u32_or_throw key val)
        else if key = ''min'' then map_sum id (\<lambda>v. f\<lparr>rf_min := Some v\<rparr>) (parse_double_or_throw key val)
        else if key = ''max'' then map_sum id (\<lambda>v. f\<lparr>rf_max := Some v\<rparr>) (parse_double_or_throw key val)
        else if key = ''max_rate_of_change''
        then map_sum id (\<lambda>v. f\<lparr>rf_max_rate := Some v\<rparr>) (parse_double_or_throw key val)
        else Inr f)"
  by (simp add: rule_line_def rule_entry_def Let_def split: option.splits prod.splits)

definition fields_after :: "string list \<Rightarrow> rule_fields \<Rightarrow> rule_fields" where
  "fields_after ls f =
     \<lparr>rf_stream_id = last_value u32_of (rule_values ''stream_id'' ls) (rf_stream_id f),
      rf_min = last_value (fst \<circ> strtod) (rule_values ''min'' ls) (rf_min f),
      rf_max = last_value (fst \<circ> strtod) (rule_values ''max'' ls) (rf_max f),
      rf_max_rate = last_value (fst \<circ> strtod) (rule_values ''max_rate_of_change'' ls) (rf_max_rate f)\<rparr>"

lemma rule_lines_spec:
  "rule_lines ls f = Inr f' \<longleftrightarrow> rule_values_ok ls \<and> f' = fields_after ls f"
proof (induction ls arbitrary: f)
  case Nil
  then show ?case by (auto simp: rule_values_ok_def rule_values_simps fields_after_def last_value_def)
next
  case (Cons l ls)
  show ?case
  proof (cases "rule_entry l")
    case None
    then show ?thesis
      using Cons by (simp add: rule_line_entry rule_values_ok_def rule_values_simps fields_after_def)
  next
    case (Some kv)
    obtain k v where kv: "rule_entry l = Some (k, v)" using Some by (cases kv) simp
    show ?thesis
      using Cons
      by (auto simp: rule_line_entry kv parse_reads rule_values_ok_def rule_values_simps(3) [OF kv]
          fields_after_def last_value_Cons)
  qed
qed

text \<open>C13: The parser accepts a file exactly when every value given for one of the four keys can be read
  completely, each key occurs, and the last minimum is not at or above the last maximum; the result
  holds the last value of each key. Comments, blank lines and other keys do not matter.\<close>

theorem load_rule_config_spec:
  "load_rule_config (Some txt) = Inr cfg \<longleftrightarrow>
     rule_values_ok (lines_of txt) \<and>
     last_value u32_of (rule_values ''stream_id'' (lines_of txt)) None = Some (rg_stream_id cfg) \<and>
     last_value (fst \<circ> strtod) (rule_values ''min'' (lines_of txt)) None = Some (rg_min cfg) \<and>
     last_value (fst \<circ> strtod) (rule_values ''max'' (lines_of txt)) None = Some (rg_max cfg) \<and>
     last_value (fst \<circ> strtod) (rule_values ''max_rate_of_change'' (lines_of txt)) None = Some (rg_max_rate cfg) \<and>
     \<not> d_le (rg_max cfg) (rg_min cfg)"
proof (cases "rule_lines (lines_of txt) no_fields")
  case (Inl e)
  then have "\<not> rule_values_ok (lines_of txt)"
    using rule_lines_spec [of "lines_of txt" no_fields "fields_after (lines_of txt) no_fields"] by auto
  then show ?thesis using Inl by (simp add: load_rule_config_def)
next
  case (Inr f)
  then have "rule_values_ok (lines_of txt)" "f = fields_after (lines_of txt) no_fields"
    using rule_lines_spec by blast+
  then show ?thesis using Inr
    by (cases cfg) (auto simp: load_rule_config_def fields_after_def no_fields_def split: option.splits if_splits)
qed

text \<open>NaN bounds load: the check \<open>min >= max\<close> does not see them, and the stream is then never out of
  bounds, whatever the value.\<close>

theorem load_accepts_nan_bounds:
  "case load_rule_config (Some (''stream_id: 7'' @ [CHR 0x0A] @ ''min: nan # none'' @ [CHR 0x0A] @
      ''max: nan'' @ [CHR 0x0A] @ ''max_rate_of_change: 1'' @ [CHR 0x0A])) of
     Inl e \<Rightarrow> False
   | Inr cfg \<Rightarrow> is_nan (rg_min cfg) \<and> is_nan (rg_max cfg) \<and> rg_stream_id cfg = 7 \<and>
       fst (rules_check 7 v t (rules_add cfg rules_init)) = ROk"
proof -
  have "load_rule_config (Some (''stream_id: 7'' @ [CHR 0x0A] @ ''min: nan # none'' @ [CHR 0x0A] @
      ''max: nan'' @ [CHR 0x0A] @ ''max_rate_of_change: 1'' @ [CHR 0x0A])) =
    Inr \<lparr>rg_stream_id = 7, rg_min = d_nan, rg_max = d_nan, rg_max_rate = 0x3FF0000000000000\<rparr>"
    by (simp add: load_rule_config_def rule_line_def no_fields_def parse_u32_or_throw_def
        parse_double_or_throw_def text_eval d_round_def round_mag_def d_make_def bit_length_eval
        d_le_def inf_mag_def)
  then show ?thesis
    by (simp add: rules_check_def rules_add_def Let_def)
qed

end
