(* ===== verification/Python_Bindings.thy ===== *)
theory Python_Bindings
  imports Fault_Injector Rules
begin

text \<open>
  The code of its own in \<open>src/bindings/bindings.cpp\<close>: \<open>replayer_next\<close>, which turns the end of a stream into
  Python's \<open>StopIteration\<close>, and the constructors given to Python for messages, fault specifications and
  rules. The classes and functions it registers are the calls of \<open>Python_Module\<close>.
  A Python \<open>for\<close> loop (or \<open>list\<close>) over a replayer calls \<open>replayer_next\<close> until it raises: \<open>py_iterate\<close>.
\<close>

datatype py_exception = StopIteration | RuntimeError rule_error | TypeError | AttributeError

definition py_replayer_next :: "replayer \<Rightarrow> (py_exception + message) \<times> replayer" where
  "py_replayer_next r =
     (let m = zero_message; (ok, r, m) = replayer_next r m
      in if \<not> ok then (Inl StopIteration, r) else (Inr m, r))"

definition py_message :: "u32 \<Rightarrow> u64 \<Rightarrow> double \<Rightarrow> u64 \<Rightarrow> message" where
  "py_message stream_id ts_ns value seq =
     (let msg = zero_message;
          msg = msg\<lparr>m_stream_id := stream_id\<rparr>;
          msg = msg\<lparr>m_ts_ns := ts_ns\<rparr>;
          msg = msg\<lparr>m_value := value\<rparr>
      in msg\<lparr>m_seq := seq\<rparr>)"

definition py_fault_spec :: "fault_type \<Rightarrow> u32 \<Rightarrow> u64 \<Rightarrow> u64 \<Rightarrow> double \<Rightarrow> fault_spec" where
  "py_fault_spec type stream_id onset_index duration magnitude =
     \<lparr>sp_type = type, sp_stream_id = stream_id, sp_onset = onset_index, sp_duration = duration,
      sp_magnitude = magnitude\<rparr>"

definition py_rule_config :: "u32 \<Rightarrow> double \<Rightarrow> double \<Rightarrow> double \<Rightarrow> rule_config" where
  "py_rule_config stream_id lo hi max_rate_of_change =
     \<lparr>rg_stream_id = stream_id, rg_min = lo, rg_max = hi, rg_max_rate = max_rate_of_change\<rparr>"

function py_iterate :: "replayer \<Rightarrow> message list \<times> replayer" where
  "py_iterate r =
     (case py_replayer_next r of
        (Inl _, r') \<Rightarrow> ([], r')
      | (Inr m, r') \<Rightarrow> (let (ms, r'') = py_iterate r' in (m # ms, r'')))"
  by pat_completeness auto
termination
  by (relation "measure (\<lambda>r. length (is_rest (rp_file r)))")
    (auto simp: py_replayer_next_def Let_def split: prod.splits if_splits dest: replayer_next_shrinks)

declare py_iterate.simps [simp del]

section \<open>Iterating is replaying\<close>

lemma replayer_next_zero_padded:
  assumes "zero_padded m" "zero_padded m'" "replayer_next r m = (ok, r', x)"
  shows "\<exists>x'. replayer_next r m' = (ok, r', x') \<and> (ok \<longrightarrow> x' = x \<and> zero_padded x)"
  using assms by (auto simp: replayer_next_def decode_record_def zero_padded_def Let_def split: if_splits prod.splits)

lemma zero_padded_zero: "zero_padded zero_message"
  by (simp add: zero_padded_def zero_message_def)

lemma replay_loop_iterates:
  "zero_padded m \<Longrightarrow> replay_loop r m acc = (let (ms, r') = py_iterate r in (acc @ ms, r'))"
proof (induction r m acc rule: replay_loop.induct)
  case (1 r m acc)
  obtain ok r' x where n: "replayer_next r m = (ok, r', x)" by (cases "replayer_next r m")
  obtain x' where z: "replayer_next r zero_message = (ok, r', x')" "ok \<longrightarrow> x' = x \<and> zero_padded x"
    using replayer_next_zero_padded [OF "1.prems" zero_padded_zero n] by blast
  show ?case
  proof (cases ok)
    case True
    then have "replay_loop r m acc = replay_loop r' x (acc @ [x])" using n by (simp add: replay_loop.simps [of r])
    also have "\<dots> = (let (ms, r'') = py_iterate r' in ((acc @ [x]) @ ms, r''))"
      using "1.IH" [OF n [symmetric]] True z(2) by simp
    finally show ?thesis using z True
      by (simp add: py_iterate.simps [of r] py_replayer_next_def Let_def case_prod_unfold)
  next
    case False
    then show ?thesis using n z
      by (simp add: replay_loop.simps [of r] py_iterate.simps [of r] py_replayer_next_def)
  qed
qed

lemma replayer_next_stays_ended:
  assumes "replayer_next r m = (False, r', x)"
  shows "fst (replayer_next r' m') = False \<and> rp_messages_replayed (fst (snd (replayer_next r' m'))) = rp_messages_replayed r'
    \<and> rp_truncated (fst (snd (replayer_next r' m'))) = rp_truncated r'"
  using assms by (auto simp: replayer_next_def ifs_read_def Let_def kRecordSize_def split: if_splits)

lemma py_iterate_ends:
  "py_iterate r = (ms, r') \<Longrightarrow> \<exists>s. py_replayer_next s = (Inl StopIteration, r')"
proof (induction r arbitrary: ms r' rule: py_iterate.induct)
  case (1 r)
  obtain res r1 where n: "py_replayer_next r = (res, r1)" by force
  show ?case
  proof (cases res)
    case (Inl e)
    then have "e = StopIteration" using n by (auto simp: py_replayer_next_def Let_def split: prod.splits if_splits)
    then show ?thesis using n Inl "1.prems" by (auto simp: py_iterate.simps [of r])
  next
    case (Inr m)
    obtain ms1 r2 where i: "py_iterate r1 = (ms1, r2)" by force
    then have "r' = r2" using n Inr "1.prems" by (simp add: py_iterate.simps [of r])
    then show ?thesis using "1.IH" [OF n [symmetric] Inr i] by simp
  qed
qed

text \<open>C32: A Python loop over a replayer always ends, whatever bytes the file holds: it sees exactly the messages the
  C++ loop reads, and leaves the replayer with the same count and truncation flag; asking again raises
  \<open>StopIteration\<close> again and changes neither.\<close>

theorem python_iteration_ends:
  "case py_iterate (replayer_open p d) of
     (ms, r) \<Rightarrow> replay_all p d = (ms, r) \<and>
       fst (py_replayer_next r) = Inl StopIteration \<and>
       rp_messages_replayed (snd (py_replayer_next r)) = rp_messages_replayed r \<and>
       rp_truncated (snd (py_replayer_next r)) = rp_truncated r"
proof -
  obtain ms r where i: "py_iterate (replayer_open p d) = (ms, r)" by force
  obtain s where "py_replayer_next s = (Inl StopIteration, r)" using py_iterate_ends [OF i] by blast
  then obtain x where "replayer_next s zero_message = (False, r, x)"
    by (auto simp: py_replayer_next_def Let_def split: prod.splits if_splits)
  note e = replayer_next_stays_ended [OF this, of zero_message]
  have "replay_all p d = (ms, r)"
    using replay_loop_iterates [OF zero_padded_zero, of "replayer_open p d" "[]"] by (simp add: replay_all_def i)
  then show ?thesis using e by (simp add: i py_replayer_next_def case_prod_unfold)
qed

text \<open>Messages made in Python survive the trip bit for bit: recorded on a device with room and iterated
  again, they are equal to what was written, padding included.\<close>

theorem python_roundtrip:
  assumes "d_creatable d p" "ms = map (\<lambda>(i, t, v, s). py_message i t v s) args"
    "record_session bufsz p ms d = (oks, n, d')" "8 + 64 * length ms \<le> d_room d"
  shows "fst (py_iterate (replayer_open p d')) = ms \<and> list_all id oks"
proof -
  obtain res r where l: "replay_all p d' = (res, r)" by force
  have "res = map clean_message ms" "oks = replicate (length ms) True"
    using roundtrip_clean [OF assms(1,3,4) l] by blast+
  moreover have "fst (py_iterate (replayer_open p d')) = res"
    using replay_loop_iterates [OF zero_padded_zero, of "replayer_open p d'" "[]"] l
    by (simp add: replay_all_def case_prod_unfold Let_def)
  moreover have "map clean_message ms = ms"
    by (auto simp: assms(2) py_message_def clean_message_def zero_message_def Let_def)
  ultimately show ?thesis by (simp add: list_all_iff)
qed

theorem python_roundtrip_witness:
  "\<exists>oks n d'. record_session 16 ''f'' [py_message 1 2 3 4, py_message 5 6 7 8] (sample_disk 200) = (oks, n, d') \<and>
     fst (py_iterate (replayer_open ''f'' d')) = [py_message 1 2 3 4, py_message 5 6 7 8]"
proof -
  obtain oks n d' where s: "record_session 16 ''f'' [py_message 1 2 3 4, py_message 5 6 7 8] (sample_disk 200) = (oks, n, d')"
    by (cases "record_session 16 ''f'' [py_message 1 2 3 4, py_message 5 6 7 8] (sample_disk 200)")
  have ms: "[py_message 1 2 3 4, py_message 5 6 7 8] = map (\<lambda>(i, t, v, s). py_message i t v s) [(1, 2, 3, 4), (5, 6, 7, 8)]"
    by simp
  have "d_creatable (sample_disk 200) ''f''" by (simp add: sample_disk_def)
  from python_roundtrip [OF this ms s] have "fst (py_iterate (replayer_open ''f'' d')) = [py_message 1 2 3 4, py_message 5 6 7 8]"
    by (simp add: sample_disk_def)
  then show ?thesis using s by blast
qed

end
