(* ===== verification/Baseline.thy ===== *)
theory Baseline
  imports Ieee_Double
begin

text \<open>
  Layer 2, \<open>include/detect/baseline.hpp\<close>: \<open>EwmaBaseline\<close>, the exponentially weighted mean and variance per
  stream, with the z-score. The operations are those of the code in its order; a literal \<open>1.0\<close> is
  \<open>d_one\<close>. The build does not contract products and sums into fused operations.
\<close>

record ewma_state =
  ew_mean :: double
  ew_var :: double

record baseline =
  bl_alpha :: double
  bl_state :: "u32 \<rightharpoonup> ewma_state"

definition baseline_init :: "double \<Rightarrow> baseline" where
  "baseline_init alpha = \<lparr>bl_alpha = alpha, bl_state = Map.empty\<rparr>"

text \<open>\<open>state_[stream_id]\<close> inserts a zero state on first sight.\<close>

definition ewma_lookup :: "u32 \<Rightarrow> baseline \<Rightarrow> ewma_state" where
  "ewma_lookup i b = (case bl_state b i of None \<Rightarrow> \<lparr>ew_mean = 0, ew_var = 0\<rparr> | Some st \<Rightarrow> st)"

definition ewma_update :: "double \<Rightarrow> double \<Rightarrow> ewma_state \<Rightarrow> ewma_state" where
  "ewma_update alpha value st =
     (let diff = d_sub value (ew_mean st);
          st = st\<lparr>ew_mean := d_add (d_mul (d_sub d_one alpha) (ew_mean st)) (d_mul alpha value)\<rparr>
      in st\<lparr>ew_var := d_add (d_mul (d_sub d_one alpha) (ew_var st)) (d_mul (d_mul alpha diff) diff)\<rparr>)"

definition baseline_update :: "u32 \<Rightarrow> double \<Rightarrow> baseline \<Rightarrow> baseline" where
  "baseline_update i value b =
     b\<lparr>bl_state := (bl_state b)(i \<mapsto> ewma_update (bl_alpha b) value (ewma_lookup i b))\<rparr>"

definition baseline_zscore :: "u32 \<Rightarrow> double \<Rightarrow> baseline \<Rightarrow> double" where
  "baseline_zscore i value b =
     (case bl_state b i of
        None \<Rightarrow> 0
      | Some st \<Rightarrow> if d_eq (ew_var st) 0 then 0
                   else d_div (d_sub value (ew_mean st)) (d_sqrt (ew_var st)))"

definition baseline_mean :: "u32 \<Rightarrow> baseline \<Rightarrow> double" where
  "baseline_mean i b = (case bl_state b i of None \<Rightarrow> 0 | Some st \<Rightarrow> ew_mean st)"

definition baseline_variance :: "u32 \<Rightarrow> baseline \<Rightarrow> double" where
  "baseline_variance i b = (case bl_state b i of None \<Rightarrow> 0 | Some st \<Rightarrow> ew_var st)"

definition baseline_updates :: "(u32 \<times> double) list \<Rightarrow> baseline \<Rightarrow> baseline" where
  "baseline_updates xs b = fold (\<lambda>(i, v). baseline_update i v) xs b"

section \<open>The variance\<close>

text \<open>What \<open>alpha\<close> in (0, 1] gives the proof: neither \<open>alpha\<close> nor \<open>1 - alpha\<close> is negative.\<close>

definition alpha_ok :: "double \<Rightarrow> bool" where
  "alpha_ok alpha \<longleftrightarrow> d_ge0 alpha \<and> d_ge0 (d_sub d_one alpha)"

lemma ewma_update_var_ge0:
  "alpha_ok alpha \<Longrightarrow> d_ge0 (ew_var st) \<Longrightarrow> d_ge0 (ew_var (ewma_update alpha v st))"
  by (simp add: ewma_update_def Let_def alpha_ok_def d_add_ge0 d_mul_ge0 d_mul_square_ge0)

lemma ge0_zero [simp]: "d_ge0 0"
  by (simp add: d_ge0_def)

lemma baseline_update_alpha [simp]: "bl_alpha (baseline_update i v b) = bl_alpha b"
  by (simp add: baseline_update_def)

lemma baseline_update_same: "j \<noteq> i \<Longrightarrow> bl_state (baseline_update i v b) j = bl_state b j"
  by (simp add: baseline_update_def)

lemma baseline_updates_var:
  assumes "alpha_ok (bl_alpha b)" "\<forall>i st. bl_state b i = Some st \<longrightarrow> d_ge0 (ew_var st)"
  shows "bl_state (baseline_updates xs b) i = Some st \<Longrightarrow> d_ge0 (ew_var st)"
  using assms
proof (induction xs arbitrary: b)
  case Nil
  then show ?case by (simp add: baseline_updates_def)
next
  case (Cons x xs)
  obtain j v where x: "x = (j, v)" by force
  have "d_ge0 (ew_var (ewma_lookup j b))"
    using Cons.prems(3) by (auto simp: ewma_lookup_def split: option.splits)
  then have "\<forall>i st. bl_state (baseline_update j v b) i = Some st \<longrightarrow> d_ge0 (ew_var st)"
    using Cons.prems(2,3) ewma_update_var_ge0 by (auto simp: baseline_update_def)
  then show ?case
    using Cons.IH [of "baseline_update j v b"] Cons.prems(1,2) by (simp add: baseline_updates_def x)
qed

lemma baseline_updates_seen: "bl_state (baseline_updates xs b) i = None \<longleftrightarrow> bl_state b i = None \<and> i \<notin> fst ` set xs"
  by (induction xs arbitrary: b) (auto simp: baseline_updates_def baseline_update_def split: if_splits)

lemma ge0_not_lt: "d_ge0 x \<Longrightarrow> \<not> d_lt x 0"
  by (auto simp: d_ge0_def d_lt_def d_key_def)

lemma zscore_number:
  assumes "d_ge0 (ew_var st)" "is_finite v" "is_finite (ew_mean st)" "is_finite (ew_var st)" "\<not> d_eq (ew_var st) 0"
  shows "\<not> is_nan (d_div (d_sub v (ew_mean st)) (d_sqrt (ew_var st)))"
proof -
  have neg: "\<not> d_neg (ew_var st)" using assms(1,4) by (simp add: d_ge0_def)
  have "\<not> is_zero (ew_var st)" using assms(4,5) neg by (auto simp: d_eq_def d_key_def is_zero_def)
  note sq = d_sqrt_pos [OF assms(4) neg this]
  have "\<not> is_nan (d_sub v (ew_mean st))"
    unfolding d_sub_def using assms(2,3) by (intro d_add_not_nan) simp_all
  then show ?thesis using sq by (intro d_div_not_nan) simp_all
qed

text \<open>C27: The z-score under a smoothing factor between 0 and 1, however the streams are interleaved and whatever the
  samples are, NaN and infinities included: no stream's variance is ever below 0, so the square root is never taken of
  a negative number; a stream without samples has z-score 0; and while the mean and the variance of a stream are
  finite, the z-score of a finite value is not NaN. It can be infinite, even when all samples were finite
  (\<open>baseline_zscore_inf_nan\<close> below), though the header's comment says it never is.\<close>

theorem baseline_zscore_is_number:
  assumes "alpha_ok alpha" "b = baseline_updates xs (baseline_init alpha)"
  shows "\<not> d_lt (baseline_variance i b) 0 \<and>
    (i \<notin> fst ` set xs \<longrightarrow> baseline_zscore i v b = 0) \<and>
    (is_finite v \<and> is_finite (baseline_mean i b) \<and> is_finite (baseline_variance i b) \<longrightarrow> \<not> is_nan (baseline_zscore i v b))"
proof (cases "bl_state b i")
  case None
  then show ?thesis by (simp add: baseline_variance_def baseline_zscore_def d_lt_def)
next
  case (Some st)
  have ge: "d_ge0 (ew_var st)"
    using baseline_updates_var [of "baseline_init alpha" xs i st] assms(1,2) Some
    by (simp add: baseline_init_def)
  have "i \<in> fst ` set xs" using Some baseline_updates_seen [of xs "baseline_init alpha" i] by (auto simp: assms(2) baseline_init_def)
  then show ?thesis using ge0_not_lt [OF ge] zscore_number [OF ge, of v] Some
    by (simp add: baseline_variance_def baseline_mean_def baseline_zscore_def)
qed

text \<open>The daemon's \<open>alpha\<close>, 0.05.\<close>

lemma alpha_ok_005: "alpha_ok 0x3FA999999999999A"
  by (simp add: alpha_ok_def d_ge0_def d_one_def d_eval)

theorem baseline_zscore_is_number_witness:
  "\<not> is_nan (baseline_zscore 1 0x4049000000000000
      (baseline_updates [(1, 0x4048800000000000), (2, d_nan)] (baseline_init 0x3FA999999999999A)))"
proof -
  define b where "b = baseline_updates [(1, 0x4048800000000000), (2, d_nan)] (baseline_init 0x3FA999999999999A)"
  have st: "bl_state b 1 = Some (ewma_update 0x3FA999999999999A 0x4048800000000000 \<lparr>ew_mean = 0, ew_var = 0\<rparr>)"
    by (simp add: b_def baseline_updates_def baseline_update_def ewma_lookup_def baseline_init_def)
  have fin: "is_finite (baseline_mean 1 b)" "is_finite (baseline_variance 1 b)"
    by (simp_all add: baseline_mean_def baseline_variance_def st ewma_update_def d_one_def is_finite_def d_eval)
  have v: "is_finite 0x4049000000000000" by (simp add: is_finite_def d_eval)
  show ?thesis
    using baseline_zscore_is_number [OF alpha_ok_005 b_def] v fin unfolding b_def by blast
qed

section \<open>What the z-score can become\<close>

text \<open>A stream whose mean and variance are NaN.\<close>

definition poisoned :: "u32 \<Rightarrow> baseline \<Rightarrow> bool" where
  "poisoned i b \<longleftrightarrow> (\<exists>st. bl_state b i = Some st \<and> is_nan (ew_mean st) \<and> is_nan (ew_var st))"

lemma ewma_update_nan: "is_nan v \<or> is_nan (ew_mean st) \<Longrightarrow>
    is_nan (ew_mean (ewma_update alpha v st)) \<and> is_nan (ew_var (ewma_update alpha v st))"
  by (auto simp: ewma_update_def Let_def)

lemma poisoned_update: "poisoned i b \<Longrightarrow> poisoned i (baseline_update j v b)"
  using ewma_update_nan by (auto simp: poisoned_def baseline_update_def ewma_lookup_def)

lemma poisoned_updates: "poisoned i b \<Longrightarrow> poisoned i (baseline_updates xs b)"
  by (induction xs arbitrary: b) (auto simp: baseline_updates_def poisoned_update split: prod.splits)

text \<open>One NaN sample disables a stream's baseline for good: after it, whatever follows on any stream,
  every z-score of that stream is NaN.\<close>

theorem baseline_nan_is_forever:
  assumes "is_nan x"
  shows "is_nan (baseline_zscore i v (baseline_updates xs (baseline_update i x b)))"
proof -
  have "poisoned i (baseline_update i x b)"
    using ewma_update_nan assms by (auto simp: poisoned_def baseline_update_def)
  then have "poisoned i (baseline_updates xs (baseline_update i x b))" by (rule poisoned_updates)
  then show ?thesis by (auto simp: poisoned_def baseline_zscore_def d_eq_def)
qed

theorem baseline_nan_is_forever_witness:
  "is_nan (baseline_zscore 1 d_one (baseline_updates [(1, d_one), (2, 0)] (baseline_update 1 d_nan (baseline_init d_one))))"
  by (rule baseline_nan_is_forever) simp

text \<open>The z-score can be infinite on finite samples (with \<open>alpha = 1\<close>, the samples \<open>2^-530\<close> and 0 leave
  a tiny variance) and NaN when a sample was infinite; the comment of the header excludes both.\<close>

theorem baseline_zscore_inf_nan:
  "is_inf (baseline_zscore 1 0x7E10000000000000
      (baseline_updates [(1, 0x1ED0000000000000), (1, 0)] (baseline_init d_one))) \<and>
   is_nan (baseline_zscore 1 d_one (baseline_updates [(1, d_inf False)] (baseline_init d_one)))"
proof
  have u1: "ewma_update d_one 0x1ED0000000000000 \<lparr>ew_mean = 0, ew_var = 0\<rparr> =
      \<lparr>ew_mean = 0x1ED0000000000000, ew_var = 0x4000\<rparr>"
    by (simp add: ewma_update_def d_one_def d_eval)
  have u2: "ewma_update d_one 0 \<lparr>ew_mean = 0x1ED0000000000000, ew_var = 0x4000\<rparr> =
      \<lparr>ew_mean = 0, ew_var = 0x4000\<rparr>"
    by (simp add: ewma_update_def d_one_def d_eval)
  have "nat_sqrt (2 ^ 134) = 2 ^ 67" by (rule nat_sqrt_unique) simp_all
  then have "d_sqrt 0x4000 = 0x1ED0000000000000" by (simp add: d_eval)
  then have z: "d_div (d_sub 0x7E10000000000000 0) (d_sqrt 0x4000) = d_inf False"
    by (simp add: d_eval)
  show "is_inf (baseline_zscore 1 0x7E10000000000000
      (baseline_updates [(1, 0x1ED0000000000000), (1, 0)] (baseline_init d_one)))"
    by (simp add: baseline_zscore_def baseline_updates_def baseline_update_def ewma_lookup_def
        baseline_init_def u1 u2 z d_eq_def d_key_def d_neg_def d_mag_def)
  show "is_nan (baseline_zscore 1 d_one (baseline_updates [(1, d_inf False)] (baseline_init d_one)))"
    by (simp add: baseline_zscore_def baseline_updates_def baseline_update_def ewma_lookup_def
        baseline_init_def ewma_update_def d_one_def d_eval)
qed

end
