(* ===== verification/Cusum.thy ===== *)
theory Cusum
  imports Ieee_Double
begin

text \<open>
  Layer 3, \<open>include/detect/cusum.hpp\<close>: \<open>CusumDetector\<close>, two one-sided cumulative sums over residuals
  standardized by the detector's own running mean and variance. Per stream the state is a record,
  zero on first sight; the detector's parameters are a record of their own.
\<close>

record cusum_state =
  cu_count :: u64
  cu_mean :: double
  cu_var :: double
  cu_s_pos :: double
  cu_s_neg :: double

record cusum =
  cd_alpha :: double
  cd_k :: double
  cd_h :: double
  cd_warmup_n :: u64
  cd_state :: "u32 \<rightharpoonup> cusum_state"

definition cusum_init :: "double \<Rightarrow> double \<Rightarrow> double \<Rightarrow> u64 \<Rightarrow> cusum" where
  "cusum_init alpha k h warmup_n =
     \<lparr>cd_alpha = alpha, cd_k = k, cd_h = h, cd_warmup_n = warmup_n, cd_state = Map.empty\<rparr>"

definition cusum_zero :: cusum_state where
  "cusum_zero = \<lparr>cu_count = 0, cu_mean = 0, cu_var = 0, cu_s_pos = 0, cu_s_neg = 0\<rparr>"

definition cusum_lookup :: "u32 \<Rightarrow> cusum \<Rightarrow> cusum_state" where
  "cusum_lookup i c = (case cd_state c i of None \<Rightarrow> cusum_zero | Some st \<Rightarrow> st)"

text \<open>The refinement of the running estimate, written out twice in the code.\<close>

definition cusum_refine :: "double \<Rightarrow> double \<Rightarrow> cusum_state \<Rightarrow> cusum_state" where
  "cusum_refine alpha value st =
     (let mean_prev = cu_mean st; var_prev = cu_var st; diff = d_sub value mean_prev
      in st\<lparr>cu_mean := d_add (d_mul (d_sub d_one alpha) mean_prev) (d_mul alpha value),
            cu_var := d_add (d_mul (d_sub d_one alpha) var_prev) (d_mul (d_mul alpha diff) diff)\<rparr>)"

definition cusum_residual :: "double \<Rightarrow> cusum_state \<Rightarrow> double" where
  "cusum_residual value st =
     (if d_lt 0 (cu_var st) then d_div (d_sub value (cu_mean st)) (d_sqrt (cu_var st)) else 0)"

definition cusum_step :: "cusum \<Rightarrow> double \<Rightarrow> cusum_state \<Rightarrow> bool \<times> cusum_state" where
  "cusum_step c value st =
     (if cu_count st = 0
      then (False, st\<lparr>cu_mean := value, cu_var := 0, cu_s_pos := 0, cu_s_neg := 0, cu_count := 1\<rparr>)
      else if cu_count st < cd_warmup_n c
      then (False, (cusum_refine (cd_alpha c) value st)\<lparr>cu_count := cu_count st + 1\<rparr>)
      else (let residual = cusum_residual value st;
                s_pos = d_fmax 0 (d_sub (d_add (cu_s_pos st) residual) (cd_k c));
                s_neg = d_fmin 0 (d_add (d_add (cu_s_neg st) residual) (cd_k c));
                fired = (d_lt (cd_h c) s_pos \<or> d_lt s_neg (d_uminus (cd_h c)))
            in (fired, (cusum_refine (cd_alpha c) value st)\<lparr>
                  cu_s_pos := (if fired then 0 else s_pos),
                  cu_s_neg := (if fired then 0 else s_neg),
                  cu_count := cu_count st + 1\<rparr>)))"

definition cusum_update_and_check :: "u32 \<Rightarrow> double \<Rightarrow> cusum \<Rightarrow> bool \<times> cusum" where
  "cusum_update_and_check i value c =
     (let (fired, st) = cusum_step c value (cusum_lookup i c)
      in (fired, c\<lparr>cd_state := (cd_state c)(i \<mapsto> st)\<rparr>))"

text \<open>A run over samples of several streams, with the decisions.\<close>

fun cusum_run :: "(u32 \<times> double) list \<Rightarrow> cusum \<Rightarrow> bool list \<times> cusum" where
  "cusum_run [] c = ([], c)"
| "cusum_run ((i, v) # xs) c =
     (let (fired, c) = cusum_update_and_check i v c; (fs, c) = cusum_run xs c in (fired # fs, c))"

section \<open>The sums stay between the thresholds\<close>

definition cusum_bounded :: "double \<Rightarrow> cusum_state \<Rightarrow> bool" where
  "cusum_bounded h st \<longleftrightarrow>
     d_le 0 (cu_s_pos st) \<and> d_le (cu_s_pos st) h \<and> d_le (d_uminus h) (cu_s_neg st) \<and> d_le (cu_s_neg st) 0"

lemma cusum_refine_same [simp]:
  "cu_s_pos (cusum_refine a v st) = cu_s_pos st" "cu_s_neg (cusum_refine a v st) = cu_s_neg st"
  "cu_count (cusum_refine a v st) = cu_count st"
  by (simp_all add: cusum_refine_def Let_def)

lemma d_le_uminus: "d_le 0 h \<Longrightarrow> d_le (d_uminus h) 0"
  by (simp add: d_le_fix)

lemma d_le_refl: "\<not> is_nan a \<Longrightarrow> d_le a a"
  by (simp add: d_le_def)

lemma cusum_step_bounded:
  assumes "d_le 0 (cd_h c)" "cusum_bounded (cd_h c) st" "cusum_step c v st = (fired, st')"
  shows "cusum_bounded (cd_h c) st'"
proof -
  have h: "\<not> is_nan (cd_h c)" "d_le (d_uminus (cd_h c)) 0" "d_le 0 0"
    using assms(1) by (simp_all add: d_le_uminus d_le_refl) (simp add: d_le_def)
  have zero: "cusum_bounded (cd_h c) (s\<lparr>cu_s_pos := 0, cu_s_neg := 0\<rparr>)" for s
    using assms(1) h by (simp add: cusum_bounded_def)
  have not_lt: "\<not> d_lt (cd_h c) (d_fmax 0 x) \<Longrightarrow> d_le (d_fmax 0 x) (cd_h c)"
    "\<not> d_lt (d_fmin 0 x) (d_uminus (cd_h c)) \<Longrightarrow> d_le (d_uminus (cd_h c)) (d_fmin 0 x)" for x
    using h d_fmax_zero(2) [of x] d_fmin_zero(2) [of x] by (simp_all add: d_lt_not_le)
  show ?thesis
    using assms zero not_lt d_fmax_zero(1) d_fmin_zero(1) h
    by (auto simp: cusum_step_def cusum_bounded_def Let_def split: if_splits)
qed

lemma cusum_zero_bounded: "d_le 0 h \<Longrightarrow> cusum_bounded h cusum_zero"
  by (simp add: cusum_bounded_def cusum_zero_def d_le_uminus d_le_refl)

text \<open>The parameters never change, and a sample touches its own stream only.\<close>

lemma cusum_update_same [simp]:
  "cd_alpha (snd (cusum_update_and_check i v c)) = cd_alpha c"
  "cd_k (snd (cusum_update_and_check i v c)) = cd_k c"
  "cd_h (snd (cusum_update_and_check i v c)) = cd_h c"
  "cd_warmup_n (snd (cusum_update_and_check i v c)) = cd_warmup_n c"
  "j \<noteq> i \<Longrightarrow> cd_state (snd (cusum_update_and_check i v c)) j = cd_state c j"
  by (simp_all add: cusum_update_and_check_def Let_def split: prod.splits)

definition cusum_good :: "cusum \<Rightarrow> bool" where
  "cusum_good c \<longleftrightarrow> (\<forall>i. cusum_bounded (cd_h c) (cusum_lookup i c))"

lemma cusum_update_good:
  assumes "d_le 0 (cd_h c)" "cusum_good c"
  shows "cusum_good (snd (cusum_update_and_check i v c))"
proof -
  obtain f st where s: "cusum_step c v (cusum_lookup i c) = (f, st)" by force
  have "cusum_bounded (cd_h c) st"
    by (rule cusum_step_bounded [OF assms(1) _ s]) (use assms(2) in \<open>simp add: cusum_good_def\<close>)
  moreover have "cusum_update_and_check i v c = (f, c\<lparr>cd_state := (cd_state c)(i \<mapsto> st)\<rparr>)"
    by (simp add: cusum_update_and_check_def s)
  ultimately show ?thesis using assms(2) by (auto simp: cusum_good_def cusum_lookup_def)
qed

lemma cusum_run_good:
  "d_le 0 (cd_h c) \<Longrightarrow> cusum_good c \<Longrightarrow> cusum_run xs c = (fs, c') \<Longrightarrow>
   cusum_good c' \<and> cd_h c' = cd_h c \<and> cd_k c' = cd_k c \<and> cd_warmup_n c' = cd_warmup_n c \<and> cd_alpha c' = cd_alpha c"
proof (induction xs arbitrary: c fs)
  case (Cons x xs)
  obtain i v where x: "x = (i, v)" by force
  define c1 where "c1 = snd (cusum_update_and_check i v c)"
  obtain gs where r: "cusum_run xs c1 = (gs, c')"
    using Cons.prems(3) by (auto simp: x c1_def Let_def split: prod.splits)
  have "cusum_good c1" "cd_h c1 = cd_h c" "cd_k c1 = cd_k c" "cd_warmup_n c1 = cd_warmup_n c"
    "cd_alpha c1 = cd_alpha c"
    using cusum_update_good [OF Cons.prems(1,2)] by (simp_all add: c1_def)
  then show ?case using Cons.IH [OF _ _ r] Cons.prems(1) by simp
qed simp

text \<open>Whatever the samples are, NaN and infinities included, after every call both sums of every stream
  are numbers on their own side of zero and inside the decision threshold: a sum that crossed it
  has fired and was reset, so a crossing is never carried over silently.\<close>

theorem cusum_sums_bounded:
  assumes "d_le 0 h" "cusum_run xs (cusum_init alpha k h warmup_n) = (fs, c)" "cd_state c i = Some st"
  shows "d_le 0 (cu_s_pos st) \<and> d_le (cu_s_pos st) h \<and> d_le (d_uminus h) (cu_s_neg st) \<and> d_le (cu_s_neg st) 0"
proof -
  have "cusum_good (cusum_init alpha k h warmup_n)"
    using assms(1) by (simp add: cusum_good_def cusum_lookup_def cusum_init_def cusum_zero_bounded)
  then have "cusum_good c" "cd_h c = h"
    using cusum_run_good [OF _ _ assms(2)] assms(1) by (simp_all add: cusum_init_def)
  then have "cusum_bounded h (cusum_lookup i c)" by (simp add: cusum_good_def)
  then show ?thesis using assms(3) by (simp add: cusum_bounded_def cusum_lookup_def)
qed


text \<open>The daemon's detector: alpha 0.01, k 3, h 8, no longer warm-up.\<close>

definition daemon_cusum :: cusum where
  "daemon_cusum = cusum_init 0x3F847AE147AE147B 0x4008000000000000 0x4020000000000000 1"

lemma daemon_h: "d_le 0 0x4020000000000000"
  by (simp add: d_le_def d_key_def d_neg_def d_mag_def is_nan_def inf_mag_def)

theorem cusum_sums_bounded_witness:
  "case cusum_run [(1, d_nan), (1, d_inf False)] daemon_cusum of (fs, c) \<Rightarrow>
     (case cd_state c 1 of None \<Rightarrow> False
      | Some st \<Rightarrow> d_le 0 (cu_s_pos st) \<and> d_le (cu_s_pos st) 0x4020000000000000)"
proof -
  obtain fs c where r: "cusum_run [(1, d_nan), (1, d_inf False)] daemon_cusum = (fs, c)" by force
  have "cd_state (snd (cusum_run [(1, d_nan), (1, d_inf False)] daemon_cusum)) 1 \<noteq> None"
    by (auto simp: cusum_update_and_check_def Let_def split: prod.splits)
  then obtain st where st: "cd_state c 1 = Some st" by (auto simp: r simp del: cusum_run.simps)
  show ?thesis
    using cusum_sums_bounded [OF daemon_h r [unfolded daemon_cusum_def] st]
    unfolding r prod.case st option.case by blast
qed

section \<open>Warm-up\<close>

lemma cusum_step_count: "cusum_step c v st = (fired, st') \<Longrightarrow> cu_count st' = cu_count st + 1"
  by (auto simp: cusum_step_def Let_def split: if_splits)

lemma cusum_step_warm: "cusum_step c v st = (True, st') \<Longrightarrow> cu_count st \<noteq> 0 \<and> cd_warmup_n c \<le> cu_count st"
  by (auto simp: cusum_step_def Let_def not_less split: if_splits)

definition samples_of :: "u32 \<Rightarrow> (u32 \<times> double) list \<Rightarrow> nat" where
  "samples_of i xs = length (filter (\<lambda>x. fst x = i) xs)"

lemma cusum_run_append:
  "cusum_run (xs @ ys) c = (let (fs, c) = cusum_run xs c; (gs, c) = cusum_run ys c in (fs @ gs, c))"
  by (induction xs c rule: cusum_run.induct) (auto simp: Let_def split: prod.splits)

lemma cusum_run_count:
  "cusum_run xs c = (fs, c') \<Longrightarrow>
   cu_count (cusum_lookup i c') = cu_count (cusum_lookup i c) + of_nat (samples_of i xs)"
proof (induction xs arbitrary: c fs)
  case (Cons x xs)
  obtain j v where x: "x = (j, v)" by force
  define c1 where "c1 = snd (cusum_update_and_check j v c)"
  obtain gs where r: "cusum_run xs c1 = (gs, c')"
    using Cons.prems by (auto simp: x c1_def Let_def split: prod.splits)
  obtain f st where s: "cusum_step c v (cusum_lookup j c) = (f, st)" by force
  have c1: "c1 = c\<lparr>cd_state := (cd_state c)(j \<mapsto> st)\<rparr>"
    by (simp add: c1_def cusum_update_and_check_def s)
  have "cu_count (cusum_lookup i c1) = cu_count (cusum_lookup i c) + (if j = i then 1 else 0)"
    using cusum_step_count [OF s] by (simp add: c1 cusum_lookup_def)
  then show ?case using Cons.IH [OF r] by (simp add: samples_of_def x add.assoc)
qed (simp add: samples_of_def)

text \<open>A stream can fire only after its warm-up: the decision on a sample is true only if the stream has
  had at least one earlier sample and at least \<open>warmup_n\<close> of them, whatever the other streams did.\<close>

theorem cusum_fires_after_warmup:
  assumes "cusum_run xs (cusum_init alpha k h warmup_n) = (fs, c)" "length xs < 2 ^ 64"
    "cusum_update_and_check i v c = (True, c')"
  shows "1 \<le> samples_of i xs \<and> unat warmup_n \<le> samples_of i xs"
proof -
  have "samples_of i xs \<le> length xs" by (simp add: samples_of_def)
  then have small: "samples_of i xs < 2 ^ 64" using assms(2) by simp
  have "cu_count (cusum_lookup i c) = of_nat (samples_of i xs)"
    using cusum_run_count [OF assms(1), of i] by (simp add: cusum_lookup_def cusum_init_def cusum_zero_def)
  then have cnt: "unat (cu_count (cusum_lookup i c)) = samples_of i xs"
    using small by (simp add: unat_of_nat)
  have "cd_warmup_n c = warmup_n"
    using assms(1)
  proof (induction xs arbitrary: fs c rule: rev_induct)
    case (snoc x xs)
    obtain j w where x: "x = (j, w)" by force
    obtain gs c1 where r: "cusum_run xs (cusum_init alpha k h warmup_n) = (gs, c1)" by force
    have "c = snd (cusum_update_and_check j w c1)"
      using snoc.prems by (auto simp: cusum_run_append r x Let_def split: prod.splits)
    then show ?case using snoc.IH [OF r] by simp
  qed (auto simp: cusum_init_def)
  moreover obtain st where "cusum_step c v (cusum_lookup i c) = (True, st)"
    using assms(3) by (auto simp: cusum_update_and_check_def Let_def split: prod.splits)
  then have "cu_count (cusum_lookup i c) \<noteq> 0 \<and> cd_warmup_n c \<le> cu_count (cusum_lookup i c)"
    by (rule cusum_step_warm)
  moreover from this have "unat (cu_count (cusum_lookup i c)) \<noteq> 0" by (simp add: unat_eq_0)
  ultimately show ?thesis using cnt by (simp add: word_le_nat_alt)
qed


lemma cusum_fire_resets:
  "cusum_update_and_check i v c = (True, c') \<Longrightarrow> cu_s_pos (cusum_lookup i c') = 0 \<and> cu_s_neg (cusum_lookup i c') = 0"
  by (auto simp: cusum_update_and_check_def cusum_step_def cusum_lookup_def Let_def split: if_splits prod.splits)

text \<open>C26: The detector's alarms, for a decision threshold that is not negative and fewer than \<open>2 ^ 64\<close> samples. A stream fires
  only after its warm-up, when it has had at least one earlier sample and at least \<open>warmup_n\<close> of them; firing resets both
  its sums; and after every call, whatever the samples were (NaN and infinities included) and however the streams are
  interleaved, both sums of every stream are numbers on their own side of zero and inside the decision
  threshold, so a crossing is never carried over.\<close>

theorem cusum_alarms:
  assumes "d_le 0 h" "cusum_run xs (cusum_init alpha k h warmup_n) = (fs, c)" "length xs < 2 ^ 64"
    "cusum_update_and_check i v c = (fired, c')"
  shows "(fired \<longrightarrow> 1 \<le> samples_of i xs \<and> unat warmup_n \<le> samples_of i xs \<and>
      cu_s_pos (cusum_lookup i c') = 0 \<and> cu_s_neg (cusum_lookup i c') = 0) \<and>
    (\<forall>j st. cd_state c' j = Some st \<longrightarrow>
      d_le 0 (cu_s_pos st) \<and> d_le (cu_s_pos st) h \<and> d_le (d_uminus h) (cu_s_neg st) \<and> d_le (cu_s_neg st) 0)"
proof -
  have "cusum_run (xs @ [(i, v)]) (cusum_init alpha k h warmup_n) = (fs @ [fired], c')"
    by (simp add: cusum_run_append assms(2,4))
  note bounds = cusum_sums_bounded [OF assms(1) this]
  have "1 \<le> samples_of i xs \<and> unat warmup_n \<le> samples_of i xs \<and>
      cu_s_pos (cusum_lookup i c') = 0 \<and> cu_s_neg (cusum_lookup i c') = 0" if fired
  proof -
    have u: "cusum_update_and_check i v c = (True, c')" using assms(4) that by simp
    show ?thesis using cusum_fires_after_warmup [OF assms(2,3) u] cusum_fire_resets [OF u] by simp
  qed
  then show ?thesis using bounds by simp
qed

theorem cusum_alarms_witness:
  "case cusum_run [(1, 0), (1, d_one)] (cusum_init d_one 0 0 2) of (fs, c) \<Rightarrow>
     (case cusum_update_and_check 1 (d_inf False) c of (fired, c') \<Rightarrow>
        fired \<and> 2 \<le> samples_of 1 [(1, 0), (1, d_one)] \<and> cu_s_pos (cusum_lookup 1 c') = 0)"
proof -
  obtain fs c where r: "cusum_run [(1, 0), (1, d_one)] (cusum_init d_one 0 0 2) = (fs, c)" by force
  obtain f c' where u: "cusum_update_and_check 1 (d_inf False) c = (f, c')" by force
  have ops: "d_sub d_one 0 = d_one" "d_sub d_one d_one = 0" "d_mul 0 0 = 0" "d_mul d_one d_one = d_one"
    "d_add 0 d_one = d_one"
    by (simp_all add: d_one_def d_eval)
  have sq: "nat_sqrt (2 ^ 172) = 2 ^ 86" by (rule nat_sqrt_unique) simp_all
  have res: "d_div (d_sub (d_inf False) d_one) (d_sqrt d_one) = d_inf False" "d_lt 0 d_one"
    using sq by (simp_all add: d_one_def d_eval)
  have fire: "d_lt 0 (d_fmax 0 (d_sub (d_add 0 (d_inf False)) 0))"
    by (simp add: d_eval)
  have "f"
    using r u
    by (auto simp: cusum_update_and_check_def cusum_step_def cusum_lookup_def cusum_init_def cusum_zero_def
        cusum_refine_def cusum_residual_def Let_def ops res fire)
  then show ?thesis
    using cusum_alarms [OF _ r _ u] by (simp add: r u d_le_refl is_nan_def d_mag_def inf_mag_def del: cusum_run.simps)
qed

section \<open>A NaN sample blinds the detector\<close>

text \<open>The running mean is NaN and the running variance is not positive.\<close>

definition cusum_blind :: "double \<Rightarrow> cusum_state \<Rightarrow> bool" where
  "cusum_blind h st \<longleftrightarrow> is_nan (cu_mean st) \<and> \<not> d_lt 0 (cu_var st) \<and> cusum_bounded h st"

text \<open>Without a residual the sums move towards zero.\<close>

lemma d_add_zero_between:
  assumes "d_le l a" "d_le a u" "is_finite l" "is_finite u"
  shows "d_le l (d_add a 0)" "d_le (d_add a 0) u" "is_finite (d_add a 0)"
proof -
  have a: "is_finite a" using d_le_finite [OF assms(3,4,1,2)] .
  have "d_fix l \<le> d_fix a + d_fix 0" "d_fix a + d_fix 0 \<le> d_fix u"
    using assms(1,2) by (simp_all add: d_le_fix)
  then show le: "d_le l (d_add a 0)" "d_le (d_add a 0) u"
    using d_add_ge [OF a, of 0 l] d_add_le [OF a, of 0 u] assms(3,4) by simp_all
  show "is_finite (d_add a 0)" using d_le_finite [OF assms(3,4) le] .
qed

lemma cusum_decay:
  assumes "d_le 0 h" "is_finite h" "d_le 0 k" "is_finite k"
  shows "d_le 0 s \<Longrightarrow> d_le s h \<Longrightarrow> \<not> d_lt h (d_fmax 0 (d_sub (d_add s 0) k))"
    "d_le (d_uminus h) t \<Longrightarrow> d_le t 0 \<Longrightarrow> \<not> d_lt (d_fmin 0 (d_add (d_add t 0) k)) (d_uminus h)"
proof -
  have k: "0 \<le> d_fix k" using assms(3) by (simp add: d_le_fix)
  { assume s: "d_le 0 s" "d_le s h"
    note a = d_add_zero_between [OF s _ assms(2)]
    have "d_fix (d_add s 0) + d_fix (d_uminus k) \<le> d_fix h" using a(2) k by (simp add: d_le_fix)
    then have "d_le (d_sub (d_add s 0) k) h"
      unfolding d_sub_def using a(3) assms(2,4) by (intro d_add_le) simp_all
    then show "\<not> d_lt h (d_fmax 0 (d_sub (d_add s 0) k))"
      using assms(1) by (auto simp: d_fmax_def d_lt_def d_le_def) }
  { assume t: "d_le (d_uminus h) t" "d_le t 0"
    note a = d_add_zero_between [OF t]
    have "d_fix (d_uminus h) \<le> d_fix (d_add t 0) + d_fix k" using a(1) k assms(2) by (simp add: d_le_fix)
    then have "d_le (d_uminus h) (d_add (d_add t 0) k)"
      using a(3) assms(2,4) by (intro d_add_ge) simp_all
    moreover have "d_le (d_uminus h) 0" using assms(1) by (rule d_le_uminus)
    ultimately show "\<not> d_lt (d_fmin 0 (d_add (d_add t 0) k)) (d_uminus h)"
      by (auto simp: d_fmin_def d_lt_def d_le_def) }
qed

lemma cusum_refine_nan:
  "is_nan v \<or> is_nan (cu_mean st) \<Longrightarrow>
   is_nan (cu_mean (cusum_refine a v st)) \<and> is_nan (cu_var (cusum_refine a v st))"
  by (auto simp: cusum_refine_def Let_def)

lemma cusum_blind_step:
  assumes par: "d_le 0 (cd_h c)" "is_finite (cd_h c)" "d_le 0 (cd_k c)" "is_finite (cd_k c)"
    and st: "cusum_bounded (cd_h c) st" "is_nan v \<or> cusum_blind (cd_h c) st \<and> cu_count st \<noteq> 0"
    and step: "cusum_step c v st = (fired, st')"
  shows "\<not> fired \<and> cusum_blind (cd_h c) st'"
proof -
  have b': "cusum_bounded (cd_h c) st'" by (rule cusum_step_bounded [OF par(1) st(1) step])
  have z: "\<not> d_lt (cd_h c) 0" "\<not> d_lt 0 (d_uminus (cd_h c))"
    using par(1) d_le_uminus [OF par(1)] by (auto simp: d_lt_def d_le_def)
  have s: "d_le 0 (cu_s_pos st)" "d_le (cu_s_pos st) (cd_h c)" "d_le (d_uminus (cd_h c)) (cu_s_neg st)"
    "d_le (cu_s_neg st) 0" using st(1) by (simp_all add: cusum_bounded_def)
  show ?thesis
  proof (cases "cu_count st = 0")
    case True
    then show ?thesis using st(2) step b'
      by (auto simp: cusum_step_def cusum_blind_def d_lt_def)
  next
    case False
    have nan: "is_nan v \<or> is_nan (cu_mean st)" using st(2) by (auto simp: cusum_blind_def)
    note rn = cusum_refine_nan [OF nan, of "cd_alpha c"]
    show ?thesis
    proof (cases "cu_count st < cd_warmup_n c")
      case True
      then show ?thesis using False step b' rn by (auto simp: cusum_step_def cusum_blind_def)
    next
      case warm: False
      have "cusum_residual v st = 0 \<or> is_nan (cusum_residual v st)"
        using nan by (auto simp: cusum_residual_def)
      then have "\<not> d_lt (cd_h c) (d_fmax 0 (d_sub (d_add (cu_s_pos st) (cusum_residual v st)) (cd_k c)))"
        "\<not> d_lt (d_fmin 0 (d_add (d_add (cu_s_neg st) (cusum_residual v st)) (cd_k c))) (d_uminus (cd_h c))"
        using cusum_decay(1) [OF par s(1,2)] cusum_decay(2) [OF par s(3,4)] z
        by (auto simp: d_fmax_def [of 0 d_nan] d_fmin_def [of 0 d_nan])
      then show ?thesis using False warm step b' rn
        by (auto simp: cusum_step_def cusum_blind_def Let_def)
    qed
  qed
qed

lemma cusum_run_blind:
  assumes par: "d_le 0 (cd_h c)" "is_finite (cd_h c)" "d_le 0 (cd_k c)" "is_finite (cd_k c)"
    and "cusum_good c" "cusum_blind (cd_h c) (cusum_lookup i c)"
    and "cu_count (cusum_lookup i c) = of_nat n" "0 < n" "n + length ys < 2 ^ 64"
    and "cusum_run ys c = (gs, c')" "(y, g) \<in> set (zip ys gs)" "fst y = i"
  shows "\<not> g"
  using assms
proof (induction ys arbitrary: c gs n)
  case (Cons x ys)
  obtain j v where x: "x = (j, v)" by force
  obtain f st where s: "cusum_step c v (cusum_lookup j c) = (f, st)" by force
  define c1 where "c1 = c\<lparr>cd_state := (cd_state c)(j \<mapsto> st)\<rparr>"
  have u: "cusum_update_and_check j v c = (f, c1)" by (simp add: cusum_update_and_check_def s c1_def)
  obtain gs1 where r: "cusum_run ys c1 = (gs1, c')" "gs = f # gs1"
    using Cons.prems(10) by (auto simp: x u split: prod.splits)
  have n0: "(of_nat n :: u64) \<noteq> 0"
    using Cons.prems(8,9) by (simp add: word_unat_eq_iff unat_of_nat)
  have bl: "j = i \<Longrightarrow> \<not> f \<and> cusum_blind (cd_h c) st"
    using cusum_blind_step [OF Cons.prems(1-4) _ _ s] Cons.prems(5-7) n0 by (auto simp: cusum_good_def)
  have c1: "cd_h c1 = cd_h c" "cd_k c1 = cd_k c" by (simp_all add: c1_def)
  define n1 where "n1 = (if j = i then n + 1 else n)"
  have cnt: "cu_count (cusum_lookup i c1) = of_nat n1"
    using cusum_step_count [OF s] Cons.prems(7) by (auto simp: c1_def cusum_lookup_def n1_def)
  have lk: "cusum_blind (cd_h c1) (cusum_lookup i c1)"
    using bl Cons.prems(6) by (auto simp: c1_def cusum_lookup_def)
  have good: "cusum_good c1"
    using cusum_update_good [OF Cons.prems(1,5), of j v] by (simp add: u)
  from Cons.prems(11) r(2) consider "y = x" "g = f" | "(y, g) \<in> set (zip ys gs1)" by auto
  then show ?case
  proof cases
    case 1
    then show ?thesis using bl Cons.prems(12) x by simp
  next
    case 2
    show ?thesis
      by (rule Cons.IH [OF _ _ _ _ good lk cnt _ _ r(1) 2 Cons.prems(12)])
        (use Cons.prems(1-4,8,9) c1 in \<open>simp_all add: n1_def\<close>)
  qed
qed simp

text \<open>With finite non-negative parameters one NaN sample blinds a stream's detector for good: neither
  the NaN sample nor any later sample of the stream fires, however far it moves, as long as the
  sample counter does not wrap.\<close>

theorem cusum_nan_blinds:
  assumes "d_le 0 h" "is_finite h" "d_le 0 k" "is_finite k" "is_nan x"
    and "cusum_run xs (cusum_init alpha k h warmup_n) = (fs, c)"
    and "cusum_run ((i, x) # ys) c = (gs, c')" "length xs + length ys + 1 < 2 ^ 64"
    and "(y, g) \<in> set (zip ((i, x) # ys) gs)" "fst y = i"
  shows "\<not> g"
proof -
  have "cusum_good (cusum_init alpha k h warmup_n)"
    using assms(1) by (simp add: cusum_good_def cusum_lookup_def cusum_init_def cusum_zero_bounded)
  then have c: "cusum_good c" "cd_h c = h" "cd_k c = k"
    using cusum_run_good [OF _ _ assms(6)] assms(1) by (simp_all add: cusum_init_def)
  define n where "n = samples_of i xs"
  have n: "cu_count (cusum_lookup i c) = of_nat n" "n \<le> length xs"
    using cusum_run_count [OF assms(6), of i]
    by (simp_all add: cusum_lookup_def cusum_init_def cusum_zero_def n_def samples_of_def)
  obtain f st where s: "cusum_step c x (cusum_lookup i c) = (f, st)" by force
  define c1 where "c1 = c\<lparr>cd_state := (cd_state c)(i \<mapsto> st)\<rparr>"
  have u: "cusum_update_and_check i x c = (f, c1)" by (simp add: cusum_update_and_check_def s c1_def)
  have bl: "\<not> f \<and> cusum_blind (cd_h c) st"
    using assms(1-5) c by (intro cusum_blind_step [OF _ _ _ _ _ _ s]) (auto simp: cusum_good_def)
  obtain gs1 where r: "cusum_run ys c1 = (gs1, c')" "gs = f # gs1"
    using assms(7) by (auto simp: u split: prod.splits)
  have good: "cusum_good c1" using cusum_update_good [OF _ c(1), of i x] assms(1) c(2) by (simp add: u)
  have cnt: "cu_count (cusum_lookup i c1) = of_nat (n + 1)"
    using cusum_step_count [OF s] n(1) by (simp add: c1_def cusum_lookup_def)
  have c1: "cd_h c1 = h" "cd_k c1 = k" "cusum_blind (cd_h c1) (cusum_lookup i c1)"
    using c bl by (simp_all add: c1_def cusum_lookup_def)
  from assms(9) r(2) consider "g = f" | "(y, g) \<in> set (zip ys gs1)" by auto
  then show ?thesis
  proof cases
    case 2
    show ?thesis
      by (rule cusum_run_blind [OF _ _ _ _ good c1(3) cnt _ _ r(1) 2 assms(10)])
        (use assms(1-4,8) c1 n(2) in simp_all)
  qed (use bl in simp)
qed


theorem cusum_nan_blinds_witness:
  "last (fst (cusum_run [(1, d_nan), (1, d_inf False)] daemon_cusum)) = False"
proof -
  have p: "is_finite 0x4020000000000000" "d_le 0 0x4008000000000000" "is_finite 0x4008000000000000"
    by (simp_all add: is_finite_def d_eval)
  have r0: "cusum_run [] daemon_cusum = ([], daemon_cusum)" by simp
  obtain gs c' where r: "cusum_run [(1, d_nan), (1, d_inf False)] daemon_cusum = (gs, c')" by force
  then obtain f g where gs: "gs = [f, g]" by (auto simp: Let_def split: prod.splits)
  have "\<not> g"
    by (rule cusum_nan_blinds [OF daemon_h p _ r0 [unfolded daemon_cusum_def]
          r [unfolded daemon_cusum_def], of "(1, d_inf False)"])
      (simp_all add: gs)
  then show ?thesis unfolding r gs by simp
qed

end
