(* ===== verification/Double_Exact.thy ===== *)
theory Double_Exact
  imports Ieee_Double
begin

text \<open>
  Doubles that hold integers: conversions, sums and the ceiling are exact on them, and the rounding of a
  product keeps to its side of them. These facts turn the floating-point index of the conformal
  quantile into integer arithmetic.
\<close>

text \<open>Every integer below \<open>2 ^ 53\<close>, scaled by a power of two, is a magnitude.\<close>

lemma mag_fix_onto: "m < 2 ^ 53 \<Longrightarrow> \<exists>j. mag_fix j = m * 2 ^ k"
proof (cases "m = 0")
  case True
  then show ?thesis using mag_fix_0 by auto
next
  case False
  assume m: "m < 2 ^ 53"
  define n where "n = m * 2 ^ k"
  define p where "p = bit_length n - 53"
  have bl: "bit_length n = bit_length m + k" using False by (simp add: n_def bit_length_shift)
  have "bit_length m \<le> 53" using m by (rule bit_length_le)
  then have pk: "p \<le> k" by (simp add: p_def bl)
  define t where "t = m * 2 ^ (k - p)"
  have n: "n = t * 2 ^ p" using pk by (simp add: n_def t_def power_add [symmetric])
  have "0 < n" using False by (simp add: n_def)
  note b = bit_length_bounds [OF this]
  have "t * 2 ^ p < 2 ^ (53 + p)"
    using b n by (metis (no_types) le_diff_conv less_le_trans one_le_numeral p_def power_increasing add.commute le_refl)
  then have "t < 2 ^ 53" by (simp add: power_add)
  moreover have "p = 0 \<or> 2 ^ 52 \<le> t"
  proof (cases "p = 0")
    case False
    then have "bit_length n - 1 = 52 + p" by (simp add: p_def)
    then have "2 ^ 52 * 2 ^ p \<le> t * 2 ^ p" using b n by (simp add: power_add)
    then show ?thesis by simp
  qed simp
  ultimately have "mag_fix (p * 2 ^ 52 + t) = n" unfolding n by (intro mag_fix_repr) auto
  then show ?thesis unfolding n_def by blast
qed

lemma mag_fix_inj: "mag_fix j = mag_fix k \<Longrightarrow> j = k"
  using mag_fix_mono(2) [of j k] mag_fix_mono(2) [of k j] by simp

lemma mag_fix_inf: "mag_fix inf_mag = 2 ^ 2098"
  using mag_fix_split [of 0 2047] by (simp add: inf_mag_def power_add [symmetric])

lemma mag_fix_finite: "mag_fix j < 2 ^ 2098 \<longleftrightarrow> j < inf_mag"
  unfolding mag_fix_inf [symmetric] by (rule mag_fix_mono(1))

lemma round_mag_exact:
  assumes "0 < m" "m < 2 ^ 53" "k \<le> 2000"
  shows "mag_fix (round_mag m (int k - 1074)) = m * 2 ^ k" "round_mag m (int k - 1074) < inf_mag"
proof -
  obtain j where j: "mag_fix j = m * 2 ^ k" using mag_fix_onto [OF assms(2)] by blast
  have "m * 2 ^ k < 2 ^ 53 * 2 ^ k" using assms(2) by simp
  also have "\<dots> = (2::nat) ^ (53 + k)" by (simp only: power_add)
  also have "\<dots> \<le> 2 ^ 2098" using assms(3) by (intro power_increasing) simp_all
  finally have jf: "j < inf_mag" using j mag_fix_finite by metis
  have "round_mag m (int k - 1074) \<le> j" using j by (intro round_mag_bounds(1) [OF assms(1) refl]) simp
  moreover have "j \<le> round_mag m (int k - 1074)"
    using j jf by (intro round_mag_bounds(2) [OF assms(1) refl]) simp_all
  ultimately have "round_mag m (int k - 1074) = j" by simp
  then show "mag_fix (round_mag m (int k - 1074)) = m * 2 ^ k" "round_mag m (int k - 1074) < inf_mag"
    using j jf by simp_all
qed

lemma d_of_nat_exact:
  assumes "n < 2 ^ 53"
  shows "d_fix (d_of_int (int n)) = int n * 2 ^ 1074" "is_finite (d_of_int (int n))"
    "\<not> d_neg (d_of_int (int n))"
proof -
  have r: "d_of_int (int n) = d_round False n (int 1074 - 1074)" by (simp add: d_of_int_def)
  have "mag_fix (round_mag n (int 1074 - 1074)) = n * 2 ^ 1074 \<and> round_mag n (int 1074 - 1074) < inf_mag"
  proof (cases "n = 0")
    case True
    then show ?thesis by (simp add: round_mag_def mag_fix_0 inf_mag_def)
  next
    case False
    then show ?thesis using round_mag_exact [of n 1074] assms by simp
  qed
  then show "d_fix (d_of_int (int n)) = int n * 2 ^ 1074" "is_finite (d_of_int (int n))"
    "\<not> d_neg (d_of_int (int n))"
    unfolding r by (simp_all add: d_fix_def is_finite_def)
qed

lemma d_fix_pow: "d_fix a = (if d_neg a then - 1 else 1) *
    int (mag_mant (d_mag a)) * 2 ^ nat (mag_scale (d_mag a) + 1074)"
  by (simp add: d_fix_def mag_fix_def)

lemma d_trunc_fix:
  assumes "d_fix a = z * 2 ^ 1074"
  shows "d_trunc a = z"
proof -
  define m where "m = mag_mant (d_mag a)"
  define e where "e = mag_scale (d_mag a)"
  define s :: int where "s = (if d_neg a then - 1 else 1)"
  have e: "- 1074 \<le> e" by (simp add: e_def mag_scale_ge)
  have eq: "s * int m * 2 ^ nat (e + 1074) = z * 2 ^ 1074"
    using assms d_fix_pow [of a] by (simp add: m_def e_def s_def)
  show ?thesis
  proof (cases "0 \<le> e")
    case True
    then have "nat (e + 1074) = nat e + 1074" by simp
    then have "s * (int m * 2 ^ nat e) = z" using eq by (simp add: power_add)
    then show ?thesis using True
      by (auto simp: d_trunc_def Let_def m_def [symmetric] e_def [symmetric] s_def split: if_splits)
  next
    case False
    then have "1074 = nat (e + 1074) + nat (- e)" using e by simp
    then have pw: "(2::int) ^ 1074 = 2 ^ nat (e + 1074) * 2 ^ nat (- e)" by (metis power_add)
    have "(s * int m) * 2 ^ nat (e + 1074) = (z * 2 ^ nat (- e)) * 2 ^ nat (e + 1074)"
      using eq unfolding pw by (simp only: ac_simps)
    then have sm: "s * int m = z * 2 ^ nat (- e)" by (simp only: mult_cancel_right) simp
    then have "int m = s * z * 2 ^ nat (- e)" by (auto simp: s_def split: if_splits)
    then have "int m div 2 ^ nat (- e) = s * z" by simp
    then have "int (m div 2 ^ nat (- e)) = s * z" by (simp add: zdiv_int)
    then show ?thesis using False
      by (auto simp: d_trunc_def Let_def m_def [symmetric] e_def [symmetric] s_def split: if_splits)
  qed
qed

text \<open>The ceiling of a number between two neighbouring integers.\<close>

lemma d_ceil_between:
  assumes "is_finite a" "\<not> d_neg a" "q < 2 ^ 53" "0 < q"
    "(int q - 1) * 2 ^ 1074 < d_fix a" "d_fix a \<le> int q * 2 ^ 1074"
  shows "d_fix (d_ceil a) = int q * 2 ^ 1074 \<and> is_finite (d_ceil a)"
proof -
  define m where "m = mag_mant (d_mag a)"
  define e where "e = mag_scale (d_mag a)"
  have fx: "d_fix a = int m * 2 ^ nat (e + 1074)"
    using d_fix_pow [of a] assms(2) by (simp add: m_def e_def)
  have e: "- 1074 \<le> e" by (simp add: e_def mag_scale_ge)
  have fin: "\<not> inf_mag \<le> d_mag a" using assms(1) by (simp add: is_finite_def)
  show ?thesis
  proof (cases "0 \<le> e")
    case True
    then have "nat (e + 1074) = nat e + 1074" by simp
    then have f: "d_fix a = int m * 2 ^ nat e * 2 ^ 1074" unfolding fx by (simp add: power_add)
    then have "int q - 1 < int m * 2 ^ nat e" "int m * 2 ^ nat e \<le> int q"
      using assms(5,6) by simp_all
    then have "int m * 2 ^ nat e = int q" by linarith
    moreover have "d_ceil a = a" using True fin by (simp add: d_ceil_def e_def)
    ultimately show ?thesis using f assms(1) by simp
  next
    case False
    define d :: nat where "d = 2 ^ nat (- e)"
    have "1074 = nat (e + 1074) + nat (- e)" using False e by simp
    then have pw: "(2::int) ^ 1074 = 2 ^ nat (e + 1074) * int d"
      unfolding d_def by (metis of_nat_numeral of_nat_power power_add)
    have "(int q - 1) * int d * 2 ^ nat (e + 1074) < int m * 2 ^ nat (e + 1074)"
      "int m * 2 ^ nat (e + 1074) \<le> int q * int d * 2 ^ nat (e + 1074)"
      using assms(5,6) unfolding fx pw by (simp_all add: ac_simps)
    then have b: "(int q - 1) * int d < int m" "int m \<le> int q * int d" by simp_all
    have "(m + d - 1) div d = q"
    proof -
      have d0: "0 < d" by (simp add: d_def)
      have "int ((m + d - 1) div d) = (int m + int d - 1) div int d"
        using d0 by (simp add: zdiv_int of_nat_diff)
      also have "\<dots> = int q"
      proof (rule int_div_pos_eq)
        show "int m + int d - 1 = int d * int q + (int m - (int q - 1) * int d - 1)"
          by (simp add: algebra_simps)
        show "0 \<le> int m - (int q - 1) * int d - 1" "int m - (int q - 1) * int d - 1 < int d"
          using b by (simp_all add: algebra_simps)
      qed
      finally show ?thesis by simp
    qed
    then have "d_ceil a = d_of_int (int q)"
      using False fin assms(2) by (simp add: d_ceil_def Let_def e_def m_def d_def d_of_int_def)
    then show ?thesis using d_of_nat_exact(1,2) [OF assms(3)] by simp
  qed
qed

text \<open>A difference of two integers is exact.\<close>

lemma d_sub_one_exact:
  assumes "is_finite a" "d_fix a = int (Suc k) * 2 ^ 1074" "k < 2 ^ 53"
  shows "d_fix (d_sub a d_one) = int k * 2 ^ 1074" "is_finite (d_sub a d_one)"
proof -
  define c where "c = d_of_int (int k)"
  define b where "b = d_uminus d_one"
  have "d_one = d_of_int (int 1)" by (simp add: d_one_def d_eval)
  then have one: "d_fix d_one = 1 * 2 ^ 1074" "is_finite d_one"
    using d_of_nat_exact [of 1] by simp_all
  have fb: "d_fix b = - (2 ^ 1074)" "is_finite b"
    unfolding b_def using one by (simp_all only: d_fix_uminus finite_uminus mult_1)
  have fc: "d_fix c = int k * 2 ^ 1074" "is_finite c"
    unfolding c_def using d_of_nat_exact [OF assms(3)] by simp_all
  have "int (Suc k) * x + - x = int k * x" for x :: int by (simp add: algebra_simps)
  then have sum: "d_fix a + d_fix b = d_fix c" by (simp only: assms(2) fb(1) fc(1))
  have le: "d_le (d_add a b) c" "d_le c (d_add a b)"
    using sum assms(1) fb(2) fc(2) by (auto intro: d_add_le d_add_ge)
  then have "d_fix (d_add a b) = d_fix c" by (simp add: d_le_fix)
  moreover have "is_finite (d_add a b)" using d_le_finite [OF fc(2) fc(2) le(2,1)] .
  ultimately show "d_fix (d_sub a d_one) = int k * 2 ^ 1074" "is_finite (d_sub a d_one)"
    by (simp_all add: d_sub_def b_def fc(1))
qed

lemma d_to_int64_exact:
  assumes "is_finite a" "d_fix a = int k * 2 ^ 1074" "k < 2 ^ 53"
  shows "sint (d_to_int64 a) = int k"
proof -
  have "d_trunc a = int k" using assms(2) by (rule d_trunc_fix)
  then have "d_to_int64 a = word_of_int (int k)" using assms(1,3) by (simp add: d_to_int64_def)
  moreover have "sint (word_of_int (int k) :: u64) = int k"
    using assms(3) signed_take_bit_int_eq_self [of 63 "int k"] unfolding signed_of_int by simp
  ultimately show ?thesis by simp
qed

text \<open>The product with an integer, between two doubles.\<close>

lemma d_mul_nat_bounds:
  assumes "is_finite a" "\<not> d_neg a" "- 53 \<le> mag_scale (d_mag a)" "0 < mag_mant (d_mag a)"
    "0 < n" "n < 2 ^ 53" "M = mag_mant (d_mag a) * 2 ^ nat (mag_scale (d_mag a) + 53)"
    "l < 2 ^ 53" "l * 2 ^ (1074 - b) \<le> M * n * 2 ^ 1021"
    "u < 2 ^ 53" "M * n * 2 ^ 1021 \<le> u * 2 ^ 1074"
  shows "int l * 2 ^ (1074 - b) \<le> d_fix (d_mul a (d_of_int (int n)))"
    "d_fix (d_mul a (d_of_int (int n))) \<le> int u * 2 ^ 1074"
    "is_finite (d_mul a (d_of_int (int n)))" "\<not> d_neg (d_mul a (d_of_int (int n)))"
proof -
  define dn where "dn = d_of_int (int n)"
  have fn: "d_fix dn = int n * 2 ^ 1074" "is_finite dn" "\<not> d_neg dn"
    using d_of_nat_exact [OF assms(6)] by (simp_all add: dn_def)
  define mn where "mn = mag_mant (d_mag dn)"
  define sn where "sn = mag_scale (d_mag dn)"
  have mg: "mn * 2 ^ nat (sn + 1074) = n * 2 ^ 1074"
  proof -
    have "int (mn * 2 ^ nat (sn + 1074)) = int (n * 2 ^ 1074)"
      using fn(1,3) d_fix_pow [of dn] by (simp only: mn_def sn_def if_False of_nat_mult of_nat_power of_nat_numeral mult_1)
    then show ?thesis by (simp only: of_nat_eq_iff)
  qed
  have mn: "mn < 2 ^ 53" unfolding mn_def by (rule mag_mant_less)
  have "- 53 < sn"
  proof (rule ccontr)
    assume "\<not> - 53 < sn"
    then have "nat (sn + 1074) \<le> 1021" by simp
    then have "mn * 2 ^ nat (sn + 1074) \<le> mn * 2 ^ 1021" by (intro mult_left_mono power_increasing) simp_all
    also have "\<dots> < 2 ^ 53 * 2 ^ 1021" using mn by simp
    also have "\<dots> = 1 * (2::nat) ^ 1074" by (simp only: power_add [symmetric] mult_1) simp
    also have "\<dots> \<le> n * 2 ^ 1074" using assms(5) by (intro mult_right_mono) simp_all
    finally show False using mg by simp
  qed
  then have "0 \<le> mag_scale (d_mag a) + sn + 1074" using assms(3) by linarith
  then obtain k where k: "mag_scale (d_mag a) + sn = int k - 1074"
    by (metis add_diff_cancel_right' nonneg_int_cases)
  then have kk: "nat (mag_scale (d_mag a) + 53) + nat (sn + 1074) = k + 53"
    using assms(3) \<open>- 53 < sn\<close> by linarith
  define p where "p = mag_mant (d_mag a) * mn"
  have "p * 2 ^ k * 2 ^ 53 = M * (mn * 2 ^ nat (sn + 1074))"
    unfolding p_def assms(7) by (simp only: power_add [symmetric] kk [symmetric] mult.assoc) (simp only: power_add ac_simps)
  also have "\<dots> = M * n * 2 ^ 1021 * 2 ^ 53"
    unfolding mg by (simp only: mult.assoc power_add [symmetric]) simp
  finally have pm: "p * 2 ^ k = M * n * 2 ^ 1021" by (simp only: mult_cancel_right) simp
  define r where "r = round_mag p (int k - 1074)"
  have p0: "0 < p" using assms(4,5) mg by (cases "mn = 0") (simp_all add: p_def)
  have "d_mul a dn = d_round False p (int k - 1074)"
    using assms(1,2) fn(2,3) by (simp add: d_mul_def Let_def p_def mn_def k [symmetric] sn_def)
  then have mul: "d_mul a dn = d_make False r" by (simp add: d_round_def r_def)
  have r: "r \<le> inf_mag" by (simp add: r_def round_mag_le)
  obtain jl where jl: "mag_fix jl = l * 2 ^ (1074 - b)" using mag_fix_onto [OF assms(8)] by blast
  obtain ju where ju: "mag_fix ju = u * 2 ^ 1074" using mag_fix_onto [OF assms(10)] by blast
  have "u * 2 ^ 1074 < 2 ^ 53 * 2 ^ 1074" using assms(10) by simp
  also have "\<dots> = (2::nat) ^ 1127" by (simp only: power_add [symmetric]) simp
  also have "\<dots> \<le> 2 ^ 2098" by (intro power_increasing) simp_all
  finally have juf: "ju < inf_mag" using ju mag_fix_finite by metis
  have "mag_fix jl \<le> mag_fix ju" unfolding jl ju using assms(9,11) by (rule le_trans)
  then have "jl \<le> inf_mag" using juf by (simp add: mag_fix_mono)
  then have lo: "jl \<le> r" unfolding r_def
    using assms(9) jl by (intro round_mag_bounds(2) [OF p0 refl]) (simp_all only: pm)
  have hi: "r \<le> ju" unfolding r_def
    using assms(11) ju by (intro round_mag_bounds(1) [OF p0 refl]) (simp only: pm)
  have fields: "d_mag (d_mul a dn) = r" "\<not> d_neg (d_mul a dn)"
    using r inf_mag_less unfolding mul by (simp_all add: d_make_fields)
  have "mag_fix jl \<le> mag_fix r" "mag_fix r \<le> mag_fix ju" using lo hi by (simp_all add: mag_fix_mono)
  then have "int (mag_fix jl) \<le> d_fix (d_mul a dn)" "d_fix (d_mul a dn) \<le> int (mag_fix ju)"
    using fields by (simp_all add: d_fix_def)
  then show "int l * 2 ^ (1074 - b) \<le> d_fix (d_mul a (d_of_int (int n)))"
    "d_fix (d_mul a (d_of_int (int n))) \<le> int u * 2 ^ 1074"
    unfolding jl ju dn_def by (simp_all only: of_nat_mult of_nat_power of_nat_numeral)
  show "is_finite (d_mul a (d_of_int (int n)))" "\<not> d_neg (d_mul a (d_of_int (int n)))"
    using fields hi juf by (simp_all add: is_finite_def dn_def)
qed

end
