(* ===== verification/Conformal.thy ===== *)
theory Conformal
  imports Double_Exact "HOL-Library.Multiset"
begin

text \<open>
  Layer 4, \<open>include/detect/conformal.hpp\<close>: \<open>ConformalThreshold\<close>, per stream a ring of the most recent
  scores and the empirical quantile of what it holds. The capacity and the indices are bounded by
  the size of a vector, so they are natural numbers here. \<open>scratch_\<close> only lives inside \<open>threshold\<close>: the
  sorted copy is a value. \<open>std::sort\<close> with \<open><\<close> on doubles is sorting by \<open>d_key\<close>; it is only defined for
  scores that are numbers, which the theorems about the quantile assume.
\<close>

record conf_state =
  cf_buf :: "double list"
  cf_head :: nat
  cf_count :: nat

record conformal =
  ct_capacity :: nat
  ct_state :: "u32 \<rightharpoonup> conf_state"

definition conf_init :: "nat \<Rightarrow> conformal" where
  "conf_init window_capacity = \<lparr>ct_capacity = window_capacity, ct_state = Map.empty\<rparr>"

definition conf_fresh :: conf_state where
  "conf_fresh = \<lparr>cf_buf = [], cf_head = 0, cf_count = 0\<rparr>"

definition conf_lookup :: "u32 \<Rightarrow> conformal \<Rightarrow> conf_state" where
  "conf_lookup i c = (case ct_state c i of None \<Rightarrow> conf_fresh | Some st \<Rightarrow> st)"

definition conf_resize :: "nat \<Rightarrow> double list \<Rightarrow> double list" where
  "conf_resize n xs = take n xs @ replicate (n - length xs) 0"

definition conf_push :: "nat \<Rightarrow> double \<Rightarrow> conf_state \<Rightarrow> conf_state" where
  "conf_push capacity score st =
     (let st = (if length (cf_buf st) \<noteq> capacity then st\<lparr>cf_buf := conf_resize capacity (cf_buf st)\<rparr> else st)
      in if capacity = 0 then st
         else if cf_count st < capacity
         then st\<lparr>cf_buf := (cf_buf st)[(cf_head st + cf_count st) mod capacity := score],
                 cf_count := cf_count st + 1\<rparr>
         else st\<lparr>cf_buf := (cf_buf st)[cf_head st := score],
                 cf_head := (cf_head st + 1) mod capacity\<rparr>)"

definition conf_update :: "u32 \<Rightarrow> double \<Rightarrow> conformal \<Rightarrow> conformal" where
  "conf_update i score c =
     c\<lparr>ct_state := (ct_state c)(i \<mapsto> conf_push (ct_capacity c) score (conf_lookup i c))\<rparr>"

text \<open>The loop that copies the ring, oldest first.\<close>

definition conf_window :: "nat \<Rightarrow> conf_state \<Rightarrow> double list" where
  "conf_window capacity st = map (\<lambda>i. cf_buf st ! ((cf_head st + i) mod capacity)) [0..<cf_count st]"

definition conf_index :: "double \<Rightarrow> nat \<Rightarrow> nat" where
  "conf_index alpha n =
     (let raw = d_sub (d_ceil (d_mul (d_sub d_one alpha) (d_of_int (int n)))) d_one;
          idx = sint (d_to_int64 raw);
          final = int n - 1
      in nat (if idx < 0 then 0 else if idx > final then final else idx))"

definition conf_threshold :: "u32 \<Rightarrow> double \<Rightarrow> conformal \<Rightarrow> double" where
  "conf_threshold i alpha c =
     (case ct_state c i of
        None \<Rightarrow> d_inf False
      | Some st \<Rightarrow>
          if cf_count st = 0 then d_inf False
          else sort_key d_key (conf_window (ct_capacity c) st) ! conf_index alpha (cf_count st))"

definition conf_is_anomalous :: "u32 \<Rightarrow> double \<Rightarrow> double \<Rightarrow> conformal \<Rightarrow> bool" where
  "conf_is_anomalous i score alpha c = d_lt (conf_threshold i alpha c) score"

definition conf_updates :: "(u32 \<times> double) list \<Rightarrow> conformal \<Rightarrow> conformal" where
  "conf_updates xs c = fold (\<lambda>(i, s). conf_update i s) xs c"

section \<open>The ring is a sliding window\<close>

definition conf_inv :: "nat \<Rightarrow> conf_state \<Rightarrow> bool" where
  "conf_inv w st \<longleftrightarrow> cf_count st \<le> w \<and> cf_head st \<le> w \<and>
     (cf_count st < w \<longrightarrow> cf_head st = 0) \<and> (0 < w \<longrightarrow> cf_head st < w) \<and>
     (length (cf_buf st) = w \<or> st = conf_fresh)"

lemma conf_push_room:
  assumes "conf_inv w st" "cf_count st < w"
  shows "conf_inv w (conf_push w s st) \<and> conf_window w (conf_push w s st) = conf_window w st @ [s]"
proof -
  define buf where "buf = (if length (cf_buf st) \<noteq> w then conf_resize w (cf_buf st) else cf_buf st)"
  have h: "cf_head st = 0" using assms by (simp add: conf_inv_def)
  have len: "length buf = w" by (simp add: buf_def conf_resize_def min_def)
  have p: "conf_push w s st = st\<lparr>cf_buf := buf[cf_count st := s], cf_count := cf_count st + 1\<rparr>"
    using assms(2) h by (auto simp: conf_push_def buf_def Let_def)
  have old: "conf_window w st = take (cf_count st) buf"
  proof (cases "st = conf_fresh")
    case True
    then show ?thesis by (simp add: conf_window_def conf_fresh_def)
  next
    case False
    then have "cf_buf st = buf" using assms(1) by (auto simp: conf_inv_def buf_def)
    then show ?thesis using assms(2) len h
      by (intro nth_equalityI) (simp_all add: conf_window_def)
  qed
  have "conf_window w (conf_push w s st) = take (cf_count st + 1) (buf[cf_count st := s])"
    using assms(2) len h by (intro nth_equalityI) (simp_all add: conf_window_def p del: upt_Suc)
  also have "\<dots> = take (cf_count st) buf @ [s]"
    using assms(2) len by (simp add: take_Suc_conv_app_nth)
  finally show ?thesis using assms len h old by (auto simp: conf_inv_def p)
qed

lemma conf_push_full:
  assumes "conf_inv w st" "cf_count st = w" "0 < w"
  shows "conf_inv w (conf_push w s st) \<and> conf_window w (conf_push w s st) = tl (conf_window w st) @ [s]"
proof -
  define h where "h = cf_head st"
  have h: "h < w" "length (cf_buf st) = w"
    using assms by (auto simp: conf_inv_def conf_fresh_def h_def)
  have p: "conf_push w s st = st\<lparr>cf_buf := (cf_buf st)[h := s], cf_head := (h + 1) mod w\<rparr>"
    using assms(2,3) h by (simp add: conf_push_def Let_def h_def)
  have "conf_window w (conf_push w s st) = tl (conf_window w st) @ [s]"
  proof (rule nth_equalityI)
    fix i assume "i < length (conf_window w (conf_push w s st))"
    then have i: "i < w" using assms(2) by (simp add: conf_window_def p)
    have ix: "((h + 1) mod w + i) mod w = (h + (i + 1)) mod w" by (simp add: mod_add_left_eq add.assoc)
    show "conf_window w (conf_push w s st) ! i = (tl (conf_window w st) @ [s]) ! i"
    proof (cases "i = w - 1")
      case True
      then have hi: "(h + (i + 1)) mod w = h" using assms(3) h(1) by simp
      have "length (tl (conf_window w st)) = i" using True assms(2) by (simp add: conf_window_def)
      then have "(tl (conf_window w st) @ [s]) ! i = s" by (metis nth_append_length)
      moreover have "conf_window w (conf_push w s st) ! i = s"
        using i assms(2) h ix hi by (simp add: conf_window_def p)
      ultimately show ?thesis by simp
    next
      case False
      then have "i + 1 < w" using i by simp
      have "(h + (i + 1)) mod w \<noteq> h"
      proof
        assume "(h + (i + 1)) mod w = h"
        then have "(h + (i + 1)) mod w = (h + 0) mod w" using h(1) by simp
        then show False using mod_add_eq_imp_eq [of h "i + 1" w 0] \<open>i + 1 < w\<close> by simp
      qed
      moreover have "i < w - 1" "Suc i < w" using \<open>i + 1 < w\<close> by simp_all
      ultimately show ?thesis using i assms(2) h ix
        by (simp add: conf_window_def p nth_append nth_tl h_def)
    qed
  qed (use assms(2,3) in \<open>simp add: conf_window_def p\<close>)
  moreover have "conf_inv w (conf_push w s st)"
    using assms h by (auto simp: conf_inv_def p)
  ultimately show ?thesis by blast
qed

lemma conf_push_window:
  assumes "conf_inv w st"
  shows "conf_inv w (conf_push w s st)"
    "conf_window w (conf_push w s st) =
       (let xs = conf_window w st @ [s] in drop (length xs - w) xs)"
proof -
  have len: "length (conf_window w st) = cf_count st" by (simp add: conf_window_def)
  consider "w = 0" | "cf_count st < w" | "cf_count st = w" "0 < w"
    using assms by (fastforce simp: conf_inv_def)
  then have "conf_inv w (conf_push w s st) \<and> conf_window w (conf_push w s st) =
       (let xs = conf_window w st @ [s] in drop (length xs - w) xs)"
  proof cases
    case 1
    then show ?thesis using assms
      by (auto simp: conf_push_def conf_inv_def conf_window_def Let_def conf_resize_def conf_fresh_def)
  next
    case 2
    then show ?thesis using conf_push_room [OF assms 2, of s] len by simp
  next
    case 3
    have "conf_window w st \<noteq> []" using 3 len by auto
    then have "drop 1 (conf_window w st @ [s]) = tl (conf_window w st) @ [s]"
      by (cases "conf_window w st") simp_all
    then show ?thesis using conf_push_full [OF assms 3, of s] len 3 by (simp add: Let_def)
  qed
  then show "conf_inv w (conf_push w s st)"
    "conf_window w (conf_push w s st) =
       (let xs = conf_window w st @ [s] in drop (length xs - w) xs)" by blast+
qed

lemma keep_last:
  "(let ys = drop (length ss - w) ss @ [s] in drop (length ys - w) ys) =
   (let ys = ss @ [s] in drop (length ys - w) ys)"
proof (cases "length ss < w")
  case False
  then have "Suc (length ss) - w = Suc (length ss - w)" by simp
  then show ?thesis using False by (cases "w = 0") (simp_all add: Let_def drop_Suc drop_tl)
qed (simp add: Let_def)

definition scores_of :: "u32 \<Rightarrow> (u32 \<times> double) list \<Rightarrow> double list" where
  "scores_of i xs = map snd (filter (\<lambda>x. fst x = i) xs)"

lemma conf_updates_window:
  "ct_capacity (conf_updates xs (conf_init w)) = w \<and>
   conf_inv w (conf_lookup i (conf_updates xs (conf_init w))) \<and>
   conf_window w (conf_lookup i (conf_updates xs (conf_init w))) =
     (let ss = scores_of i xs in drop (length ss - w) ss)"
proof (induction xs rule: rev_induct)
  case Nil
  then show ?case
    by (simp add: conf_updates_def conf_init_def conf_lookup_def conf_fresh_def conf_inv_def
        conf_window_def scores_of_def)
next
  case (snoc x xs)
  obtain j s where x: "x = (j, s)" by force
  define c where "c = conf_updates xs (conf_init w)"
  have c': "conf_updates (xs @ [x]) (conf_init w) = conf_update j s c"
    by (simp add: conf_updates_def c_def x)
  have w: "ct_capacity c = w" "conf_inv w (conf_lookup i c)"
    "conf_window w (conf_lookup i c) = (let ss = scores_of i xs in drop (length ss - w) ss)"
    using snoc.IH by (simp_all add: c_def)
  show ?case
  proof (cases "j = i")
    case True
    have "conf_lookup i (conf_update j s c) = conf_push w s (conf_lookup i c)"
      by (simp add: conf_update_def conf_lookup_def True w(1))
    moreover have "scores_of i (xs @ [x]) = scores_of i xs @ [s]" by (simp add: scores_of_def x True)
    ultimately show ?thesis
      using conf_push_window [OF w(2), of s] w(1,3) keep_last [of "scores_of i xs" w s] unfolding c'
      by (simp add: conf_update_def Let_def)
  next
    case False
    then have "conf_lookup i (conf_update j s c) = conf_lookup i c"
      by (simp add: conf_update_def conf_lookup_def)
    moreover have "scores_of i (xs @ [x]) = scores_of i xs" using False by (simp add: scores_of_def x)
    ultimately show ?thesis using w unfolding c' by (simp add: conf_update_def)
  qed
qed


text \<open>C15: The ring is a sliding window: after any interleaved updates, what a stream's ring holds, oldest
  first, is the last \<open>W\<close> scores of that stream in the order they came, whatever the capacity (0
  included) and whatever the other streams did.\<close>

theorem conf_window_is_last_scores:
  "conf_window w (conf_lookup i (conf_updates xs (conf_init w))) =
     drop (length (scores_of i xs) - w) (scores_of i xs)"
  using conf_updates_window [of xs w i] by (simp add: Let_def)

section \<open>The threshold is an order statistic\<close>

lemma sorted_split_counts:
  assumes "sorted (map f xs)" "j < length xs"
  shows "length (filter (\<lambda>x. f (xs ! j) < f x) xs) \<le> length xs - 1 - j"
    "j + 1 \<le> length (filter (\<lambda>x. f x \<le> f (xs ! j)) xs)"
proof -
  have xs: "xs = take (j + 1) xs @ drop (j + 1) xs" by simp
  have lo: "f x \<le> f (xs ! j)" if "x \<in> set (take (j + 1) xs)" for x
  proof -
    from that obtain i where "i < j + 1" "i < length xs" "x = xs ! i" by (auto simp: in_set_conv_nth)
    then show ?thesis using sorted_nth_mono [OF assms(1), of i j] assms(2) by simp
  qed
  have "length (filter (\<lambda>x. f (xs ! j) < f x) xs) =
      length (filter (\<lambda>x. f (xs ! j) < f x) (take (j + 1) xs)) +
      length (filter (\<lambda>x. f (xs ! j) < f x) (drop (j + 1) xs))"
    by (subst xs) (simp only: filter_append length_append)
  also have "filter (\<lambda>x. f (xs ! j) < f x) (take (j + 1) xs) = []"
    using lo by (auto simp: filter_empty_conv not_less)
  finally show "length (filter (\<lambda>x. f (xs ! j) < f x) xs) \<le> length xs - 1 - j"
    using length_filter_le [of "\<lambda>x. f (xs ! j) < f x" "drop (j + 1) xs"] by simp
  have "filter (\<lambda>x. f x \<le> f (xs ! j)) (take (j + 1) xs) = take (j + 1) xs"
    using lo by (simp add: filter_id_conv)
  then have "length (filter (\<lambda>x. f x \<le> f (xs ! j)) (take (j + 1) xs)) = j + 1" using assms(2) by simp
  moreover have "length (filter (\<lambda>x. f x \<le> f (xs ! j)) xs) =
      length (filter (\<lambda>x. f x \<le> f (xs ! j)) (take (j + 1) xs)) +
      length (filter (\<lambda>x. f x \<le> f (xs ! j)) (drop (j + 1) xs))"
    by (subst xs) (simp only: filter_append length_append)
  ultimately show "j + 1 \<le> length (filter (\<lambda>x. f x \<le> f (xs ! j)) xs)" by simp
qed

lemma conf_index_less: "0 < n \<Longrightarrow> conf_index alpha n < n"
  by (auto simp: conf_index_def Let_def)

lemma length_filter_mset_cong: "mset xs = mset ys \<Longrightarrow> length (filter p xs) = length (filter p ys)"
  by (metis mset_filter size_mset)

lemma d_lt_key: "\<not> is_nan a \<Longrightarrow> \<not> is_nan b \<Longrightarrow> d_lt a b \<longleftrightarrow> d_key a < d_key b"
  by (simp add: d_lt_def)

lemma conf_threshold_order:
  assumes "ct_state c i = Some st" "0 < cf_count st" "win = conf_window (ct_capacity c) st"
    "list_all (\<lambda>x. \<not> is_nan x) win" "thr = conf_threshold i alpha c" "j = conf_index alpha (length win)"
  shows "thr \<in> set win \<and> length (filter (\<lambda>x. d_lt thr x) win) \<le> length win - 1 - j \<and>
    j + 1 \<le> length (filter (\<lambda>x. d_le x thr) win)"
proof -
  define ss where "ss = sort_key d_key win"
  have len: "length win = cf_count st" "length ss = length win"
    by (simp_all add: assms(3) conf_window_def ss_def)
  have thr: "thr = ss ! j" using assms(1-3,5,6) len by (simp add: conf_threshold_def ss_def)
  have j: "j < length ss" using conf_index_less [of "length win" alpha] assms(2,6) len by simp
  have ms: "mset ss = mset win" by (simp add: ss_def)
  have set: "set ss = set win" using ms by (metis set_mset_mset)
  have nn: "\<not> is_nan x" if "x \<in> set win" for x using assms(4) that by (simp add: list_all_iff)
  have t: "thr \<in> set win" using j thr set nth_mem by metis
  have "sorted (map d_key ss)" by (simp add: ss_def)
  note cnt = sorted_split_counts [OF this j, folded thr]
  have "filter (\<lambda>x. d_lt thr x) win = filter (\<lambda>x. d_key thr < d_key x) win"
    "filter (\<lambda>x. d_le x thr) win = filter (\<lambda>x. d_key x \<le> d_key thr) win"
    using nn t by (auto simp: d_lt_def d_le_def intro!: filter_cong)
  then show ?thesis using t cnt len length_filter_mset_cong [OF ms] by simp
qed

lemma conf_quantile:
  assumes "c = conf_updates xs (conf_init w)" "win = drop (length (scores_of i xs) - w) (scores_of i xs)"
    "win \<noteq> []" "list_all (\<lambda>x. \<not> is_nan x) win" "j = conf_index alpha (length win)"
  shows "conf_threshold i alpha c \<in> set win \<and> j < length win \<and>
    length (filter (\<lambda>x. conf_is_anomalous i x alpha c) win) \<le> length win - 1 - j \<and>
    j + 1 \<le> length (filter (\<lambda>x. d_le x (conf_threshold i alpha c)) win)"
proof -
  have w: "ct_capacity c = w" "conf_window w (conf_lookup i c) = win"
    using conf_updates_window [of xs w i] by (simp_all add: assms(1,2) Let_def)
  obtain st where st: "ct_state c i = Some st"
    using w(2) assms(3) by (cases "ct_state c i") (auto simp: conf_lookup_def conf_fresh_def conf_window_def)
  have win: "win = conf_window (ct_capacity c) st" using w st by (simp add: conf_lookup_def)
  then have "0 < cf_count st" using assms(3) by (simp add: conf_window_def)
  then show ?thesis
    using conf_threshold_order [OF st _ win assms(4) refl assms(5)] conf_index_less [of "length win" alpha]
      assms(3,5) by (simp add: conf_is_anomalous_def)
qed

text \<open>For a window of numbers the threshold is one of its scores; with the clamped index \<open>j\<close> the code
  computes, at most \<open>n - 1 - j\<close> of the \<open>n\<close> scores are anomalous against it and at least \<open>j + 1\<close> are
  not above it. Asking is a pure query.\<close>

theorem conf_threshold_is_quantile:
  assumes "c = conf_updates xs (conf_init w)" "win = drop (length (scores_of i xs) - w) (scores_of i xs)"
    "win \<noteq> []" "list_all (\<lambda>x. \<not> is_nan x) win" "j = conf_index alpha (length win)"
  shows "conf_threshold i alpha c \<in> set win \<and> j < length win \<and>
    length (filter (\<lambda>x. conf_is_anomalous i x alpha c) win) \<le> length win - 1 - j \<and>
    j + 1 \<le> length (filter (\<lambda>x. d_le x (conf_threshold i alpha c)) win)"
  using conf_quantile [OF assms] .

theorem conf_threshold_is_quantile_witness:
  "conf_threshold 1 d_one (conf_updates [(1, d_one), (2, d_nan), (1, 0)] (conf_init 2)) \<in> {d_one, 0}"
proof -
  have "drop (length (scores_of 1 [(1, d_one), (2, d_nan), (1, 0)]) - 2)
      (scores_of 1 [(1, d_one), (2, d_nan), (1, 0)]) = [d_one, 0]" by (simp add: scores_of_def)
  moreover have "\<not> is_nan d_one" by (simp add: d_one_def is_nan_def d_mag_def inf_mag_def)
  ultimately show ?thesis
    using conf_threshold_is_quantile [OF refl refl, of 1 "[(1, d_one), (2, d_nan), (1, 0)]" 2 _ d_one] by simp
qed

text \<open>A window that has seen nothing never raises an alarm.\<close>

lemma conf_empty_never_anomalous:
  "conf_window (ct_capacity c) (conf_lookup i c) = [] \<Longrightarrow> \<not> conf_is_anomalous i s alpha c"
  by (auto simp: conf_is_anomalous_def conf_threshold_def conf_lookup_def conf_window_def d_lt_def d_key_def
      is_nan_def split: option.splits)

section \<open>The index at one percent\<close>

text \<open>The level the daemon asks for, \<open>0.01\<close>, and the difference \<open>1 - alpha\<close> the code computes: the double
  just below \<open>0.99\<close>. Its product with \<open>n\<close> is rounded, but never across the ceiling of \<open>99 n / 100\<close>.\<close>

definition alpha_01 :: double where
  "alpha_01 = 0x3F847AE147AE147B"

lemma one_minus_alpha_01: "d_sub d_one alpha_01 = 0x3FEFAE147AE147AE"
  by (simp add: d_sub_def d_one_def alpha_01_def d_eval)

lemma conf_index_alpha_01:
  assumes "0 < n" "n \<le> 2 ^ 40"
  shows "conf_index alpha_01 n = (99 * n + 99) div 100 - 1"
proof -
  define a :: double where "a = 0x3FEFAE147AE147AE"
  define M :: nat where "M = 0x1FAE147AE147AE"
  define q where "q = (99 * n + 99) div 100"
  have a: "is_finite a" "\<not> d_neg a" "mag_scale (d_mag a) = - 53" "mag_mant (d_mag a) = M"
    by (simp_all add: a_def M_def d_eval is_finite_def)
  have q: "99 * n \<le> 100 * q" "100 * q \<le> 99 * n + 99" "0 < q" "q \<le> n"
    using assms(1) by (simp_all add: q_def)
  define l where "l = 128 * (q - 1) + 1"
  have l: "l < 2 ^ 53" "l * 2 ^ 46 \<le> M * n" using q assms by (simp_all add: l_def M_def)
  have u: "q < 2 ^ 53" "M * n \<le> q * 2 ^ 53" using q assms by (simp_all add: M_def)
  have e: "(1074 :: nat) - 7 = 46 + 1021" "(1074 :: nat) = 53 + 1021" by simp_all
  have "l * 2 ^ (1074 - 7) = l * 2 ^ 46 * 2 ^ 1021" by (simp only: e(1) power_add mult.assoc)
  moreover have "q * 2 ^ 1074 = q * 2 ^ 53 * 2 ^ 1021" by (simp only: e(2) power_add mult.assoc)
  ultimately have lu: "l * 2 ^ (1074 - 7) \<le> M * n * 2 ^ 1021" "M * n * 2 ^ 1021 \<le> q * 2 ^ 1074"
    using l(2) u(2) by (simp_all only: mult_le_mono1)
  have M: "M = mag_mant (d_mag a) * 2 ^ nat (mag_scale (d_mag a) + 53)" "0 < mag_mant (d_mag a)"
    by (simp_all add: a(3,4)) (simp add: M_def)
  define y where "y = d_mul a (d_of_int (int n))"
  note b = d_mul_nat_bounds [OF a(1,2) _ M(2) assms(1) _ M(1) l(1) lu(1) u(1) lu(2), folded y_def]
  have n53: "n < 2 ^ 53" using assms(2) by simp
  have "(int q - 1) * 2 ^ 1074 = (int l - 1) * 2 ^ (1074 - 7)"
  proof -
    have "int l - 1 = 2 ^ 7 * (int q - 1)" using q(3) by (simp add: l_def of_nat_diff)
    then show ?thesis by (simp only: power_add [symmetric] mult.assoc mult.left_commute [of "2 ^ 7"]) simp
  qed
  also have "\<dots> < int l * 2 ^ (1074 - 7)" by (intro mult_strict_right_mono) simp_all
  also have "\<dots> \<le> d_fix y" using b(1) n53 a(3) by simp
  finally have gt: "(int q - 1) * 2 ^ 1074 < d_fix y" .
  have "d_fix (d_ceil y) = int q * 2 ^ 1074 \<and> is_finite (d_ceil y)"
    using b(2-4) n53 a(3) gt q(3) u(1) by (intro d_ceil_between) simp_all
  then have ce: "is_finite (d_ceil y)" "d_fix (d_ceil y) = int (Suc (q - 1)) * 2 ^ 1074" using q(3) by simp_all
  have "q - 1 < 2 ^ 53" using u(1) by simp
  note raw = d_sub_one_exact [OF ce this] this
  have "sint (d_to_int64 (d_sub (d_ceil y) d_one)) = int (q - 1)"
    using raw by (intro d_to_int64_exact)
  then have "conf_index alpha_01 n = q - 1"
    using q(4) assms(1) by (auto simp: conf_index_def Let_def one_minus_alpha_01 y_def a_def)
  then show ?thesis by (simp add: q_def)
qed

lemma one_percent_count:
  assumes "0 < n" "j = (99 * n + 99) div 100 - 1"
  shows "n - 1 - j \<le> n div (100 :: nat)"
proof -
  define q where "q = (99 * n + 99) div 100"
  have "99 * n \<le> 100 * q" "0 < q" using assms(1) by (simp_all add: q_def)
  then have "100 * (n - q) \<le> n" by linarith
  then have "n - q \<le> n div 100" by (simp add: less_eq_div_iff_mult_less_eq mult.commute)
  then show ?thesis using assms(2) \<open>0 < q\<close> by (simp add: q_def [symmetric])
qed

text \<open>C14: At the level the daemon uses, \<open>alpha = 0.01\<close>, the floating-point index is exactly
  \<open>\<lceil>0.99 n\<rceil> - 1\<close> for every non-empty window of up to \<open>2 ^ 40\<close> scores without a NaN, so at most one score in a
  hundred of the window (rounded down) lies above the threshold: with the daemon's window of 500, at most five.\<close>

theorem conf_one_percent:
  assumes "c = conf_updates xs (conf_init w)" "win = drop (length (scores_of i xs) - w) (scores_of i xs)"
    "win \<noteq> []" "list_all (\<lambda>x. \<not> is_nan x) win" "length win \<le> 2 ^ 40"
  shows "conf_index alpha_01 (length win) = (99 * length win + 99) div 100 - 1 \<and>
    length (filter (\<lambda>x. conf_is_anomalous i x alpha_01 c) win) \<le> length win div 100"
proof -
  have n: "0 < length win" using assms(3) by simp
  have w: "ct_capacity c = w" "conf_window w (conf_lookup i c) = win"
    using conf_updates_window [of xs w i] by (simp_all add: assms(1,2) Let_def)
  note ix = conf_index_alpha_01 [OF n assms(5)]
  have "length (filter (\<lambda>x. conf_is_anomalous i x alpha_01 c) win)
      \<le> length win - 1 - conf_index alpha_01 (length win)"
    using conf_quantile [OF assms(1-4) refl, of alpha_01] by blast
  also have "\<dots> \<le> length win div 100" by (rule one_percent_count [OF n ix])
  finally show ?thesis using ix by blast
qed

theorem conf_one_percent_witness:
  "conf_index alpha_01 2 = 1 \<and> \<not> conf_is_anomalous 1 d_one alpha_01 (conf_updates [(1, d_one), (1, 0)] (conf_init 500))"
proof -
  have "drop (length (scores_of 1 [(1, d_one), (1, 0)]) - 500) (scores_of 1 [(1, d_one), (1, 0)]) = [d_one, 0]"
    by (simp add: scores_of_def)
  moreover have "\<not> is_nan d_one" by (simp add: d_one_def is_nan_def d_mag_def inf_mag_def)
  ultimately have "conf_index alpha_01 (Suc (Suc 0)) = 1 \<and>
      \<not> conf_is_anomalous 1 d_one alpha_01 (conf_updates [(1, d_one), (1, 0)] (conf_init 500))"
    using conf_one_percent [OF refl refl, of 1 "[(1, d_one), (1, 0)]" 500] by (auto split: if_splits)
  then show ?thesis unfolding numeral_2_eq_2 .
qed

end
