(* ===== verification/Python_Module.thy ===== *)
theory Python_Module
  imports Python_Bindings Checksum Baseline Cusum Conformal
begin

text \<open>
  The module \<open>telemetry_engine\<close> that \<open>src/bindings/bindings.cpp\<close> registers: its classes, their constructors,
  methods and read-only attributes, its enumerations and free functions, each bound to the operation of the
  component it names. A session holds the objects Python has made (a reference is an index) and the disk;
  \<open>py_exec\<close> is one call. The arguments of a call are those pybind11 has converted to the registered C++ types;
  a call on an object of another class is its \<open>TypeError\<close>. The exception of \<open>load_rule_config\<close> is Python's
  \<open>RuntimeError\<close>.
\<close>

datatype py_object = ObjRecorder recorder | ObjReplayer replayer | ObjChecksum u64 | ObjInjector u64
  | ObjRules rule_checker | ObjBaseline baseline | ObjCusum cusum | ObjConformal conformal | ObjGone

datatype py_value = PyNone | PyBool bool | PyInt int | PyFloat double | PyRef nat | PyMessage message
  | PyStatus replay_status | PyFaultType fault_type | PySpec fault_spec | PyLabel fault_label
  | PyLabels "fault_label list" | PyRule rule_config | PyRuleResult rule_result

record py_session =
  py_objects :: "py_object list"
  py_disk :: disk

section \<open>Attributes and enumerations\<close>

definition py_message_attr :: "message \<Rightarrow> string \<Rightarrow> py_value option" where
  "py_message_attr m = map_of
     [(''stream_id'', PyInt (uint (m_stream_id m))), (''ts_ns'', PyInt (sint (m_ts_ns m))),
      (''value'', PyFloat (m_value m)), (''seq'', PyInt (uint (m_seq m)))]"

definition py_spec_attr :: "fault_spec \<Rightarrow> string \<Rightarrow> py_value option" where
  "py_spec_attr s = map_of
     [(''type'', PyFaultType (sp_type s)), (''stream_id'', PyInt (uint (sp_stream_id s))),
      (''onset_index'', PyInt (uint (sp_onset s))), (''duration'', PyInt (uint (sp_duration s))),
      (''magnitude'', PyFloat (sp_magnitude s))]"

definition py_label_attr :: "fault_label \<Rightarrow> string \<Rightarrow> py_value option" where
  "py_label_attr l = map_of
     [(''stream_id'', PyInt (uint (lb_stream_id l))), (''type'', PyFaultType (lb_type l)),
      (''t_start_ns'', PyInt (sint (lb_start_ns l))), (''t_end_ns'', PyInt (sint (lb_end_ns l)))]"

definition py_rule_attr :: "rule_config \<Rightarrow> string \<Rightarrow> py_value option" where
  "py_rule_attr r = map_of
     [(''stream_id'', PyInt (uint (rg_stream_id r))), (''min'', PyFloat (rg_min r)),
      (''max'', PyFloat (rg_max r)), (''max_rate_of_change'', PyFloat (rg_max_rate r))]"

definition py_replayer_attr :: "replayer \<Rightarrow> string \<Rightarrow> py_value option" where
  "py_replayer_attr r = map_of
     [(''status'', PyStatus (rp_status r)), (''truncated'', PyBool (rp_truncated r)),
      (''messages_replayed'', PyInt (uint (rp_messages_replayed r)))]"

definition py_status_enum :: "string \<Rightarrow> py_value option" where
  "py_status_enum = map_of
     [(''kOk'', PyStatus kOk), (''kFileNotFound'', PyStatus kFileNotFound), (''kBadMagic'', PyStatus kBadMagic),
      (''kUnsupportedVersion'', PyStatus kUnsupportedVersion)]"

definition py_fault_type_enum :: "string \<Rightarrow> py_value option" where
  "py_fault_type_enum = map_of
     [(''kSpike'', PyFaultType KSpike), (''kDrift'', PyFaultType KDrift),
      (''kStuckAtValue'', PyFaultType KStuckAtValue), (''kDropout'', PyFaultType KDropout)]"

definition py_rule_result_enum :: "string \<Rightarrow> py_value option" where
  "py_rule_result_enum = map_of
     [(''kOk'', PyRuleResult ROk), (''kOutOfBounds'', PyRuleResult ROutOfBounds),
      (''kRateViolation'', PyRuleResult RRateViolation)]"

definition py_module_attr :: "string \<Rightarrow> py_value option" where
  "py_module_attr = map_of [(''kAutoOnset'', PyInt (uint kAutoOnset))]"

text \<open>Attribute lookup; an unknown name is an \<open>AttributeError\<close>.\<close>

definition py_getattr :: "py_session \<Rightarrow> py_value \<Rightarrow> string \<Rightarrow> py_exception + py_value" where
  "py_getattr st v name =
     (case (case v of
              PyMessage m \<Rightarrow> py_message_attr m name
            | PySpec s \<Rightarrow> py_spec_attr s name
            | PyLabel l \<Rightarrow> py_label_attr l name
            | PyRule r \<Rightarrow> py_rule_attr r name
            | PyRef n \<Rightarrow> (if n < length (py_objects st)
                then (case py_objects st ! n of ObjReplayer r \<Rightarrow> py_replayer_attr r name | _ \<Rightarrow> None) else None)
            | _ \<Rightarrow> None) of
        Some a \<Rightarrow> Inr a
      | None \<Rightarrow> Inl AttributeError)"

section \<open>Methods\<close>

datatype recorder_method = RecorderWrite message | RecorderIsOpen | RecorderCount | RecorderClose

definition py_recorder_call :: "recorder_method \<Rightarrow> recorder \<Rightarrow> disk \<Rightarrow> py_value \<times> recorder \<times> disk" where
  "py_recorder_call c r d =
     (case c of
        RecorderWrite msg \<Rightarrow> (let (ok, r, d) = recorder_write msg r d in (PyBool ok, r, d))
      | RecorderIsOpen \<Rightarrow> (PyBool (recorder_is_open r), r, d)
      | RecorderCount \<Rightarrow> (PyInt (uint (rc_count r)), r, d)
      | RecorderClose \<Rightarrow> (let (r, d) = recorder_close r d in (PyNone, r, d)))"

datatype checksum_method = ChecksumUpdate message | ChecksumDigest

definition py_checksum_call :: "checksum_method \<Rightarrow> u64 \<Rightarrow> py_value \<times> u64" where
  "py_checksum_call c h =
     (case c of
        ChecksumUpdate msg \<Rightarrow> (PyNone, checksum_update msg h)
      | ChecksumDigest \<Rightarrow> (PyInt (uint (checksum_digest h)), h))"

datatype injector_method = Inject string string string "fault_spec list"

definition py_injector_call :: "nat \<Rightarrow> injector_method \<Rightarrow> u64 \<Rightarrow> disk \<Rightarrow> py_value \<times> u64 \<times> disk" where
  "py_injector_call bufsz c rng d =
     (case c of
        Inject input_path output_path labels_path specs \<Rightarrow>
          (let (ok, rng, d) = inject_impl bufsz input_path output_path labels_path specs rng d
           in (PyBool ok, rng, d)))"

datatype rules_method = RulesAddRule rule_config | RulesCheck u32 double u64

definition py_rules_call :: "rules_method \<Rightarrow> rule_checker \<Rightarrow> py_value \<times> rule_checker" where
  "py_rules_call c rules =
     (case c of
        RulesAddRule cfg \<Rightarrow> (PyNone, rules_add cfg rules)
      | RulesCheck stream_id value ts_ns \<Rightarrow>
          (let (res, rules) = rules_check stream_id value ts_ns rules in (PyRuleResult res, rules)))"

datatype baseline_method = BaselineUpdate u32 double | BaselineZscore u32 double | BaselineMean u32 | BaselineVariance u32

definition py_baseline_call :: "baseline_method \<Rightarrow> baseline \<Rightarrow> py_value \<times> baseline" where
  "py_baseline_call c b =
     (case c of
        BaselineUpdate stream_id value \<Rightarrow> (PyNone, baseline_update stream_id value b)
      | BaselineZscore stream_id value \<Rightarrow> (PyFloat (baseline_zscore stream_id value b), b)
      | BaselineMean stream_id \<Rightarrow> (PyFloat (baseline_mean stream_id b), b)
      | BaselineVariance stream_id \<Rightarrow> (PyFloat (baseline_variance stream_id b), b))"

datatype cusum_method = CusumUpdateAndCheck u32 double

definition py_cusum_call :: "cusum_method \<Rightarrow> cusum \<Rightarrow> py_value \<times> cusum" where
  "py_cusum_call c s =
     (case c of
        CusumUpdateAndCheck stream_id value \<Rightarrow>
          (let (fired, s) = cusum_update_and_check stream_id value s in (PyBool fired, s)))"

datatype conformal_method = ConformalUpdate u32 double | ConformalThreshold u32 double | ConformalIsAnomalous u32 double double

definition py_conformal_call :: "conformal_method \<Rightarrow> conformal \<Rightarrow> py_value \<times> conformal" where
  "py_conformal_call c t =
     (case c of
        ConformalUpdate stream_id score \<Rightarrow> (PyNone, conf_update stream_id score t)
      | ConformalThreshold stream_id alpha \<Rightarrow> (PyFloat (conf_threshold stream_id alpha t), t)
      | ConformalIsAnomalous stream_id score alpha \<Rightarrow> (PyBool (conf_is_anomalous stream_id score alpha t), t))"

datatype replayer_method = ReplayerIter | ReplayerNext

text \<open>\<open>__iter__\<close> returns the object itself, here its reference.\<close>

definition py_replayer_call :: "nat \<Rightarrow> replayer_method \<Rightarrow> replayer \<Rightarrow> (py_exception + py_value) \<times> replayer" where
  "py_replayer_call self c r =
     (case c of
        ReplayerIter \<Rightarrow> (Inr (PyRef self), r)
      | ReplayerNext \<Rightarrow> (let (res, r) = py_replayer_next r in (map_sum id PyMessage res, r)))"

section \<open>A session\<close>

datatype py_method = RecorderMethod recorder_method | ReplayerMethod replayer_method | ChecksumMethod checksum_method
  | InjectorMethod injector_method | RulesMethod rules_method | BaselineMethod baseline_method
  | CusumMethod cusum_method | ConformalMethod conformal_method

datatype py_call = NewRecorder string | NewReplayer string | NewChecksum | NewInjector u64 | NewRules | NewBaseline double
  | NewCusum double double double "u64 option" | NewConformal nat
  | NewMessage u32 u64 double u64 | NewSpec fault_type u32 u64 u64 double | NewRule u32 double double double
  | ReadLabels string | LoadRuleConfig string | GetAttr py_value string | Call nat py_method
  | Drop nat

definition py_method_call :: "nat \<Rightarrow> nat \<Rightarrow> py_method \<Rightarrow> py_object \<Rightarrow> disk \<Rightarrow> (py_exception + py_value) \<times> py_object \<times> disk" where
  "py_method_call bufsz self c ob d =
     (case (c, ob) of
        (RecorderMethod c, ObjRecorder r) \<Rightarrow> (let (v, r, d) = py_recorder_call c r d in (Inr v, ObjRecorder r, d))
      | (ReplayerMethod c, ObjReplayer r) \<Rightarrow> (let (v, r) = py_replayer_call self c r in (v, ObjReplayer r, d))
      | (ChecksumMethod c, ObjChecksum h) \<Rightarrow> (let (v, h) = py_checksum_call c h in (Inr v, ObjChecksum h, d))
      | (InjectorMethod c, ObjInjector g) \<Rightarrow> (let (v, g, d) = py_injector_call bufsz c g d in (Inr v, ObjInjector g, d))
      | (RulesMethod c, ObjRules s) \<Rightarrow> (let (v, s) = py_rules_call c s in (Inr v, ObjRules s, d))
      | (BaselineMethod c, ObjBaseline s) \<Rightarrow> (let (v, s) = py_baseline_call c s in (Inr v, ObjBaseline s, d))
      | (CusumMethod c, ObjCusum s) \<Rightarrow> (let (v, s) = py_cusum_call c s in (Inr v, ObjCusum s, d))
      | (ConformalMethod c, ObjConformal s) \<Rightarrow> (let (v, s) = py_conformal_call c s in (Inr v, ObjConformal s, d))
      | _ \<Rightarrow> (Inl TypeError, ob, d))"

definition py_new :: "py_object \<Rightarrow> disk \<Rightarrow> py_session \<Rightarrow> (py_exception + py_value) \<times> py_session" where
  "py_new ob d st =
     (Inr (PyRef (length (py_objects st))), \<lparr>py_objects = py_objects st @ [ob], py_disk = d\<rparr>)"

text \<open>The last reference to an object goes: its destructor runs.\<close>

definition py_drop :: "nat \<Rightarrow> py_session \<Rightarrow> py_session" where
  "py_drop n st =
     (if n < length (py_objects st)
      then \<lparr>py_objects = (py_objects st)[n := ObjGone],
        py_disk = (case py_objects st ! n of ObjRecorder r \<Rightarrow> recorder_destroy r (py_disk st) | _ \<Rightarrow> py_disk st)\<rparr>
      else st)"

definition py_exec :: "nat \<Rightarrow> py_call \<Rightarrow> py_session \<Rightarrow> (py_exception + py_value) \<times> py_session" where
  "py_exec bufsz c st =
     (let d = py_disk st
      in case c of
           NewRecorder path \<Rightarrow> (let (r, d) = recorder_open bufsz path d in py_new (ObjRecorder r) d st)
         | NewReplayer path \<Rightarrow> py_new (ObjReplayer (replayer_open path d)) d st
         | NewChecksum \<Rightarrow> py_new (ObjChecksum checksum_init) d st
         | NewInjector seed \<Rightarrow> py_new (ObjInjector seed) d st
         | NewRules \<Rightarrow> py_new (ObjRules rules_init) d st
         | NewBaseline alpha \<Rightarrow> py_new (ObjBaseline (baseline_init alpha)) d st
         | NewCusum alpha k h warmup_n \<Rightarrow>
             py_new (ObjCusum (cusum_init alpha k h (case warmup_n of None \<Rightarrow> 1 | Some n \<Rightarrow> n))) d st
         | NewConformal window_capacity \<Rightarrow> py_new (ObjConformal (conf_init window_capacity)) d st
         | NewMessage stream_id ts_ns value seq \<Rightarrow> (Inr (PyMessage (py_message stream_id ts_ns value seq)), st)
         | NewSpec type stream_id onset_index duration magnitude \<Rightarrow>
             (Inr (PySpec (py_fault_spec type stream_id onset_index duration magnitude)), st)
         | NewRule stream_id lo hi rate \<Rightarrow> (Inr (PyRule (py_rule_config stream_id lo hi rate)), st)
         | ReadLabels path \<Rightarrow> (Inr (PyLabels (read_labels path d)), st)
         | LoadRuleConfig path \<Rightarrow>
             (map_sum RuntimeError PyRule (load_rule_config (map_option (map char_at) (d_files d path))), st)
         | GetAttr v name \<Rightarrow> (py_getattr st v name, st)
         | Call n m \<Rightarrow>
             (if n < length (py_objects st)
              then (let (v, ob, d) = py_method_call bufsz n m (py_objects st ! n) d
                    in (v, \<lparr>py_objects = (py_objects st)[n := ob], py_disk = d\<rparr>))
              else (Inl TypeError, st))
         | Drop n \<Rightarrow> (Inr PyNone, py_drop n st))"

text \<open>A script whose exceptions are caught: the results of its calls, and the session after them.\<close>

fun py_run :: "nat \<Rightarrow> py_call list \<Rightarrow> py_session \<Rightarrow> (py_exception + py_value) list \<times> py_session" where
  "py_run bufsz [] st = ([], st)"
| "py_run bufsz (c # cs) st =
     (let (v, st) = py_exec bufsz c st; (vs, st) = py_run bufsz cs st in (v # vs, st))"

section \<open>An experiment\<close>

lemma py_run_append:
  "py_run b (xs @ ys) st = (let (us, st) = py_run b xs st; (vs, st) = py_run b ys st in (us @ vs, st))"
  by (induction xs arbitrary: st) (auto simp: Let_def split: prod.splits)

lemma length_py_run: "length (fst (py_run b cs st)) = length cs"
  by (induction cs arbitrary: st) (auto simp: Let_def case_prod_unfold)

text \<open>Recording a list of messages, as the tests do: open, write each, close.\<close>

definition py_record :: "nat \<Rightarrow> string \<Rightarrow> message list \<Rightarrow> py_call list" where
  "py_record k path ms = NewRecorder path # map (\<lambda>m. Call k (RecorderMethod (RecorderWrite m))) ms @
     [Call k (RecorderMethod RecorderClose)]"

lemma py_writes:
  "recorder_write_all ms r d = (oks, r', d') \<Longrightarrow>
   py_run b (map (\<lambda>m. Call (length obs) (RecorderMethod (RecorderWrite m))) ms)
     \<lparr>py_objects = obs @ [ObjRecorder r], py_disk = d\<rparr> =
   (map (\<lambda>ok. Inr (PyBool ok)) oks, \<lparr>py_objects = obs @ [ObjRecorder r'], py_disk = d'\<rparr>)"
proof (induction ms arbitrary: r d oks)
  case (Cons m ms)
  obtain ok r1 d1 where w: "recorder_write m r d = (ok, r1, d1)" by (cases "recorder_write m r d")
  obtain oks1 where a: "recorder_write_all ms r1 d1 = (oks1, r', d')" "oks = ok # oks1"
    using Cons.prems by (auto simp: w Let_def split: prod.splits)
  show ?case using Cons.IH [OF a(1)]
    by (simp add: py_exec_def py_method_call_def py_recorder_call_def w a(2))
qed simp

lemma py_record_run:
  assumes "k = length (py_objects st)" "record_session b p ms (py_disk st) = (oks, n, d')"
  obtains r where "py_run b (py_record k p ms) st =
    (Inr (PyRef k) # map (\<lambda>ok. Inr (PyBool ok)) oks @ [Inr PyNone],
     \<lparr>py_objects = py_objects st @ [ObjRecorder r], py_disk = d'\<rparr>)"
proof -
  obtain r0 d0 where o: "recorder_open b p (py_disk st) = (r0, d0)" by force
  obtain oks1 r1 d1 where a: "recorder_write_all ms r0 d0 = (oks1, r1, d1)" by (cases "recorder_write_all ms r0 d0")
  obtain r2 d2 where c: "recorder_close r1 d1 = (r2, d2)" by force
  have eq: "oks = oks1" "d' = d2" using assms(2) by (simp_all add: record_session_def o a c)
  show ?thesis
    by (rule that [of r2])
      (simp add: py_record_def py_run_append py_exec_def py_new_def o assms(1) py_writes [OF a]
        py_method_call_def py_recorder_call_def c eq)
qed

lemma py_nexts:
  "py_iterate r = (ms, r') \<Longrightarrow> n < length obs \<Longrightarrow>
   py_run b (replicate (Suc (length ms)) (Call n (ReplayerMethod ReplayerNext)))
     \<lparr>py_objects = obs[n := ObjReplayer r], py_disk = d\<rparr> =
   (map (\<lambda>m. Inr (PyMessage m)) ms @ [Inl StopIteration], \<lparr>py_objects = obs[n := ObjReplayer r'], py_disk = d\<rparr>)"
proof (induction r arbitrary: ms r' rule: py_iterate.induct)
  case (1 r)
  obtain res r1 where n: "py_replayer_next r = (res, r1)" by force
  show ?case
  proof (cases res)
    case (Inl e)
    then have "e = StopIteration" using n by (auto simp: py_replayer_next_def Let_def split: prod.splits if_splits)
    then show ?thesis using n Inl "1.prems"
      by (simp add: py_iterate.simps [of r] py_exec_def py_method_call_def py_replayer_call_def)
  next
    case (Inr m)
    obtain ms1 r2 where i: "py_iterate r1 = (ms1, r2)" by force
    then have eq: "ms = m # ms1" "r' = r2" using n Inr "1.prems"(1) by (simp_all add: py_iterate.simps [of r])
    show ?thesis using "1.IH" [OF n [symmetric] Inr i "1.prems"(2)] n "1.prems"(2)
      by (simp add: eq Inr py_exec_def py_method_call_def py_replayer_call_def)
  qed
qed

lemma record_session_image:
  assumes "d_creatable d p" "record_session b p ms d = (oks, n, d')" "8 + 64 * length ms \<le> d_room d"
  shows "d_files d' p = Some (file_image ms)"
proof -
  have len: "length (file_image ms) = 8 + 64 * length ms"
    by (simp add: length_file_image kHeaderSize_def kRecordSize_def)
  have "file_bytes p d' = file_image ms" using recorder_image [OF assms(1,2)] assms(3) len by simp
  moreover have "file_image ms \<noteq> []" using len by auto
  ultimately show ?thesis using file_bytes_Some [where p = p] by fastforce
qed

lemma py_iterate_replays: "fst (py_iterate (replayer_open p d)) = fst (replay_all p d)"
  using replay_loop_iterates [OF zero_padded_zero, of "replayer_open p d" "[]"]
  by (simp add: replay_all_def case_prod_unfold Let_def)

text \<open>C8: An experiment through the Python module, end to end. A script records any messages on a device with room
  for them, injects any faults with any seed into the recording, with different paths for the output and the labels, and
  is told that this worked; then, if anything was labelled, opening the output and iterating it gives exactly the faulted
  messages that were not dropped, in order and bit for bit, and then \<open>StopIteration\<close>; \<open>read_labels\<close> gives exactly
  the labels of the injection; and these are the ground truth: a message differs from the recorded one at most in its
  value, and each one that was changed or dropped lies within a label on its own stream.\<close>

theorem python_experiment:
  assumes "k = length (py_objects st)" "d_creatable (py_disk st) p" "8 + 64 * length ms \<le> d_room (py_disk st)"
    "length ms < 2 ^ 64" "out_path \<noteq> labels_path"
    "py_run b (py_record k p ms @ [NewInjector seed, Call (k + 1) (InjectorMethod (Inject p out_path labels_path specs))]) st = (vs, st1)"
    "last vs = Inr (PyBool True)"
    "s = inject_faults specs (map clean_message ms) seed" "in_labels s \<noteq> []"
    "ks = kept (in_msgs s) (in_dropped s)"
  shows "fst (py_run b (NewReplayer out_path # replicate (Suc (length ks)) (Call (k + 2) (ReplayerMethod ReplayerNext)) @
      [ReadLabels labels_path]) st1) =
    Inr (PyRef (k + 2)) # map (\<lambda>m. Inr (PyMessage m)) ks @ [Inl StopIteration, Inr (PyLabels (in_labels s))] \<and>
    (\<forall>i < length ms. same_but_value (clean_message (ms ! i)) (in_msgs s ! i) \<and>
      (in_msgs s ! i \<noteq> clean_message (ms ! i) \<or> in_dropped s ! i \<longrightarrow>
         list_ex (spans (map clean_message ms) i) (in_labels s)))"
proof -
  obtain oks n d1 where rec: "record_session b p ms (py_disk st) = (oks, n, d1)"
    by (cases "record_session b p ms (py_disk st)")
  obtain r where r: "py_run b (py_record k p ms) st =
      (Inr (PyRef k) # map (\<lambda>ok. Inr (PyBool ok)) oks @ [Inr PyNone],
       \<lparr>py_objects = py_objects st @ [ObjRecorder r], py_disk = d1\<rparr>)"
    using py_record_run [OF assms(1) rec] .
  obtain ok rng d2 where j: "inject_impl b p out_path labels_path specs seed d1 = (ok, rng, d2)"
    by (cases "inject_impl b p out_path labels_path specs seed d1")
  define obs where "obs = py_objects st @ [ObjRecorder r, ObjInjector rng]"
  have "py_run b [NewInjector seed, Call (k + 1) (InjectorMethod (Inject p out_path labels_path specs))]
      \<lparr>py_objects = py_objects st @ [ObjRecorder r], py_disk = d1\<rparr> =
    ([Inr (PyRef (k + 1)), Inr (PyBool ok)], \<lparr>py_objects = obs, py_disk = d2\<rparr>)"
    by (simp add: py_exec_def py_new_def assms(1) py_method_call_def py_injector_call_def j obs_def nth_append list_update_append)
  then have run: "ok" "st1 = \<lparr>py_objects = obs, py_disk = d2\<rparr>"
    using assms(6,7) by (auto simp: py_run_append r simp del: py_run.simps)
  have t: "read_labels labels_path d2 = in_labels s" "fst (replay_all out_path d2) = ks"
    using inject_true_is_trustworthy [OF record_session_image [OF assms(2) rec assms(3)] assms(4,5) _ assms(8)] j run(1)
      assms(9) by (auto simp: assms(10))
  obtain r' where it: "py_iterate (replayer_open out_path d2) = (ks, r')"
    using py_iterate_replays [of out_path d2] t(2) by (cases "py_iterate (replayer_open out_path d2)") simp
  let ?new = "obs @ [ObjReplayer (replayer_open out_path d2)]"
  have k: "k + 2 = length obs" by (simp add: obs_def assms(1))
  have "?new[length obs := ObjReplayer (replayer_open out_path d2)] = ?new" by simp
  then have nx: "py_run b (replicate (Suc (length ks)) (Call (length obs) (ReplayerMethod ReplayerNext)))
      \<lparr>py_objects = ?new, py_disk = d2\<rparr> =
    (map (\<lambda>m. Inr (PyMessage m)) ks @ [Inl StopIteration], \<lparr>py_objects = ?new[length obs := ObjReplayer r'], py_disk = d2\<rparr>)"
    using py_nexts [OF it, of "length obs" ?new b d2] by simp
  have "fst (py_run b (NewReplayer out_path # replicate (Suc (length ks)) (Call (k + 2) (ReplayerMethod ReplayerNext)) @
      [ReadLabels labels_path]) st1) =
    Inr (PyRef (k + 2)) # map (\<lambda>m. Inr (PyMessage m)) ks @ [Inl StopIteration, Inr (PyLabels (in_labels s))]"
    unfolding k by (simp add: run(2) py_exec_def py_new_def py_run_append nx t(1) del: replicate_Suc)
  moreover have "inject_ok (map clean_message ms) s"
    using inject_faults_ok [of "map clean_message ms" specs seed] assms(4) by (simp add: assms(8))
  ultimately show ?thesis by (simp add: inject_ok_def)
qed

lemma record_session_device:
  assumes "d_creatable d p" "record_session b p ms d = (oks, n, d')"
  shows "d_room d' = d_room d - length (file_image ms)" "d_creatable d' = d_creatable d"
proof -
  obtain r0 d0 where o: "recorder_open b p d = (r0, d0)" by force
  obtain oks1 r1 d1 where a: "recorder_write_all ms r0 d0 = (oks1, r1, d1)" by (cases "recorder_write_all ms r0 d0")
  obtain r2 d2 where c: "recorder_close r1 d1 = (r2, d2)" by force
  have d': "d' = d2" using assms(2) by (simp add: record_session_def o a c)
  have "recording (d_room d) ms p r1 d1"
    using recording_write_all [OF recording_open(1) [OF assms(1) o] a] by simp
  then show "d_room d' = d_room d - length (file_image ms)" using recording_room [OF _ c] by (simp add: d')
  have "d_creatable (snd (snd (recorder_write_all xs r e))) = d_creatable e" for xs r e
    by (induction xs arbitrary: r e) (simp_all add: case_prod_unfold Let_def)
  from this [of ms r0 d0] show "d_creatable d' = d_creatable d"
    using recorder_creatable_kept(1) [of b p d] recorder_creatable_kept(3) [of r1 d1] by (simp add: d' o a c)
qed

theorem python_experiment_witness:
  "case py_run 16 (py_record 0 ''in'' three_samples @
      [NewInjector 5, Call 1 (InjectorMethod (Inject ''in'' ''out'' ''labels'' [one_dropout]))])
      \<lparr>py_objects = [], py_disk = sample_disk 1000\<rparr> of (vs, st) \<Rightarrow>
     last vs = Inr (PyBool True) \<and>
     last (fst (py_run 16 (NewReplayer ''out'' # replicate 4 (Call 2 (ReplayerMethod ReplayerNext)) @ [ReadLabels ''labels'']) st)) =
       Inr (PyLabels [\<lparr>lb_stream_id = 1, lb_type = KDropout, lb_start_ns = 12, lb_end_ns = 12\<rparr>])"
proof -
  define st where "st = \<lparr>py_objects = [] :: py_object list, py_disk = sample_disk 1000\<rparr>"
  define s where "s = inject_faults [one_dropout] (map clean_message three_samples) 5"
  define script where "script = py_record 0 ''in'' three_samples @
      [NewInjector 5, Call 1 (InjectorMethod (Inject ''in'' ''out'' ''labels'' [one_dropout]))]"
  have st: "0 = length (py_objects st)" "d_creatable (py_disk st) q" "d_room (py_disk st) = 1000" "py_objects st = []" for q
    by (simp_all add: st_def sample_disk_def)
  have s: "length (kept (in_msgs s) (in_dropped s)) = 3"
    "in_labels s = [\<lparr>lb_stream_id = 1, lb_type = KDropout, lb_start_ns = 12, lb_end_ns = 12\<rparr>]"
    by (simp_all add: s_def one_dropout_faults) (simp add: three_samples_def)
  obtain oks n d1 where rec: "record_session 16 ''in'' three_samples (py_disk st) = (oks, n, d1)"
    by (cases "record_session 16 ''in'' three_samples (py_disk st)")
  note dev = record_session_device [OF st(2) rec]
  have img: "d_files d1 ''in'' = Some (file_image three_samples)"
    by (rule record_session_image [OF st(2) rec]) (simp add: st three_length)
  have "length (labels_text (in_labels s)) = 16"
    by (simp add: s labels_text_def label_line_def fault_type_name_def show_int_def show_nat.simps)
  then have ok: "fst (inject_impl 16 ''in'' ''out'' ''labels'' [one_dropout] 5 d1)"
    using inject_succeeds [OF img _ _ s_def, of "''out''" "''labels''" 16] dev st s(1)
    by (simp add: length_file_image kHeaderSize_def kRecordSize_def three_length)
  obtain r where r: "py_run 16 (py_record 0 ''in'' three_samples) st =
      (Inr (PyRef 0) # map (\<lambda>ok. Inr (PyBool ok)) oks @ [Inr PyNone],
       \<lparr>py_objects = py_objects st @ [ObjRecorder r], py_disk = d1\<rparr>)"
    using py_record_run [OF st(1) rec] .
  obtain vs st1 where run: "py_run 16 script st = (vs, st1)" by force
  obtain rng d2 where j: "inject_impl 16 ''in'' ''out'' ''labels'' [one_dropout] 5 d1 = (True, rng, d2)"
    using ok by (cases "inject_impl 16 ''in'' ''out'' ''labels'' [one_dropout] 5 d1") simp
  have "py_run 16 [NewInjector 5, Call 1 (InjectorMethod (Inject ''in'' ''out'' ''labels'' [one_dropout]))]
      \<lparr>py_objects = py_objects st @ [ObjRecorder r], py_disk = d1\<rparr> =
    ([Inr (PyRef 1), Inr (PyBool True)], \<lparr>py_objects = [ObjRecorder r, ObjInjector rng], py_disk = d2\<rparr>)"
    by (simp add: py_exec_def py_new_def st(4) py_method_call_def py_injector_call_def j)
  then have last: "last vs = Inr (PyBool True)"
    using run by (auto simp: script_def py_run_append r simp del: py_run.simps)
  have run': "py_run 16 (py_record 0 ''in'' three_samples @
      [NewInjector 5, Call (0 + 1) (InjectorMethod (Inject ''in'' ''out'' ''labels'' [one_dropout]))]) st = (vs, st1)"
    using run by (simp add: script_def del: py_run.simps)
  have pre: "8 + 64 * length three_samples \<le> d_room (py_disk st)" "length three_samples < 2 ^ 64" "''out'' \<noteq> ''labels''"
    "in_labels s \<noteq> []"
    by (simp_all add: st(3) three_length s(2))
  note e = python_experiment [OF st(1,2) pre(1-3) run' last s_def pre(4) refl, THEN conjunct1]
  have four: "replicate (Suc (length (kept (in_msgs s) (in_dropped s)))) x = replicate 4 x" for x :: py_call
    by (simp add: s(1) eval_nat_numeral)
  have "fst (py_run 16 (NewReplayer ''out'' # replicate 4 (Call 2 (ReplayerMethod ReplayerNext)) @ [ReadLabels ''labels'']) st1) =
      Inr (PyRef 2) # map (\<lambda>m. Inr (PyMessage m)) (kept (in_msgs s) (in_dropped s)) @ [Inl StopIteration, Inr (PyLabels (in_labels s))]"
    using e unfolding four add_0 .
  then show ?thesis using run last s(2) by (simp add: script_def st_def [symmetric])
qed

end
