(* ===== verification/Json_Dom.thy ===== *)
theory Json_Dom
  imports Ieee_Double "HOL-Library.Monad_Syntax"
begin

text \<open>
  The part of the simdjson DOM interface the adapters call, as a record of accessors over a type \<open>'e\<close> of
  elements: a parsed document is an element, and every accessor gives None where simdjson reports an
  error (a missing key, another type, a number out of the type's range). The library is not part of
  the repository, so the adapters take the record as an argument and nothing is assumed of it.
  \<open>int64_t\<close> results are 64-bit patterns.
\<close>

record 'e dom =
  dom_parse :: "string \<Rightarrow> 'e option"
  dom_field :: "'e \<Rightarrow> string \<Rightarrow> 'e option"
  dom_string :: "'e \<Rightarrow> string option"
  dom_uint64 :: "'e \<Rightarrow> u64 option"
  dom_int64 :: "'e \<Rightarrow> u64 option"
  dom_double :: "'e \<Rightarrow> double option"
  dom_array :: "'e \<Rightarrow> 'e list option"

text \<open>\<open>e["key"].get_string()\<close> and its companions: an error of the lookup is passed on.\<close>

definition field_string :: "'e dom \<Rightarrow> 'e \<Rightarrow> string \<Rightarrow> string option" where
  "field_string api e key = Option.bind (dom_field api e key) (dom_string api)"

definition field_uint64 :: "'e dom \<Rightarrow> 'e \<Rightarrow> string \<Rightarrow> u64 option" where
  "field_uint64 api e key = Option.bind (dom_field api e key) (dom_uint64 api)"

definition field_double :: "'e dom \<Rightarrow> 'e \<Rightarrow> string \<Rightarrow> double option" where
  "field_double api e key = Option.bind (dom_field api e key) (dom_double api)"

definition field_array :: "'e dom \<Rightarrow> 'e \<Rightarrow> string \<Rightarrow> 'e list option" where
  "field_array api e key = Option.bind (dom_field api e key) (dom_array api)"

section \<open>An instance for the examples\<close>

text \<open>Documents as values, all of them reached through one text.\<close>

datatype doc = Text string | Uint u64 | Real double | Items "doc list" | Object "(string \<times> doc) list"

definition doc_dom :: "(string \<Rightarrow> doc option) \<Rightarrow> doc dom" where
  "doc_dom texts = \<lparr>
     dom_parse = texts,
     dom_field = (\<lambda>e k. case e of Object kvs \<Rightarrow> map_of kvs k | _ \<Rightarrow> None),
     dom_string = (\<lambda>e. case e of Text s \<Rightarrow> Some s | _ \<Rightarrow> None),
     dom_uint64 = (\<lambda>e. case e of Uint n \<Rightarrow> Some n | _ \<Rightarrow> None),
     dom_int64 = (\<lambda>e. case e of Uint n \<Rightarrow> if unat n < 2 ^ 63 then Some n else None | _ \<Rightarrow> None),
     dom_double = (\<lambda>e. case e of Real d \<Rightarrow> Some d | Uint n \<Rightarrow> Some (d_of_int (uint n)) | _ \<Rightarrow> None),
     dom_array = (\<lambda>e. case e of Items es \<Rightarrow> Some es | _ \<Rightarrow> None)\<rparr>"

end
