(* ===== verification/Sample_Maxima.thy ===== *)
theory Sample_Maxima
  imports Message
begin

text \<open>
  What the polled adapters keep of a series of samples: those later than every sample before them,
  numbered from 1. \<open>emitted_inv\<close> is the state of such a series: the samples seen so far, the messages
  emitted, the last time stamp and the last number.
\<close>

definition new_maxima :: "(u64 \<times> double) list \<Rightarrow> (u64 \<times> double) list" where
  "new_maxima xs = map (nth xs) (filter (\<lambda>k. list_all (\<lambda>x. sint (fst x) < sint (fst (xs ! k))) (take k xs)) [0..<length xs])"

lemma new_maxima_Nil [simp]: "new_maxima [] = []"
  by (simp add: new_maxima_def)

lemma new_maxima_snoc:
  "new_maxima (xs @ [x]) =
     new_maxima xs @ (if list_all (\<lambda>y. sint (fst y) < sint (fst x)) xs then [x] else [])"
proof -
  have "filter (\<lambda>k. list_all (\<lambda>y. sint (fst y) < sint (fst ((xs @ [x]) ! k))) (take k (xs @ [x]))) [0..<length xs] =
      filter (\<lambda>k. list_all (\<lambda>y. sint (fst y) < sint (fst (xs ! k))) (take k xs)) [0..<length xs]"
    by (rule filter_cong) (simp_all add: nth_append)
  moreover have "map (nth (xs @ [x])) (filter P [0..<length xs]) = map (nth xs) (filter P [0..<length xs])" for P
    by (simp add: nth_append)
  ultimately show ?thesis by (simp add: new_maxima_def)
qed

definition emitted_inv :: "(u64 \<times> double) list \<Rightarrow> message list \<Rightarrow> u64 \<Rightarrow> u64 \<Rightarrow> bool" where
  "emitted_inv xs ms last_ts n \<longleftrightarrow>
     map (\<lambda>m. (m_ts_ns m, m_value m)) ms = new_maxima xs \<and>
     map m_seq ms = map (\<lambda>k. of_nat (k + 1)) [0..<length ms] \<and> n = of_nat (length ms) \<and>
     list_ex (\<lambda>x. fst x = last_ts) xs \<and> list_all (\<lambda>x. sint (fst x) \<le> sint last_ts) xs"

lemma emitted_first:
  "m_ts_ns m = t \<Longrightarrow> m_value m = v \<Longrightarrow> m_seq m = 1 \<Longrightarrow> emitted_inv [(t, v)] [m] t 1"
  using new_maxima_snoc [of "[]" "(t, v)"] by (simp add: emitted_inv_def)

lemma emitted_old:
  "emitted_inv xs ms l n \<Longrightarrow> sint t \<le> sint l \<Longrightarrow> emitted_inv (xs @ [(t, v)]) ms l n"
proof -
  assume e: "emitted_inv xs ms l n" and le: "sint t \<le> sint l"
  obtain x where "x \<in> set xs" "fst x = l" using e by (auto simp: emitted_inv_def list_ex_iff)
  then have "\<not> list_all (\<lambda>y. sint (fst y) < sint t) xs" using le by (auto simp: list_all_iff not_less)
  then show ?thesis using e le by (simp add: emitted_inv_def new_maxima_snoc)
qed

lemma emitted_new:
  "emitted_inv xs ms l n \<Longrightarrow> \<not> sint t \<le> sint l \<Longrightarrow> m_ts_ns m = t \<Longrightarrow> m_value m = v \<Longrightarrow> m_seq m = n + 1 \<Longrightarrow>
    emitted_inv (xs @ [(t, v)]) (ms @ [m]) t (n + 1)"
  by (force simp: emitted_inv_def new_maxima_snoc list_all_iff)

end
