(* ===== verification/Gridradar.thy ===== *)
theory Gridradar
  imports Rfc3339 Json_Dom Sample_Maxima
begin

text \<open>
  The grid-frequency adapter, \<open>include/feed/gridradar.hpp\<close>: \<open>GridradarHandler::parse_response\<close>, which turns a
  polled response into many messages, and the copies of the time stamp helpers in \<open>gridradar_detail\<close>.
  The copies are modelled with the index into the string the code moves along, and are proved equal
  to the ones of \<open>Rfc3339\<close>. \<open>emit\<close> is the list of messages, the gap callback a log in the state.
\<close>

section \<open>The time stamp helpers\<close>

fun grid_digits_loop :: "string \<Rightarrow> nat \<Rightarrow> nat \<Rightarrow> int \<Rightarrow> int option" where
  "grid_digits_loop s i 0 v = Some v"
| "grid_digits_loop s i (Suc left) v =
     (let c = s ! i
      in if \<not> is_digit c then None else grid_digits_loop s (i + 1) left (v * 10 + digit_value c))"

definition grid_read_uint :: "string \<Rightarrow> nat \<Rightarrow> nat \<Rightarrow> (int \<times> nat) option" where
  "grid_read_uint s i count =
     (if i + count > length s then None
      else map_option (\<lambda>v. (v, i + count)) (grid_digits_loop s i count 0))"

text \<open>\<open>i >= s.size() || s[i++] != c\<close>.\<close>

definition grid_expect :: "string \<Rightarrow> nat \<Rightarrow> string \<Rightarrow> nat option" where
  "grid_expect s i cs = (if i \<ge> length s \<or> s ! i \<notin> set cs then None else Some (i + 1))"

function grid_frac_loop :: "string \<Rightarrow> nat \<Rightarrow> nat \<Rightarrow> int \<Rightarrow> nat \<times> int" where
  "grid_frac_loop s i digits frac =
     (if i < length s \<and> is_digit (s ! i) \<and> digits < 9
      then grid_frac_loop s (i + 1) (digits + 1) (frac * 10 + digit_value (s ! i))
      else (digits, frac))"
  by pat_completeness auto
termination by (relation "measure (\<lambda>(s, i, _). length s - i)") auto

declare grid_frac_loop.simps [simp del]

fun grid_scale_loop :: "nat \<Rightarrow> int \<Rightarrow> int" where
  "grid_scale_loop 0 frac = frac"
| "grid_scale_loop (Suc left) frac = grid_scale_loop left (frac * 10)"

definition grid_fraction :: "string \<Rightarrow> nat \<Rightarrow> int" where
  "grid_fraction s i =
     (if i < length s \<and> s ! i = CHR ''.''
      then (let (digits, frac) = grid_frac_loop s (i + 1) 0 0 in grid_scale_loop (9 - digits) frac)
      else 0)"

definition grid_days_from_civil :: "int \<Rightarrow> u32 \<Rightarrow> u32 \<Rightarrow> int" where
  "grid_days_from_civil y m d =
     (let y = (if m \<le> 2 then y - 1 else y);
          era = (if y \<ge> 0 then y else y - 399) sdiv 400;
          yoe = (word_of_int (y - era * 400) :: u32);
          doy = (153 * (m + (if m > 2 then - 3 else 9)) + 2) div 5 + d - 1;
          doe = yoe * 365 + yoe div 4 - yoe div 100 + doy
      in era * 146097 + uint doe - 719468)"

definition grid_parse_rfc3339_ns :: "string \<Rightarrow> u64 option" where
  "grid_parse_rfc3339_ns s =
     do { (year, i) \<leftarrow> grid_read_uint s 0 4;
          i \<leftarrow> grid_expect s i ''-'';
          (mon, i) \<leftarrow> grid_read_uint s i 2;
          i \<leftarrow> grid_expect s i ''-'';
          (day, i) \<leftarrow> grid_read_uint s i 2;
          i \<leftarrow> grid_expect s i ''Tt '';
          (hour, i) \<leftarrow> grid_read_uint s i 2;
          i \<leftarrow> grid_expect s i '':'';
          (minute, i) \<leftarrow> grid_read_uint s i 2;
          i \<leftarrow> grid_expect s i '':'';
          (sec, i) \<leftarrow> grid_read_uint s i 2;
          if mon < 1 \<or> mon > 12 \<or> day < 1 \<or> day > 31 then None
          else (let days = grid_days_from_civil year (word_of_int mon) (word_of_int day);
                    secs = days * 86400 + hour * 3600 + minute * 60 + sec
                in Some (word_of_int (secs * 1000000000 + grid_fraction s i))) }"

lemma grid_digits_loop_eq:
  "i + n \<le> length s \<Longrightarrow> grid_digits_loop s i n v =
     (if list_all is_digit (take n (drop i s)) then Some (digits_value v (take n (drop i s))) else None)"
proof (induction n arbitrary: i v)
  case 0
  then show ?case by (simp add: digits_value_def)
next
  case (Suc n)
  then have "drop i s = s ! i # drop (Suc i) s" by (simp add: Cons_nth_drop_Suc)
  then show ?case using Suc.IH [of "Suc i"] Suc.prems by (simp add: digits_value_def Let_def)
qed

lemma grid_read_uint_eq:
  "i \<le> length s \<Longrightarrow>
     grid_read_uint s i n = map_option (\<lambda>(v, _). (v, i + n)) (read_uint n (drop i s)) \<and>
     (\<forall>v r. read_uint n (drop i s) = Some (v, r) \<longrightarrow> r = drop (i + n) s \<and> i + n \<le> length s)"
  using grid_digits_loop_eq [of i n s 0]
  by (auto simp: grid_read_uint_def read_uint_def add.commute split: if_splits)

lemma grid_expect_eq:
  "i \<le> length s \<Longrightarrow> grid_expect s i cs = map_option (\<lambda>_. i + 1) (expect cs (drop i s)) \<and>
     (\<forall>r. expect cs (drop i s) = Some r \<longrightarrow> r = drop (i + 1) s \<and> i + 1 \<le> length s)"
proof (cases "i < length s")
  case True
  then have "drop i s = s ! i # drop (Suc i) s" by (simp add: Cons_nth_drop_Suc)
  then show ?thesis using True by (auto simp: grid_expect_def expect_def)
qed (simp add: grid_expect_def expect_def)

lemma grid_frac_loop_eq: "grid_frac_loop s i digits frac = snd (frac_loop (drop i s) digits frac)"
proof (induction s i digits frac rule: grid_frac_loop.induct)
  case (1 s i digits frac)
  show ?case
  proof (cases "i < length s")
    case True
    then have "drop i s = s ! i # drop (Suc i) s" by (simp add: Cons_nth_drop_Suc)
    then show ?thesis using 1 True by (simp add: grid_frac_loop.simps [of s i])
  qed (simp add: grid_frac_loop.simps [of s i])
qed

lemma grid_scale_loop_eq: "grid_scale_loop n frac = frac * 10 ^ n"
  by (induction n arbitrary: frac) simp_all

lemma grid_fraction_eq: "grid_fraction s i = parse_fraction (drop i s)"
proof (cases "i < length s")
  case True
  then have "drop i s = s ! i # drop (Suc i) s" by (simp add: Cons_nth_drop_Suc)
  then show ?thesis using True
    by (simp add: grid_fraction_def parse_fraction_def grid_frac_loop_eq grid_scale_loop_eq split: prod.split)
qed (simp add: grid_fraction_def parse_fraction_def)

lemma grid_days_eq: "grid_days_from_civil = days_from_civil"
  by (intro ext) (simp add: grid_days_from_civil_def days_from_civil_def Let_def)

lemma grid_read_bind:
  assumes "i \<le> length s" "\<And>v. i + n \<le> length s \<Longrightarrow> F v (i + n) = G v (drop (i + n) s)"
  shows "Option.bind (grid_read_uint s i n) (\<lambda>(v, i). F v i) = Option.bind (read_uint n (drop i s)) (\<lambda>(v, r). G v r)"
  using grid_read_uint_eq [OF assms(1), of n] assms(2) by (cases "read_uint n (drop i s)") auto

lemma grid_expect_bind:
  assumes "i \<le> length s" "i + 1 \<le> length s \<Longrightarrow> F (i + 1) = G (drop (i + 1) s)"
  shows "Option.bind (grid_expect s i cs) F = Option.bind (expect cs (drop i s)) G"
  using grid_expect_eq [OF assms(1), of cs] assms(2) by (cases "expect cs (drop i s)") auto

lemma grid_rfc3339:
  "grid_parse_rfc3339_ns s = parse_rfc3339_ns s \<and> grid_days_from_civil = days_from_civil"
proof -
  have "grid_parse_rfc3339_ns s = parse_rfc3339_ns (drop 0 s)"
    unfolding grid_parse_rfc3339_ns_def parse_rfc3339_ns_def
    by (intro grid_read_bind grid_expect_bind)
      (simp_all add: grid_fraction_eq grid_days_eq epoch_seconds_def Let_def)
  then show ?thesis by (simp add: grid_days_eq)
qed

text \<open>C30: The copy of the time stamp parser that walks an index along the string computes, on every string
  whatever, what the Coinbase adapter's parser computes, failures included; so do the two calendar
  functions.\<close>

theorem grid_rfc3339_equivalent:
  "grid_parse_rfc3339_ns s = parse_rfc3339_ns s \<and> grid_days_from_civil = days_from_civil"
  by (rule grid_rfc3339)

section \<open>The handler\<close>

record gridradar =
  gr_stream_id :: u32
  gr_has_on_gap :: bool
  gr_seq :: u64
  gr_last_ts_ns :: u64
  gr_has_last :: bool
  gr_gaps :: "(u32 \<times> u64 \<times> u64) list"

definition grid_init :: "u32 \<Rightarrow> bool \<Rightarrow> gridradar" where
  "grid_init stream_id has_on_gap = \<lparr>gr_stream_id = stream_id, gr_has_on_gap = has_on_gap, gr_seq = 0,
     gr_last_ts_ns = 0, gr_has_last = False, gr_gaps = []\<rparr>"

definition kCadenceNs :: int where
  "kCadenceNs = 1000000000"

text \<open>The first half of the loop body: the fields of a sample, or None for \<open>continue\<close>.\<close>

definition grid_sample :: "'e dom \<Rightarrow> 'e \<Rightarrow> (u64 \<times> double) option" where
  "grid_sample api sample =
     (case field_string api sample ''ts'' of
        None \<Rightarrow> None
      | Some ts_sv \<Rightarrow>
     (case field_double api sample ''value'' of
        None \<Rightarrow> None
      | Some value \<Rightarrow>
     (case grid_parse_rfc3339_ns ts_sv of
        None \<Rightarrow> None
      | Some ts_ns \<Rightarrow> Some (ts_ns, value))))"

text \<open>The second half. The 32 bytes of \<open>_pad1\<close> are not initialised by the code: \<open>junk\<close>.\<close>

definition grid_accept :: "u8 list \<Rightarrow> u64 \<times> double \<Rightarrow> gridradar \<Rightarrow> message option \<times> gridradar" where
  "grid_accept junk sample h =
     (case sample of (ts_ns, value) \<Rightarrow>
        if gr_has_last h \<and> sint ts_ns \<le> sint (gr_last_ts_ns h) then (None, h)
        else (let h = (if gr_has_last h \<and> gr_has_on_gap h \<and> sint (ts_ns - gr_last_ts_ns h) > kCadenceNs
                       then h\<lparr>gr_gaps := gr_gaps h @ [(gr_stream_id h, gr_last_ts_ns h, ts_ns)]\<rparr> else h);
                  h = h\<lparr>gr_seq := gr_seq h + 1\<rparr>;
                  m = \<lparr>m_stream_id = gr_stream_id h, m_pad0 = 0, m_ts_ns = ts_ns, m_value = value,
                       m_seq = gr_seq h, m_pad1 = junk\<rparr>
              in (Some m, h\<lparr>gr_last_ts_ns := ts_ns, gr_has_last := True\<rparr>)))"

fun grid_loop :: "'e dom \<Rightarrow> u8 list \<Rightarrow> 'e list \<Rightarrow> gridradar \<Rightarrow> message list \<times> gridradar" where
  "grid_loop api junk [] h = ([], h)"
| "grid_loop api junk (e # es) h =
     (case grid_sample api e of
        None \<Rightarrow> grid_loop api junk es h
      | Some sample \<Rightarrow>
          (let (out, h) = grid_accept junk sample h; (ms, h) = grid_loop api junk es h
           in (case out of None \<Rightarrow> ms | Some m \<Rightarrow> m # ms, h)))"

definition grid_parse_response :: "'e dom \<Rightarrow> u8 list \<Rightarrow> string \<Rightarrow> gridradar \<Rightarrow> message list \<times> gridradar" where
  "grid_parse_response api junk raw h =
     (case dom_parse api raw of
        None \<Rightarrow> ([], h)
      | Some doc \<Rightarrow>
     (case field_array api doc ''data'' of
        None \<Rightarrow> ([], h)
      | Some data \<Rightarrow> grid_loop api junk data h))"

text \<open>A sequence of polls.\<close>

fun grid_polls :: "'e dom \<Rightarrow> u8 list \<Rightarrow> string list \<Rightarrow> gridradar \<Rightarrow> message list \<times> gridradar" where
  "grid_polls api junk [] h = ([], h)"
| "grid_polls api junk (raw # raws) h =
     (let (ms, h) = grid_parse_response api junk raw h; (ms', h) = grid_polls api junk raws h
      in (ms @ ms', h))"

section \<open>What the polls mean\<close>

text \<open>The readable samples of a response.\<close>

definition grid_readable :: "'e dom \<Rightarrow> string \<Rightarrow> (u64 \<times> double) list" where
  "grid_readable api raw =
     (case Option.bind (dom_parse api raw) (\<lambda>doc. field_array api doc ''data'') of
        None \<Rightarrow> []
      | Some data \<Rightarrow> List.map_filter (grid_sample api) data)"

fun neighbours :: "'a list \<Rightarrow> ('a \<times> 'a) list" where
  "neighbours (x # y # xs) = (x, y) # neighbours (y # xs)"
| "neighbours _ = []"

lemma neighbours_snoc: "neighbours (xs @ [x]) = neighbours xs @ (if xs = [] then [] else [(last xs, x)])"
  by (induction xs rule: neighbours.induct) simp_all

definition grid_gaps_of :: "u32 \<Rightarrow> u64 list \<Rightarrow> (u32 \<times> u64 \<times> u64) list" where
  "grid_gaps_of i ts = map (Pair i) (filter (\<lambda>(a, b). sint b - sint a > kCadenceNs) (neighbours ts))"

fun grid_accepts :: "u8 list \<Rightarrow> (u64 \<times> double) list \<Rightarrow> gridradar \<Rightarrow> message list \<times> gridradar" where
  "grid_accepts junk [] h = ([], h)"
| "grid_accepts junk (x # xs) h =
     (let (out, h) = grid_accept junk x h; (ms, h) = grid_accepts junk xs h
      in (case out of None \<Rightarrow> ms | Some m \<Rightarrow> m # ms, h))"

lemma grid_accepts_append:
  "grid_accepts junk (xs @ ys) h =
     (let (ms, h) = grid_accepts junk xs h; (ms', h) = grid_accepts junk ys h in (ms @ ms', h))"
  by (induction xs arbitrary: h) (simp_all add: Let_def split: prod.split option.split)

lemma grid_loop_accepts: "grid_loop api junk es h = grid_accepts junk (List.map_filter (grid_sample api) es) h"
  by (induction es arbitrary: h) (simp_all add: map_filter_simps split: option.split)

lemma grid_polls_accepts:
  "grid_polls api junk raws h = grid_accepts junk (concat (map (grid_readable api) raws)) h"
proof (induction raws arbitrary: h)
  case (Cons raw raws)
  have "grid_parse_response api junk raw h = grid_accepts junk (grid_readable api raw) h"
    by (simp add: grid_parse_response_def grid_readable_def grid_loop_accepts split: option.split)
  then show ?case using Cons.IH by (simp add: grid_accepts_append)
qed simp

text \<open>The invariant after the readable samples \<open>xs\<close>.\<close>

definition grid_inv :: "u32 \<Rightarrow> bool \<Rightarrow> (u64 \<times> double) list \<Rightarrow> message list \<Rightarrow> gridradar \<Rightarrow> bool" where
  "grid_inv i on xs ms h \<longleftrightarrow>
     map (\<lambda>m. (m_ts_ns m, m_value m)) ms = new_maxima xs \<and> map m_stream_id ms = replicate (length ms) i \<and>
     map m_seq ms = map (\<lambda>k. of_nat (k + 1)) [0..<length ms] \<and>
     gr_stream_id h = i \<and> gr_has_on_gap h = on \<and> gr_seq h = of_nat (length ms) \<and>
     gr_has_last h = (xs \<noteq> []) \<and>
     (xs \<noteq> [] \<longrightarrow> ms \<noteq> [] \<and> gr_last_ts_ns h = m_ts_ns (last ms) \<and> 0 \<le> sint (gr_last_ts_ns h) \<and>
        list_ex (\<lambda>x. fst x = gr_last_ts_ns h) xs \<and>
        (\<forall>x \<in> set xs. sint (fst x) \<le> sint (gr_last_ts_ns h))) \<and>
     gr_gaps h = (if on then grid_gaps_of i (map m_ts_ns ms) else [])"

lemma sint_diff_exact:
  fixes a b :: u64
  assumes "0 \<le> sint a" "sint a < sint b"
  shows "sint (b - a) = sint b - sint a"
proof -
  have "sint b < 2 ^ 63" using sint_lt [of b] by simp
  then have "signed_take_bit 63 (sint b - sint a) = sint b - sint a"
    using assms by (intro signed_take_bit_int_eq_self) simp_all
  moreover have "sint (b - a) = signed_take_bit 63 (sint b - sint a)"
    using sint_word_ariths(2) [of b a] by simp
  ultimately show ?thesis by simp
qed

lemma grid_accept_inv:
  assumes "grid_inv i on xs ms h" "list_all (\<lambda>x. 0 \<le> sint (fst x)) (xs @ [x])"
    "grid_accept junk x h = (out, h')"
  shows "grid_inv i on (xs @ [x]) (ms @ (case out of None \<Rightarrow> [] | Some m \<Rightarrow> [m])) h'"
proof -
  obtain t v where x: "x = (t, v)" by force
  have new: "list_all (\<lambda>y. sint (fst y) < sint t) xs \<longleftrightarrow> \<not> (gr_has_last h \<and> sint t \<le> sint (gr_last_ts_ns h))"
    using assms(1) by (fastforce simp: grid_inv_def list_all_iff list_ex_iff)
  show ?thesis
  proof (cases "gr_has_last h \<and> sint t \<le> sint (gr_last_ts_ns h)")
    case True
    then have "out = None" "h' = h" using assms(3) by (auto simp: grid_accept_def x)
    then show ?thesis using True assms(1) new by (auto simp: grid_inv_def new_maxima_snoc x)
  next
    case False
    define late where "late \<longleftrightarrow> gr_has_last h \<and> on \<and> sint t - sint (gr_last_ts_ns h) > kCadenceNs"
    have diff: "gr_has_last h \<Longrightarrow> sint (t - gr_last_ts_ns h) = sint t - sint (gr_last_ts_ns h)"
      using False assms(1,2) by (intro sint_diff_exact) (auto simp: grid_inv_def list_all_iff)
    have on: "gr_has_on_gap h = on" "gr_stream_id h = i" using assms(1) by (simp_all add: grid_inv_def)
    have out: "out = Some \<lparr>m_stream_id = i, m_pad0 = 0, m_ts_ns = t, m_value = v, m_seq = gr_seq h + 1, m_pad1 = junk\<rparr>"
      "h' = h\<lparr>gr_gaps := gr_gaps h @ (if late then [(i, gr_last_ts_ns h, t)] else []), gr_seq := gr_seq h + 1,
         gr_last_ts_ns := t, gr_has_last := True\<rparr>"
      using False assms(3) on diff by (auto simp: grid_accept_def x Let_def late_def)
    have gaps: "gr_gaps h @ (if late then [(i, gr_last_ts_ns h, t)] else []) =
        (if on then grid_gaps_of i (map m_ts_ns ms @ [t]) else [])"
    proof (cases "xs = []")
      case True
      then have "ms = []" using assms(1) by (simp add: grid_inv_def)
      then show ?thesis using assms(1) True by (auto simp: grid_inv_def late_def grid_gaps_of_def)
    next
      case False
      then show ?thesis using assms(1)
        by (auto simp: grid_inv_def late_def grid_gaps_of_def neighbours_snoc last_map)
    qed
    have "list_all (\<lambda>y. sint (fst y) < sint t) xs" "0 \<le> sint t" using new False assms(2) by (simp_all add: x)
    then show ?thesis
      using assms(1) gaps unfolding out grid_inv_def
      by (auto simp: new_maxima_snoc x list_all_iff replicate_append_same less_imp_le)
  qed
qed

lemma grid_accepts_inv:
  "grid_inv i on xs ms h \<Longrightarrow> list_all (\<lambda>x. 0 \<le> sint (fst x)) (xs @ ys) \<Longrightarrow>
     grid_accepts junk ys h = (ms', h') \<Longrightarrow> grid_inv i on (xs @ ys) (ms @ ms') h'"
proof (induction ys arbitrary: xs ms h ms')
  case (Cons y ys)
  obtain out h1 where a: "grid_accept junk y h = (out, h1)" by force
  obtain ms1 where r: "grid_accepts junk ys h1 = (ms1, h')"
    using Cons.prems(3) by (auto simp: a Let_def split: prod.splits)
  have ms': "ms' = (case out of None \<Rightarrow> [] | Some m \<Rightarrow> [m]) @ ms1"
    using Cons.prems(3) by (auto simp: a r split: option.splits)
  have "grid_inv i on (xs @ [y]) (ms @ (case out of None \<Rightarrow> [] | Some m \<Rightarrow> [m])) h1"
    using Cons.prems(1) _ a by (rule grid_accept_inv) (use Cons.prems(2) in simp)
  then show ?case using Cons.IH [OF _ _ r] Cons.prems(2) ms' by fastforce
qed simp

text \<open>C19: Over any sequence of polls, malformed ones and overlapping ones included, the samples a new
  handler emits are the readable samples that are later than every readable sample before them, each
  once and in order, with consecutive sequence numbers from 1 on the handler's stream; and the gap callback
  has been called exactly for the neighbouring emitted samples more than a second apart (for time
  stamps from 1970 on, where the 64-bit difference cannot overflow).\<close>

theorem grid_emits_new_maxima:
  assumes "samples = concat (map (grid_readable api) raws)" "list_all (\<lambda>x. 0 \<le> sint (fst x)) samples"
    "grid_polls api junk raws (grid_init i on) = (ms, h)"
  shows "map (\<lambda>m. (m_ts_ns m, m_value m)) ms = new_maxima samples \<and>
    map m_seq ms = map (\<lambda>k. of_nat (k + 1)) [0..<length ms] \<and> list_all (\<lambda>m. m_stream_id m = i) ms \<and>
    gr_gaps h = (if on then grid_gaps_of i (map m_ts_ns ms) else [])"
proof -
  have "grid_inv i on [] [] (grid_init i on)" by (simp add: grid_inv_def grid_init_def grid_gaps_of_def)
  then have "grid_inv i on samples ms h"
    using grid_accepts_inv [of i on "[]" "[]" "grid_init i on" samples junk ms h] assms
    by (simp add: grid_polls_accepts)
  moreover have "list_all (\<lambda>m. m_stream_id m = i) ms" if "map m_stream_id ms = replicate (length ms) i"
    using that by (induction ms) simp_all
  ultimately show ?thesis by (simp add: grid_inv_def)
qed

text \<open>Two overlapping polls with a broken one between them.\<close>

definition grid_doc :: "string \<Rightarrow> u64 \<Rightarrow> doc" where
  "grid_doc ts v = Object [(''ts'', Text ts), (''value'', Real v)]"

definition grid_dom :: "doc dom" where
  "grid_dom = doc_dom (map_of [
     (''a'', Object [(''data'', Items [grid_doc (print_timestamp 1970 1 1 0 0 1 0 0) 5, Text ''noise''])]),
     (''b'', Object [(''data'', Items [grid_doc (print_timestamp 1970 1 1 0 0 1 0 0) 6, grid_doc (print_timestamp 1970 1 1 0 0 4 0 0) 7])])])"

lemma epoch_day: "day_number (1970, Suc 0, Suc 0) = 0"
  by (simp add: day_number_def days_from_civil_def Let_def signed_divide_int_def)

lemma grid_example: "concat (map (grid_readable grid_dom) [''a'', ''broken'', ''b'']) =
    [(1000000000, 5), (1000000000, 6), (4000000000, 7)]"
  by (simp add: grid_readable_def grid_dom_def doc_dom_def grid_doc_def field_array_def field_string_def
      field_double_def grid_sample_def map_filter_simps grid_rfc3339 rfc3339_print epoch_day)

theorem grid_emits_new_maxima_witness:
  "case grid_polls grid_dom [] [''a'', ''broken'', ''b''] (grid_init 7 True) of (ms, h) \<Rightarrow>
     map (\<lambda>m. (m_ts_ns m, m_value m)) ms = [(1000000000, 5), (4000000000, 7)] \<and>
     gr_gaps h = [(7, 1000000000, 4000000000)]"
proof -
  obtain ms h where p: "grid_polls grid_dom [] [''a'', ''broken'', ''b''] (grid_init 7 True) = (ms, h)" by force
  have "list_all (\<lambda>x. 0 \<le> sint (fst x)) [(1000000000 :: u64, 5 :: double), (1000000000, 6), (4000000000, 7)]"
    by simp
  note t = grid_emits_new_maxima [OF grid_example [symmetric] this p]
  have "new_maxima [(1000000000, 5), (1000000000, 6), (4000000000, 7)] = [(1000000000, 5), (4000000000, 7)]"
    by (simp add: new_maxima_def upt_rec)
  then have ms: "map (\<lambda>m. (m_ts_ns m, m_value m)) ms = [(1000000000, 5), (4000000000, 7)]" using t by simp
  then have "map m_ts_ns ms = [1000000000, 4000000000]" by auto
  then have "gr_gaps h = [(7, 1000000000, 4000000000)]"
    using t by (simp add: grid_gaps_of_def kCadenceNs_def)
  then show ?thesis using ms unfolding p by simp
qed

end
