(* ===== verification/Adsb.thy ===== *)
theory Adsb
  imports Sample_Maxima Json_Dom "HOL-Library.AList"
begin

text \<open>
  The ADS-B adapter, \<open>include/feed/adsb.hpp\<close>: \<open>AdsbHandler::parse_response\<close> over a polled snapshot, the
  number readers, and \<open>accept\<close>, which keeps a bounded registry of aircraft. \<open>std::unordered_map\<close> is an
  association list in insertion order, of which the code only uses lookup, insertion and the size.
  The 64-bit arithmetic on times wraps here; in C++ its overflow is undefined.
\<close>

datatype adsb_metric = KAltBaro | KGroundSpeed

definition adsb_read_number :: "'e dom \<Rightarrow> 'e \<Rightarrow> double option" where
  "adsb_read_number api e =
     (case dom_double api e of
        Some d \<Rightarrow> Some d
      | None \<Rightarrow>
     (case dom_int64 api e of
        Some i \<Rightarrow> Some (d_of_int (sint i))
      | None \<Rightarrow>
     (case dom_uint64 api e of
        Some u \<Rightarrow> Some (d_of_int (uint u))
      | None \<Rightarrow> None)))"

text \<open>The overload over a field lookup.\<close>

definition adsb_field_number :: "'e dom \<Rightarrow> 'e \<Rightarrow> string \<Rightarrow> double option" where
  "adsb_field_number api e key =
     (case dom_field api e key of None \<Rightarrow> None | Some f \<Rightarrow> adsb_read_number api f)"

definition adsb_read_int64 :: "'e dom \<Rightarrow> 'e \<Rightarrow> string \<Rightarrow> u64 option" where
  "adsb_read_int64 api e key =
     (case dom_field api e key of
        None \<Rightarrow> None
      | Some f \<Rightarrow>
     (case dom_int64 api f of
        Some i \<Rightarrow> Some i
      | None \<Rightarrow>
     (case dom_uint64 api f of Some u \<Rightarrow> Some u | None \<Rightarrow> None)))"

definition adsb_read_value :: "'e dom \<Rightarrow> adsb_metric \<Rightarrow> 'e \<Rightarrow> double option" where
  "adsb_read_value api metric aircraft =
     (if metric = KGroundSpeed then adsb_field_number api aircraft ''gs''
      else (case dom_field api aircraft ''alt_baro'' of
              None \<Rightarrow> None
            | Some alt \<Rightarrow>
           (case dom_string api alt of
              Some s \<Rightarrow> if s = ''ground'' then Some 0 else None
            | None \<Rightarrow> adsb_read_number api alt)))"

definition adsb_ts_ns :: "u64 \<Rightarrow> double \<Rightarrow> u64" where
  "adsb_ts_ns now_ms seen = now_ms * 1000000 - d_to_int64 (d_mul seen d_1e9)"

text \<open>The first half of \<open>accept\<close>: hex code, time stamp and value, or None where it returns false.\<close>

definition adsb_reading :: "'e dom \<Rightarrow> adsb_metric \<Rightarrow> u64 \<Rightarrow> 'e \<Rightarrow> (string \<times> u64 \<times> double) option" where
  "adsb_reading api metric now_ms aircraft =
     (case field_string api aircraft ''hex'' of
        None \<Rightarrow> None
      | Some hex \<Rightarrow>
     (case (adsb_field_number api aircraft ''lat'', adsb_field_number api aircraft ''lon'') of
        (Some _, Some _) \<Rightarrow>
     (case adsb_field_number api aircraft ''seen'' of
        None \<Rightarrow> None
      | Some seen \<Rightarrow>
     (case adsb_read_value api metric aircraft of
        None \<Rightarrow> None
      | Some value \<Rightarrow> Some (hex, adsb_ts_ns now_ms seen, value)))
      | _ \<Rightarrow> None))"

record adsb_stream =
  as_stream_id :: u32
  as_last_ts_ns :: u64
  as_seq :: u64

record adsb =
  ad_base_stream_id :: u32
  ad_max_streams :: nat
  ad_metric :: adsb_metric
  ad_streams :: "(string \<times> adsb_stream) list"

definition adsb_init :: "u32 \<Rightarrow> nat \<Rightarrow> adsb_metric \<Rightarrow> adsb" where
  "adsb_init base max_streams metric =
     \<lparr>ad_base_stream_id = base, ad_max_streams = max_streams, ad_metric = metric, ad_streams = []\<rparr>"

text \<open>The end of \<open>accept\<close>, for the stream's entry \<open>st\<close>.\<close>

definition adsb_emit :: "string \<Rightarrow> u64 \<Rightarrow> double \<Rightarrow> adsb_stream \<Rightarrow> adsb \<Rightarrow> message option \<times> adsb" where
  "adsb_emit hex ts_ns value st h =
     (let st = st\<lparr>as_seq := as_seq st + 1\<rparr>;
          m = zero_message\<lparr>m_stream_id := as_stream_id st, m_ts_ns := ts_ns, m_value := value,
                m_seq := as_seq st\<rparr>
      in (Some m, h\<lparr>ad_streams := AList.update hex st (ad_streams h)\<rparr>))"

definition adsb_track :: "string \<times> u64 \<times> double \<Rightarrow> adsb \<Rightarrow> message option \<times> adsb" where
  "adsb_track reading h =
     (case reading of (hex, ts_ns, value) \<Rightarrow>
     (case map_of (ad_streams h) hex of
        None \<Rightarrow>
          if length (ad_streams h) \<ge> ad_max_streams h then (None, h)
          else (let stream_id = ad_base_stream_id h + of_nat (length (ad_streams h))
                in adsb_emit hex ts_ns value
                     \<lparr>as_stream_id = stream_id, as_last_ts_ns = ts_ns, as_seq = 0\<rparr> h)
      | Some st \<Rightarrow>
          if sint ts_ns \<le> sint (as_last_ts_ns st) then (None, h)
          else adsb_emit hex ts_ns value (st\<lparr>as_last_ts_ns := ts_ns\<rparr>) h))"

definition adsb_accept :: "'e dom \<Rightarrow> u64 \<Rightarrow> 'e \<Rightarrow> adsb \<Rightarrow> message option \<times> adsb" where
  "adsb_accept api now_ms aircraft h =
     (case adsb_reading api (ad_metric h) now_ms aircraft of
        None \<Rightarrow> (None, h)
      | Some reading \<Rightarrow> adsb_track reading h)"

fun adsb_loop :: "'e dom \<Rightarrow> u64 \<Rightarrow> 'e list \<Rightarrow> adsb \<Rightarrow> message list \<times> adsb" where
  "adsb_loop api now_ms [] h = ([], h)"
| "adsb_loop api now_ms (e # es) h =
     (let (out, h) = adsb_accept api now_ms e h; (ms, h) = adsb_loop api now_ms es h
      in (case out of None \<Rightarrow> ms | Some m \<Rightarrow> m # ms, h))"

definition adsb_parse_response :: "'e dom \<Rightarrow> string \<Rightarrow> adsb \<Rightarrow> message list \<times> adsb" where
  "adsb_parse_response api raw h =
     (case dom_parse api raw of
        None \<Rightarrow> ([], h)
      | Some doc \<Rightarrow>
     (case adsb_read_int64 api doc ''now'' of
        None \<Rightarrow> ([], h)
      | Some now_ms \<Rightarrow>
     (case field_array api doc ''ac'' of
        None \<Rightarrow> ([], h)
      | Some ac \<Rightarrow> adsb_loop api now_ms ac h)))"

fun adsb_polls :: "'e dom \<Rightarrow> string list \<Rightarrow> adsb \<Rightarrow> message list \<times> adsb" where
  "adsb_polls api [] h = ([], h)"
| "adsb_polls api (raw # raws) h =
     (let (ms, h) = adsb_parse_response api raw h; (ms', h) = adsb_polls api raws h in (ms @ ms', h))"

section \<open>What the polls mean\<close>

definition adsb_readings :: "'e dom \<Rightarrow> adsb_metric \<Rightarrow> string \<Rightarrow> (string \<times> u64 \<times> double) list" where
  "adsb_readings api metric raw =
     (case dom_parse api raw of
        None \<Rightarrow> []
      | Some doc \<Rightarrow>
     (case (adsb_read_int64 api doc ''now'', field_array api doc ''ac'') of
        (Some now_ms, Some ac) \<Rightarrow> List.map_filter (adsb_reading api metric now_ms) ac
      | _ \<Rightarrow> []))"

text \<open>The different elements of a list in the order of their first occurrence.\<close>

definition first_seen :: "'a list \<Rightarrow> 'a list" where
  "first_seen xs = foldl (\<lambda>acc x. if x \<in> set acc then acc else acc @ [x]) [] xs"

definition readings_of :: "string \<Rightarrow> (string \<times> u64 \<times> double) list \<Rightarrow> (u64 \<times> double) list" where
  "readings_of hex rs = map snd (filter (\<lambda>r. fst r = hex) rs)"

definition on_stream :: "u32 \<Rightarrow> message list \<Rightarrow> message list" where
  "on_stream i ms = filter (\<lambda>m. m_stream_id m = i) ms"

lemma first_seen_snoc:
  "first_seen (xs @ [x]) = (if x \<in> set (first_seen xs) then first_seen xs else first_seen xs @ [x])"
  by (simp add: first_seen_def)

lemma set_first_seen [simp]: "set (first_seen xs) = set xs"
  by (induction xs rule: rev_induct) (auto simp: first_seen_snoc, simp_all add: first_seen_def)

lemma distinct_first_seen: "distinct (first_seen xs)"
  by (induction xs rule: rev_induct) (auto simp: first_seen_snoc, simp_all add: first_seen_def)

lemma readings_of_snoc [simp]:
  "readings_of hex (rs @ [(hex', x)]) = readings_of hex rs @ (if hex' = hex then [x] else [])"
  by (simp add: readings_of_def)

lemma on_stream_snoc [simp]:
  "on_stream i (ms @ [m]) = on_stream i ms @ (if m_stream_id m = i then [m] else [])"
  by (simp add: on_stream_def)

lemma alist_update_nth:
  "distinct (map fst al) \<Longrightarrow> k < length al \<Longrightarrow> fst (al ! k) = x \<Longrightarrow> AList.update x v al = al[k := (x, v)]"
proof (induction al arbitrary: k)
  case (Cons p al)
  show ?case
  proof (cases k)
    case (Suc j)
    then have "fst (al ! j) = x" "j < length al" using Cons.prems by simp_all
    then have "x \<in> fst ` set al" by (metis image_eqI nth_mem)
    then have "fst p \<noteq> x" using Cons.prems(1) by auto
    then show ?thesis using Cons Suc by (cases p) simp
  qed (use Cons.prems in \<open>cases p; simp\<close>)
qed simp

lemma alist_update_new: "x \<notin> fst ` set al \<Longrightarrow> AList.update x v al = al @ [(x, v)]"
  by (induction al) auto

fun adsb_tracks :: "(string \<times> u64 \<times> double) list \<Rightarrow> adsb \<Rightarrow> message list \<times> adsb" where
  "adsb_tracks [] h = ([], h)"
| "adsb_tracks (r # rs) h =
     (let (out, h) = adsb_track r h; (ms, h) = adsb_tracks rs h
      in (case out of None \<Rightarrow> ms | Some m \<Rightarrow> m # ms, h))"

lemma adsb_tracks_append:
  "adsb_tracks (xs @ ys) h = (let (ms, h) = adsb_tracks xs h; (ms', h) = adsb_tracks ys h in (ms @ ms', h))"
  by (induction xs arbitrary: h) (simp_all add: Let_def split: prod.split option.split)

lemma adsb_track_metric [simp]: "ad_metric (snd (adsb_track r h)) = ad_metric h"
  by (simp add: adsb_track_def adsb_emit_def Let_def split: prod.split option.split)

lemma adsb_loop_tracks:
  "adsb_loop api now es h = adsb_tracks (List.map_filter (adsb_reading api (ad_metric h) now) es) h"
proof (induction es arbitrary: h)
  case (Cons e es)
  have "adsb_loop api now es (snd (adsb_track r h)) =
      adsb_tracks (List.map_filter (adsb_reading api (ad_metric h) now) es) (snd (adsb_track r h))" for r
    using Cons.IH [of "snd (adsb_track r h)"] by simp
  then show ?case using Cons.IH [of h]
    by (simp add: adsb_accept_def map_filter_simps case_prod_unfold Let_def split: option.split)
qed (simp add: map_filter_simps)

lemma adsb_tracks_metric [simp]: "ad_metric (snd (adsb_tracks rs h)) = ad_metric h"
  by (induction rs arbitrary: h) (simp_all add: Let_def case_prod_unfold)

lemma adsb_polls_tracks:
  "adsb_polls api raws h = adsb_tracks (concat (map (adsb_readings api (ad_metric h)) raws)) h"
proof (induction raws arbitrary: h)
  case (Cons raw raws)
  have "adsb_parse_response api raw h = adsb_tracks (adsb_readings api (ad_metric h) raw) h"
    by (simp add: adsb_parse_response_def adsb_readings_def adsb_loop_tracks split: option.split)
  then show ?case using Cons.IH [of "snd (adsb_tracks (adsb_readings api (ad_metric h) raw) h)"]
    by (simp add: adsb_tracks_append case_prod_unfold Let_def)
qed simp

section \<open>The registry\<close>

definition adsb_entry_ok :: "u32 \<Rightarrow> (string \<times> u64 \<times> double) list \<Rightarrow> message list \<Rightarrow> nat \<Rightarrow> string \<times> adsb_stream \<Rightarrow> bool" where
  "adsb_entry_ok base rs ms k entry \<longleftrightarrow> (case entry of (hex, st) \<Rightarrow>
     as_stream_id st = base + of_nat k \<and>
     emitted_inv (readings_of hex rs) (on_stream (base + of_nat k) ms) (as_last_ts_ns st) (as_seq st))"

definition adsb_inv :: "(string \<times> u64 \<times> double) list \<Rightarrow> message list \<Rightarrow> adsb \<Rightarrow> bool" where
  "adsb_inv rs ms h \<longleftrightarrow>
     map fst (ad_streams h) = take (ad_max_streams h) (first_seen (map fst rs)) \<and>
     list_all (\<lambda>k. adsb_entry_ok (ad_base_stream_id h) rs ms k (ad_streams h ! k)) [0..<length (ad_streams h)] \<and>
     list_all (\<lambda>m. list_ex (\<lambda>k. m_stream_id m = ad_base_stream_id h + of_nat k) [0..<length (ad_streams h)]) ms"

lemma stream_ids_differ: "j < 2 ^ 32 \<Longrightarrow> k < 2 ^ 32 \<Longrightarrow> base + of_nat j = base + (of_nat k :: u32) \<longleftrightarrow> j = k"
  by (simp add: word_of_nat_eq_iff take_bit_nat_eq_self)

lemma adsb_inv_entry:
  "adsb_inv rs ms h \<Longrightarrow> k < length (ad_streams h) \<Longrightarrow> ad_streams h ! k = entry \<Longrightarrow>
     adsb_entry_ok (ad_base_stream_id h) rs ms k entry"
  by (auto simp: adsb_inv_def list_all_iff)

lemma key_at: "k < length al \<Longrightarrow> al ! k = (x, v) \<Longrightarrow> x \<in> set (map fst al)"
  by (metis fst_conv length_map nth_map nth_mem)

lemma on_stream_other: "list_all (\<lambda>m. m_stream_id m \<noteq> i) new \<Longrightarrow> on_stream i (ms @ new) = on_stream i ms"
  by (induction new rule: rev_induct) (auto simp: on_stream_def)

lemma adsb_entry_other:
  "adsb_entry_ok base rs ms j (hx, st) \<Longrightarrow> hx \<noteq> hex \<Longrightarrow> list_all (\<lambda>m. m_stream_id m \<noteq> base + of_nat j) new \<Longrightarrow>
     adsb_entry_ok base (rs @ [(hex, x)]) (ms @ new) j (hx, st)"
  by (simp add: adsb_entry_ok_def on_stream_other)

lemma adsb_keys:
  assumes "adsb_inv rs ms h"
  shows "distinct (map fst (ad_streams h))" "set (map fst (ad_streams h)) \<subseteq> fst ` set rs"
proof -
  have k: "map fst (ad_streams h) = take (ad_max_streams h) (first_seen (map fst rs))"
    using assms by (simp add: adsb_inv_def)
  show "distinct (map fst (ad_streams h))" unfolding k by (rule distinct_take) (rule distinct_first_seen)
  show "set (map fst (ad_streams h)) \<subseteq> fst ` set rs"
    unfolding k using set_take_subset [of "ad_max_streams h" "first_seen (map fst rs)"] by simp
qed

lemma adsb_inv_known:
  assumes inv: "adsb_inv rs ms h" and len: "length (ad_streams h) \<le> 2 ^ 32"
    and k: "k < length (ad_streams h)" "ad_streams h ! k = (hex, st)"
    and upd: "ad_streams h' = (ad_streams h)[k := (hex, st')]"
      "ad_base_stream_id h' = ad_base_stream_id h" "ad_max_streams h' = ad_max_streams h"
    and new: "list_all (\<lambda>m. m_stream_id m = ad_base_stream_id h + of_nat k) new"
    and ok: "adsb_entry_ok (ad_base_stream_id h) (rs @ [(hex, x)]) (ms @ new) k (hex, st')"
  shows "adsb_inv (rs @ [(hex, x)]) (ms @ new) h'"
proof -
  define base where "base = ad_base_stream_id h"
  note keys = adsb_keys [OF inv]
  have hex: "hex \<in> fst ` set rs" using keys(2) k by (metis fst_conv image_eqI list.set_map nth_mem subsetD)
  have "map fst (ad_streams h') = map fst (ad_streams h)"
    using k by (simp add: upd map_update list_update_same_conv)
  then have "map fst (ad_streams h') = take (ad_max_streams h') (first_seen (map fst (rs @ [(hex, x)])))"
    using inv hex upd(3) by (auto simp: adsb_inv_def first_seen_snoc)
  moreover have "adsb_entry_ok base (rs @ [(hex, x)]) (ms @ new) j (ad_streams h' ! j)"
    if j: "j < length (ad_streams h)" for j
  proof (cases "j = k")
    case True
    then show ?thesis using ok k by (simp add: upd base_def)
  next
    case False
    obtain hx sj where e: "ad_streams h ! j = (hx, sj)" by force
    have "hx \<noteq> hex"
      using nth_eq_iff_index_eq [OF keys(1), of j k] j k e False by auto
    moreover have "list_all (\<lambda>m. m_stream_id m \<noteq> base + of_nat j) new"
      using new stream_ids_differ [of j k base] j k len False by (auto simp: list_all_iff base_def)
    moreover have "adsb_entry_ok base rs ms j (hx, sj)"
      using adsb_inv_entry [OF inv j e] by (simp add: base_def)
    ultimately show ?thesis using False e by (simp add: upd adsb_entry_other)
  qed
  moreover have "list_all (\<lambda>m. list_ex (\<lambda>k. m_stream_id m = base + of_nat k) [0..<length (ad_streams h)]) (ms @ new)"
    using inv new k(1) by (auto simp: adsb_inv_def list_all_iff list_ex_iff base_def)
  ultimately show ?thesis by (simp add: adsb_inv_def upd base_def list_all_iff)
qed

lemma adsb_inv_new:
  assumes inv: "adsb_inv rs ms h" and room: "length (ad_streams h) < ad_max_streams h" "ad_max_streams h \<le> 2 ^ 32"
    and hex: "hex \<notin> set (map fst (ad_streams h))"
    and upd: "ad_streams h' = ad_streams h @ [(hex, st)]"
      "ad_base_stream_id h' = ad_base_stream_id h" "ad_max_streams h' = ad_max_streams h"
    and m: "m_stream_id m = ad_base_stream_id h + of_nat (length (ad_streams h))" "m_ts_ns m = t" "m_value m = v"
      "m_seq m = 1"
    and st: "as_stream_id st = m_stream_id m" "as_last_ts_ns st = t" "as_seq st = 1"
  shows "adsb_inv (rs @ [(hex, t, v)]) (ms @ [m]) h'"
proof -
  define base n where "base = ad_base_stream_id h" and "n = length (ad_streams h)"
  have keys: "map fst (ad_streams h) = take (ad_max_streams h) (first_seen (map fst rs))"
    using inv by (simp add: adsb_inv_def)
  then have "length (first_seen (map fst rs)) \<le> n" using room(1)
    by (metis length_map length_take min_less_iff_conj n_def not_le nat_neq_iff order_less_irrefl)
  then have all: "map fst (ad_streams h) = first_seen (map fst rs)" using keys room(1) by (simp add: n_def)
  have lfs: "length (first_seen (map fst rs)) = length (ad_streams h)" using all by (metis length_map)
  have fresh: "hex \<notin> fst ` set rs" using hex all by (metis list.set_map set_first_seen)
  have "map fst (ad_streams h') = take (ad_max_streams h') (first_seen (map fst (rs @ [(hex, t, v)])))"
    using all fresh lfs room(1) by (simp add: upd first_seen_snoc)
  moreover have "adsb_entry_ok base (rs @ [(hex, t, v)]) (ms @ [m]) j (ad_streams h' ! j)" if j: "j < n" for j
  proof -
    obtain hx sj where e: "ad_streams h ! j = (hx, sj)" by force
    have "hx \<noteq> hex" using hex key_at [OF _ e] j by (auto simp: n_def)
    moreover have "m_stream_id m \<noteq> base + of_nat j"
      using stream_ids_differ [of n j base] j room m(1) by (simp add: base_def n_def)
    moreover have "adsb_entry_ok base rs ms j (hx, sj)"
      using adsb_inv_entry [OF inv _ e] j by (simp add: base_def n_def)
    ultimately show ?thesis using j e by (simp add: upd nth_append n_def adsb_entry_other)
  qed
  moreover have "adsb_entry_ok base (rs @ [(hex, t, v)]) (ms @ [m]) n (hex, st)"
  proof -
    have "m_stream_id x \<noteq> base + of_nat n" if "x \<in> set ms" for x
    proof -
      have "list_ex (\<lambda>k. m_stream_id x = base + of_nat k) [0..<n]"
        using inv that unfolding adsb_inv_def base_def n_def by (simp only: list_all_iff)
      then obtain k where "k < n" "m_stream_id x = base + of_nat k" by (auto simp: list_ex_iff)
      then show ?thesis using stream_ids_differ [of k n base] room by (simp add: n_def)
    qed
    then have "on_stream (base + of_nat n) ms = []" by (auto simp: on_stream_def filter_empty_conv)
    moreover have "readings_of hex rs = []" using fresh by (auto simp: readings_of_def filter_empty_conv)
    ultimately show ?thesis using m st
      by (simp add: adsb_entry_ok_def base_def n_def emitted_first)
  qed
  moreover have "list_all (\<lambda>m. list_ex (\<lambda>k. m_stream_id m = base + of_nat k) [0..<Suc n]) (ms @ [m])"
    using inv m(1) by (fastforce simp: adsb_inv_def list_all_iff list_ex_iff base_def n_def)
  ultimately show ?thesis
    by (auto simp: adsb_inv_def upd base_def n_def list_all_iff nth_append less_Suc_eq)
qed

lemma adsb_inv_full:
  assumes inv: "adsb_inv rs ms h" and full: "ad_max_streams h \<le> length (ad_streams h)"
    and hex: "hex \<notin> set (map fst (ad_streams h))"
  shows "adsb_inv (rs @ [(hex, x)]) ms h"
proof -
  have keys: "map fst (ad_streams h) = take (ad_max_streams h) (first_seen (map fst rs))"
    using inv by (simp add: adsb_inv_def)
  then have "ad_max_streams h \<le> length (first_seen (map fst rs))"
    using full by (metis length_map length_take min.bounded_iff)
  then have "take (ad_max_streams h) (first_seen (map fst (rs @ [(hex, x)]))) = map fst (ad_streams h)"
    using keys by (simp add: first_seen_snoc)
  moreover have "adsb_entry_ok (ad_base_stream_id h) (rs @ [(hex, x)]) ms j (ad_streams h ! j)"
    if j: "j < length (ad_streams h)" for j
  proof -
    obtain hx sj where e: "ad_streams h ! j = (hx, sj)" by force
    have "hx \<noteq> hex" using hex key_at [OF j e] by auto
    moreover have "adsb_entry_ok (ad_base_stream_id h) rs ms j (hx, sj)"
      by (rule adsb_inv_entry [OF inv j e])
    ultimately show ?thesis using e adsb_entry_other [of _ _ ms _ _ _ _ "[]"] by simp
  qed
  ultimately show ?thesis using inv by (simp add: adsb_inv_def list_all_iff)
qed

lemma adsb_track_inv:
  assumes inv: "adsb_inv rs ms h" and mx: "ad_max_streams h \<le> 2 ^ 32"
    and t: "adsb_track (hex, t, v) h = (out, h')"
  shows "adsb_inv (rs @ [(hex, t, v)]) (ms @ (case out of None \<Rightarrow> [] | Some m \<Rightarrow> [m])) h'"
proof -
  define base where "base = ad_base_stream_id h"
  have "length (ad_streams h) \<le> ad_max_streams h"
  proof -
    have "map fst (ad_streams h) = take (ad_max_streams h) (first_seen (map fst rs))"
      using inv by (simp add: adsb_inv_def)
    from arg_cong [OF this, of length] show ?thesis by simp
  qed
  then have len: "length (ad_streams h) \<le> 2 ^ 32" using mx by simp
  show ?thesis
  proof (cases "map_of (ad_streams h) hex")
    case None
    then have hex: "hex \<notin> set (map fst (ad_streams h))" by (simp add: map_of_eq_None_iff)
    show ?thesis
    proof (cases "ad_max_streams h \<le> length (ad_streams h)")
      case True
      then show ?thesis using adsb_inv_full [OF inv True hex] t None by (auto simp: adsb_track_def)
    next
      case False
      have "AList.update hex st (ad_streams h) = ad_streams h @ [(hex, st)]" for st
        using hex by (intro alist_update_new) simp
      then show ?thesis using t None False mx hex
        by (auto simp: adsb_track_def adsb_emit_def Let_def intro!: adsb_inv_new [OF inv])
    qed
  next
    case (Some st)
    then have "(hex, st) \<in> set (ad_streams h)" by (rule map_of_SomeD)
    then obtain k where k: "k < length (ad_streams h)" "ad_streams h ! k = (hex, st)"
      by (auto simp: in_set_conv_nth)
    have e: "as_stream_id st = base + of_nat k"
      "emitted_inv (readings_of hex rs) (on_stream (base + of_nat k) ms) (as_last_ts_ns st) (as_seq st)"
      using adsb_inv_entry [OF inv k] by (simp_all add: adsb_entry_ok_def base_def)
    show ?thesis
    proof (cases "sint t \<le> sint (as_last_ts_ns st)")
      case True
      have h: "out = None" "h' = h" using t Some True by (auto simp: adsb_track_def)
      have "adsb_entry_ok base (rs @ [(hex, t, v)]) (ms @ []) k (hex, st)"
        using e emitted_old [OF e(2) True] by (simp add: adsb_entry_ok_def)
      then have "adsb_inv (rs @ [(hex, t, v)]) (ms @ []) h"
        using list_update_id [of "ad_streams h" k] k(2)
        by (intro adsb_inv_known [OF inv len k, of h st]) (simp_all add: base_def)
      then show ?thesis by (simp add: h)
    next
      case False
      define st' where "st' = st\<lparr>as_last_ts_ns := t, as_seq := as_seq st + 1\<rparr>"
      define m where "m = zero_message\<lparr>m_stream_id := as_stream_id st, m_ts_ns := t, m_value := v, m_seq := as_seq st + 1\<rparr>"
      have h: "out = Some m" "h' = h\<lparr>ad_streams := (ad_streams h)[k := (hex, st')]\<rparr>"
        using t Some False alist_update_nth [OF adsb_keys(1) [OF inv] k(1)] k(2)
        by (auto simp: adsb_track_def adsb_emit_def Let_def st'_def m_def)
      have "adsb_entry_ok base (rs @ [(hex, t, v)]) (ms @ [m]) k (hex, st')"
        using e emitted_new [OF e(2) False, of m v] by (simp add: adsb_entry_ok_def m_def st'_def)
      then show ?thesis using e(1) k h
        by (auto simp: base_def m_def intro!: adsb_inv_known [OF inv len k, of _ st'])
    qed
  qed
qed

lemma adsb_track_same:
  "ad_base_stream_id (snd (adsb_track r h)) = ad_base_stream_id h \<and> ad_max_streams (snd (adsb_track r h)) = ad_max_streams h"
  by (simp add: adsb_track_def adsb_emit_def Let_def split: prod.split option.split)

lemma adsb_tracks_inv:
  "adsb_inv rs ms h \<Longrightarrow> ad_max_streams h \<le> 2 ^ 32 \<Longrightarrow> adsb_tracks rs' h = (ms', h') \<Longrightarrow>
     adsb_inv (rs @ rs') (ms @ ms') h' \<and> ad_base_stream_id h' = ad_base_stream_id h \<and>
     ad_max_streams h' = ad_max_streams h"
proof (induction rs' arbitrary: rs ms h ms')
  case (Cons r rs')
  obtain hex t v where r: "r = (hex, t, v)" by (cases r)
  obtain out h1 where a: "adsb_track r h = (out, h1)" by force
  obtain ms1 where ms1: "adsb_tracks rs' h1 = (ms1, h')"
    using Cons.prems(3) by (auto simp: a Let_def split: prod.splits)
  have ms': "ms' = (case out of None \<Rightarrow> [] | Some m \<Rightarrow> [m]) @ ms1"
    using Cons.prems(3) by (auto simp: a ms1 split: option.splits)
  have same: "ad_base_stream_id h1 = ad_base_stream_id h" "ad_max_streams h1 = ad_max_streams h"
    using adsb_track_same [of r h] by (simp_all add: a)
  show ?case
    using Cons.IH [OF adsb_track_inv [OF Cons.prems(1,2) a [unfolded r]] _ ms1] Cons.prems(2) same ms'
    by (simp add: r)
qed simp

text \<open>C18: Over any sequence of polls the registry holds the first \<open>max_streams\<close> aircraft in the order they
  were first seen, and no other aircraft is ever emitted: every message is on a stream \<open>base + k\<close>, and
  what is emitted on it are exactly the readings of the \<open>k\<close>-th aircraft that are later than
  every earlier reading of it, in order, numbered from 1. Times so large that the code's nanoseconds overflow are
  not excluded: the statement compares the time stamps the readings got, whatever they are.\<close>

theorem adsb_streams_are_aircraft:
  assumes "readings = concat (map (adsb_readings api metric) raws)" "mx \<le> 2 ^ 32"
    "hexes = take mx (first_seen (map fst readings))"
    "adsb_polls api raws (adsb_init base mx metric) = (ms, h)"
  shows "map fst (ad_streams h) = hexes \<and>
    list_all (\<lambda>m. list_ex (\<lambda>k. m_stream_id m = base + of_nat k) [0..<length hexes]) ms \<and>
    list_all (\<lambda>k. let out = on_stream (base + of_nat k) ms
       in map (\<lambda>m. (m_ts_ns m, m_value m)) out = new_maxima (readings_of (hexes ! k) readings) \<and>
          map m_seq out = map (\<lambda>j. of_nat (j + 1)) [0..<length out]) [0..<length hexes]"
proof -
  have "adsb_inv [] [] (adsb_init base mx metric)"
    by (simp add: adsb_inv_def adsb_init_def first_seen_def)
  then have inv: "adsb_inv readings ms h" "ad_base_stream_id h = base" "ad_max_streams h = mx"
    using adsb_tracks_inv [of "[]" "[]" "adsb_init base mx metric" readings ms h] assms
    by (simp_all add: adsb_polls_tracks) (simp_all add: adsb_init_def)
  then have keys: "map fst (ad_streams h) = hexes" by (simp add: adsb_inv_def assms(3))
  then have len: "length (ad_streams h) = length hexes" by (metis length_map)
  have "adsb_entry_ok base readings ms k (hexes ! k, snd (ad_streams h ! k))" if "k < length hexes" for k
  proof -
    have "fst (ad_streams h ! k) = hexes ! k" using keys len that by (metis nth_map)
    then have "ad_streams h ! k = (hexes ! k, snd (ad_streams h ! k))" by (metis prod.collapse)
    then show ?thesis using adsb_inv_entry [OF inv(1)] inv(2) len that by metis
  qed
  then have "list_all (\<lambda>k. let out = on_stream (base + of_nat k) ms
       in map (\<lambda>m. (m_ts_ns m, m_value m)) out = new_maxima (readings_of (hexes ! k) readings) \<and>
          map m_seq out = map (\<lambda>j. of_nat (j + 1)) [0..<length out]) [0..<length hexes]"
    by (simp add: list_all_iff adsb_entry_ok_def emitted_inv_def Let_def)
  moreover have "list_all (\<lambda>m. list_ex (\<lambda>k. m_stream_id m = base + of_nat k) [0..<length hexes]) ms"
    using inv(1) unfolding adsb_inv_def inv(2) len by blast
  ultimately show ?thesis using keys by blast
qed

text \<open>Two polls of two aircraft, with room for one.\<close>

definition adsb_doc :: "string \<Rightarrow> double \<Rightarrow> doc" where
  "adsb_doc hex v = Object [(''hex'', Text hex), (''lat'', Real 1), (''lon'', Real 1), (''seen'', Real 0), (''gs'', Real v)]"

definition adsb_dom :: "doc dom" where
  "adsb_dom = doc_dom (map_of [
     (''a'', Object [(''now'', Uint 5), (''ac'', Items [adsb_doc ''a1'' 3, adsb_doc ''b2'' 4])]),
     (''b'', Object [(''now'', Uint 6), (''ac'', Items [adsb_doc ''a1'' 5, Text ''noise''])])])"

lemma adsb_ts_seen_0: "adsb_ts_ns now_ms 0 = now_ms * 1000000"
  by (simp add: adsb_ts_ns_def d_1e9_def d_to_int64_def d_trunc_def d_eval)

lemma adsb_example: "concat (map (adsb_readings adsb_dom KGroundSpeed) [''a'', ''broken'', ''b'']) =
    [(''a1'', 5000000, 3), (''b2'', 5000000, 4), (''a1'', 6000000, 5)]"
  by (simp add: adsb_readings_def adsb_dom_def doc_dom_def adsb_doc_def field_array_def field_string_def
      adsb_reading_def adsb_read_int64_def adsb_field_number_def adsb_read_number_def adsb_read_value_def
      map_filter_simps adsb_ts_seen_0)

theorem adsb_streams_are_aircraft_witness:
  "case adsb_polls adsb_dom [''a'', ''broken'', ''b''] (adsb_init 100 1 KGroundSpeed) of (ms, h) \<Rightarrow>
     map fst (ad_streams h) = [''a1''] \<and>
     map (\<lambda>m. (m_ts_ns m, m_value m)) (on_stream 100 ms) = [(5000000, 3), (6000000, 5)]"
proof -
  obtain ms h where p: "adsb_polls adsb_dom [''a'', ''broken'', ''b''] (adsb_init 100 1 KGroundSpeed) = (ms, h)" by force
  have hx: "[''a1''] = take 1 (first_seen (map fst
      [(''a1'', 5000000 :: u64, 3 :: double), (''b2'', 5000000, 4), (''a1'', 6000000, 5)]))"
    by (simp add: first_seen_def)
  have "(1 :: nat) \<le> 2 ^ 32" by simp
  note t = adsb_streams_are_aircraft [OF adsb_example [symmetric] this hx p]
  have "new_maxima (readings_of ''a1'' [(''a1'', 5000000, 3), (''b2'', 5000000, 4), (''a1'', 6000000, 5)]) =
      [(5000000, 3), (6000000, 5)]"
    by (simp add: new_maxima_def readings_of_def upt_rec)
  then show ?thesis using t unfolding p by (simp add: Let_def)
qed

end
