(* ===== verification/Feed_Handler.thy ===== *)
theory Feed_Handler
  imports Spsc_Ring Message
begin

text \<open>
  \<open>FeedHandler\<close> of \<open>include/feed/handler.hpp\<close>: the per-stream gap detector shared by ticks and
  heartbeats, \<open>handle\<close>, which ties an adapter's \<open>parse\<close> to a ring buffer, and the reconnect
  lifecycle. \<open>parse\<close> is virtual in the code and an argument here; the ring is any \<open>bounded_fifo\<close>. The calls
  of the gap callback are recorded in \<open>fh_gaps\<close>, in order.
\<close>

datatype parse_result = POk | PHeartbeat | PSkipped | PMalformed

record feed_handler =
  fh_has_on_gap :: bool
  fh_last_seq :: "u32 \<rightharpoonup> u64"
  fh_gaps :: "(u32 \<times> u64 \<times> u64) list"

definition feed_init :: "bool \<Rightarrow> feed_handler" where
  "feed_init has_on_gap = \<lparr>fh_has_on_gap = has_on_gap, fh_last_seq = Map.empty, fh_gaps = []\<rparr>"

definition feed_accept_seq :: "u32 \<Rightarrow> u64 \<Rightarrow> feed_handler \<Rightarrow> bool \<times> feed_handler" where
  "feed_accept_seq stream_id seq h =
     (case fh_last_seq h stream_id of
        None \<Rightarrow> (True, h\<lparr>fh_last_seq := (fh_last_seq h)(stream_id \<mapsto> seq)\<rparr>)
      | Some prev \<Rightarrow>
          if seq \<le> prev then (False, h)
          else (let h = (if seq > prev + 1 \<and> fh_has_on_gap h
                         then h\<lparr>fh_gaps := fh_gaps h @ [(stream_id, prev, seq)]\<rparr> else h)
                in (True, h\<lparr>fh_last_seq := (fh_last_seq h)(stream_id \<mapsto> seq)\<rparr>)))"

definition feed_reset :: "feed_handler \<Rightarrow> feed_handler" where
  "feed_reset h = h\<lparr>fh_last_seq := Map.empty\<rparr>"

definition feed_on_disconnect :: "feed_handler \<Rightarrow> feed_handler" where
  "feed_on_disconnect h = h"

definition feed_on_reconnect :: "feed_handler \<Rightarrow> feed_handler" where
  "feed_on_reconnect h = feed_reset h"

definition feed_handle ::
  "('raw \<Rightarrow> message \<Rightarrow> parse_result \<times> message) \<Rightarrow> (message \<Rightarrow> 'q \<Rightarrow> bool \<times> 'q) \<Rightarrow>
   'raw \<Rightarrow> feed_handler \<Rightarrow> 'q \<Rightarrow> bool \<times> feed_handler \<times> 'q" where
  "feed_handle parse try_push raw h buffer =
     (let (r, out) = parse raw zero_message
      in case r of
           POk \<Rightarrow> (let (accepted, h) = feed_accept_seq (m_stream_id out) (m_seq out) h
                   in if \<not> accepted then (False, h, buffer)
                      else (let (pushed, buffer) = try_push out buffer in (pushed, h, buffer)))
         | PHeartbeat \<Rightarrow> (let (_, h) = feed_accept_seq (m_stream_id out) (m_seq out) h
                          in (False, h, buffer))
         | PSkipped \<Rightarrow> (False, h, buffer)
         | PMalformed \<Rightarrow> (False, h, buffer))"

section \<open>The gap detector against the history of a session\<close>

text \<open>A session is the sequence numbers offered between two resets; the result is what was accepted.\<close>

fun feed_session :: "(u32 \<times> u64) list \<Rightarrow> feed_handler \<Rightarrow> (u32 \<times> u64) list \<times> feed_handler" where
  "feed_session [] h = ([], h)"
| "feed_session ((i, s) # evs) h =
     (let (ok, h) = feed_accept_seq i s h;
          (acc, h) = feed_session evs h
      in ((if ok then [(i, s)] else []) @ acc, h))"

definition seqs_of :: "u32 \<Rightarrow> (u32 \<times> u64) list \<Rightarrow> u64 list" where
  "seqs_of i evs = map snd (filter (\<lambda>e. fst e = i) evs)"

definition gaps_of :: "u32 \<Rightarrow> (u32 \<times> u64 \<times> u64) list \<Rightarrow> (u64 \<times> u64) list" where
  "gaps_of i gs = map snd (filter (\<lambda>g. fst g = i) gs)"

lemma seqs_of_simps [simp]:
  "seqs_of i [] = []" "seqs_of i (xs @ ys) = seqs_of i xs @ seqs_of i ys"
  "seqs_of i [(j, s)] = (if j = i then [s] else [])"
  by (simp_all add: seqs_of_def)

lemma gaps_of_simps [simp]:
  "gaps_of i [] = []" "gaps_of i (xs @ ys) = gaps_of i xs @ gaps_of i ys"
  "gaps_of i [(j, g)] = (if j = i then [g] else [])"
  by (simp_all add: gaps_of_def)

lemma feed_session_snoc:
  "feed_session (evs @ [(i, s)]) h =
     (let (acc, h1) = feed_session evs h; (ok, h2) = feed_accept_seq i s h1
      in (acc @ (if ok then [(i, s)] else []), h2))"
  by (induction evs h rule: feed_session.induct) (auto simp: Let_def split: prod.splits)

text \<open>The test of the code on numbers: \<open>prev + 1\<close> cannot wrap, since \<open>seq\<close> is above \<open>prev\<close>.\<close>

lemma gap_test: "\<not> seq \<le> prev \<Longrightarrow> seq > prev + 1 \<longleftrightarrow> unat seq > unat prev + 1" for seq :: u64
proof -
  assume "\<not> seq \<le> prev"
  then have "unat prev < unat seq" by (simp add: word_le_nat_alt)
  moreover have "unat seq < 2 ^ 64" using unsigned_less [of seq] by simp
  ultimately have "unat (prev + 1) = unat prev + 1" by (simp add: unat_word_ariths)
  then show ?thesis by (simp add: word_less_nat_alt)
qed

lemma feed_accept_seq_same [simp]:
  "fh_has_on_gap (snd (feed_accept_seq i s h)) = fh_has_on_gap h"
  "j \<noteq> i \<Longrightarrow> fh_last_seq (snd (feed_accept_seq i s h)) j = fh_last_seq h j"
  "j \<noteq> i \<Longrightarrow> gaps_of j (fh_gaps (snd (feed_accept_seq i s h))) = gaps_of j (fh_gaps h)"
  by (auto simp: feed_accept_seq_def Let_def split: option.splits)

text \<open>The invariant per stream: \<open>offered\<close> and \<open>taken\<close> are the stream's numbers so far.\<close>

definition gap_inv :: "bool \<Rightarrow> u64 list \<Rightarrow> u64 list \<Rightarrow> u64 option \<Rightarrow> (u64 \<times> u64) list \<Rightarrow> bool" where
  "gap_inv on offered taken last_seq gaps \<longleftrightarrow>
     (if offered = [] then taken = [] \<and> last_seq = None \<and> gaps = []
      else taken \<noteq> [] \<and> last_seq = Some (Max (set offered)) \<and> last taken = Max (set offered) \<and>
        hd taken = hd offered \<and> sorted_wrt (<) taken \<and> set taken \<subseteq> set offered \<and>
        (on \<longrightarrow> length taken + sum_list (map (\<lambda>(a, b). unat b - unat a - 1) gaps) =
                  unat (last taken) - unat (hd taken) + 1 \<and>
                (\<forall>k. unat (hd taken) \<le> k \<and> k \<le> unat (last taken) \<longrightarrow>
                   k \<in> unat ` set taken \<or> (\<exists>(a, b) \<in> set gaps. unat a < k \<and> k < unat b))) \<and>
        (\<not> on \<longrightarrow> gaps = []))"


lemma gap_inv_init: "gap_inv on [] [] None []"
  by (simp add: gap_inv_def)

lemma gap_inv_first: "gap_inv on offered taken None gaps \<Longrightarrow> gap_inv on (offered @ [s]) (taken @ [s]) (Some s) gaps"
  by (simp add: gap_inv_def split: if_splits)

lemma gap_inv_old:
  "gap_inv on offered taken (Some m) gaps \<Longrightarrow> s \<le> m \<Longrightarrow> gap_inv on (offered @ [s]) taken (Some m) gaps"
  by (auto simp: gap_inv_def max_absorb2 split: if_splits)

lemma gap_inv_new:
  assumes inv: "gap_inv on offered taken (Some m) gaps" and new: "\<not> s \<le> m"
    and g: "gaps' = gaps @ (if unat s > unat m + 1 \<and> on then [(m, s)] else [])"
  shows "gap_inv on (offered @ [s]) (taken @ [s]) (Some s) gaps'"
proof -
  have ne: "offered \<noteq> []" "taken \<noteq> []" and m: "m = Max (set offered)" "last taken = m"
    and hd: "hd taken = hd offered" and srt: "sorted_wrt (<) taken" and sub: "set taken \<subseteq> set offered"
    and cnt: "on \<Longrightarrow> length taken + sum_list (map (\<lambda>(a, b). unat b - unat a - 1) gaps) =
                  unat m - unat (hd taken) + 1"
    and cov: "\<And>k. on \<Longrightarrow> unat (hd taken) \<le> k \<Longrightarrow> k \<le> unat m \<Longrightarrow>
         k \<in> unat ` set taken \<or> (\<exists>(a, b) \<in> set gaps. unat a < k \<and> k < unat b)"
    and off: "\<not> on \<Longrightarrow> gaps = []"
    using inv by (auto simp: gap_inv_def split: if_splits)
  have lt: "unat m < unat s" using new by (simp add: word_le_nat_alt)
  have below: "\<forall>x \<in> set taken. x \<le> m"
    using sub m(1) by auto
  then have hdm: "unat (hd taken) \<le> unat m" using ne(2) by (simp add: word_le_nat_alt)
  have mx: "Max (set (offered @ [s])) = s" using new m(1) ne(1) by (simp add: max_def)
  have srt': "sorted_wrt (<) (taken @ [s])"
    using srt below new by (auto simp: sorted_wrt_append)
  have cov': "k \<in> unat ` set (taken @ [s]) \<or> (\<exists>(a, b) \<in> set gaps'. unat a < k \<and> k < unat b)"
    if kk: "on" "unat (hd taken) \<le> k" "k \<le> unat s" for k
  proof -
    consider "k \<le> unat m" | "unat m < k" "k < unat s" | "k = unat s" using kk(3) by linarith
    then show ?thesis
    proof cases
      case 1
      then show ?thesis using cov [OF kk(1,2)] g by auto
    next
      case 2
      then have "(m, s) \<in> set gaps'" using g kk(1) by simp
      then show ?thesis using 2 by auto
    qed simp
  qed
  have cnt': "length (taken @ [s]) + sum_list (map (\<lambda>(a, b). unat b - unat a - 1) gaps') =
      unat s - unat (hd taken) + 1" if "on"
    using cnt [OF that] g that lt hdm by (auto split: if_splits)
  show ?thesis
    using ne mx srt' cov' cnt' hd sub off g unfolding gap_inv_def by auto
qed

lemma feed_accept_seq_inv:
  assumes "gap_inv (fh_has_on_gap h) offered taken (fh_last_seq h i) (gaps_of i (fh_gaps h))"
    "feed_accept_seq i s h = (ok, h')"
  shows "gap_inv (fh_has_on_gap h') (offered @ [s]) (taken @ (if ok then [s] else []))
      (fh_last_seq h' i) (gaps_of i (fh_gaps h'))"
proof (cases "fh_last_seq h i")
  case None
  then show ?thesis using assms gap_inv_first by (auto simp: feed_accept_seq_def)
next
  case (Some m)
  show ?thesis
  proof (cases "s \<le> m")
    case True
    then show ?thesis using assms Some gap_inv_old by (auto simp: feed_accept_seq_def)
  next
    case False
    have h': "ok" "fh_last_seq h' i = Some s" "fh_has_on_gap h' = fh_has_on_gap h"
      "gaps_of i (fh_gaps h') = gaps_of i (fh_gaps h) @
         (if unat s > unat m + 1 \<and> fh_has_on_gap h then [(m, s)] else [])"
      using assms(2) Some False gap_test [OF False]
      by (auto simp: feed_accept_seq_def Let_def split: if_splits)
    show ?thesis using gap_inv_new [OF _ False h'(4)] assms(1) h' Some by simp
  qed
qed

definition feed_fresh :: "feed_handler \<Rightarrow> bool" where
  "feed_fresh h \<longleftrightarrow> fh_last_seq h = Map.empty \<and> fh_gaps h = []"

lemma feed_session_inv:
  assumes "feed_fresh h" "feed_session evs h = (acc, h')"
  shows "fh_has_on_gap h' = fh_has_on_gap h \<and>
    gap_inv (fh_has_on_gap h') (seqs_of i evs) (seqs_of i acc) (fh_last_seq h' i) (gaps_of i (fh_gaps h'))"
  using assms(2)
proof (induction evs arbitrary: acc h' rule: rev_induct)
  case Nil
  then show ?case using assms(1) by (auto simp: feed_fresh_def gap_inv_init)
next
  case (snoc e evs)
  obtain j s where e: "e = (j, s)" by force
  obtain acc1 h1 where s1: "feed_session evs h = (acc1, h1)" by force
  obtain ok h2 where a: "feed_accept_seq j s h1 = (ok, h2)" by force
  have eq: "acc = acc1 @ (if ok then [(j, s)] else [])" "h' = h2"
    using snoc.prems by (simp_all add: e feed_session_snoc s1 a)
  note ih = snoc.IH [OF s1]
  show ?case
  proof (cases "j = i")
    case True
    then show ?thesis
      using feed_accept_seq_inv [of h1 "seqs_of i evs" "seqs_of i acc1" i s ok h2] ih a eq
        feed_accept_seq_same(1) [of j s h1] by (auto simp: e)
  next
    case False
    then show ?thesis
      using ih a eq feed_accept_seq_same(1) [of j s h1] feed_accept_seq_same(2,3) [of i j s h1]
      by (auto simp: e)
  qed
qed


text \<open>The gap detector decides by the whole history of the session: a sequence number is accepted
  exactly when it is above every number offered on its stream since the last reset, and the gap
  callback fires exactly when, in addition, the stream has been seen before and at least one number
  between the highest one so far and the new one was skipped; it then reports that highest number.\<close>

theorem feed_accepts_new_maximum:
  assumes "feed_fresh h" "feed_session evs h = (acc, h1)" "feed_accept_seq i s h1 = (ok, h2)"
  shows "(ok \<longleftrightarrow> (\<forall>x \<in> set (seqs_of i evs). x < s)) \<and>
    fh_gaps h2 = fh_gaps h1 @
      (if fh_has_on_gap h \<and> ok \<and> seqs_of i evs \<noteq> [] \<and>
          unat (Max (set (seqs_of i evs))) + 1 < unat s
       then [(i, Max (set (seqs_of i evs)), s)] else [])"
proof -
  define xs where "xs = seqs_of i evs"
  have inv: "gap_inv (fh_has_on_gap h1) xs (seqs_of i acc) (fh_last_seq h1 i) (gaps_of i (fh_gaps h1))"
    "fh_has_on_gap h1 = fh_has_on_gap h"
    using feed_session_inv [OF assms(1,2), of i] unfolding xs_def by blast+
  show ?thesis
  proof (cases "xs = []")
    case True
    then have "fh_last_seq h1 i = None" using inv(1) by (simp add: gap_inv_def)
    then show ?thesis using True assms(3) by (auto simp: feed_accept_seq_def xs_def)
  next
    case False
    define m where "m = Max (set xs)"
    have last: "fh_last_seq h1 i = Some m" using inv(1) False by (simp add: gap_inv_def m_def)
    have mx: "(\<forall>x \<in> set xs. x < s) \<longleftrightarrow> \<not> s \<le> m"
      using False by (simp add: m_def not_le)
    show ?thesis
    proof (cases "s \<le> m")
      case True
      then show ?thesis using assms(3) last mx by (auto simp: feed_accept_seq_def xs_def m_def)
    next
      case le: False
      have "ok" "fh_gaps h2 = fh_gaps h1 @ (if fh_has_on_gap h \<and> unat m + 1 < unat s then [(i, m, s)] else [])"
        using assms(3) last le inv(2) gap_test [OF le]
        by (auto simp: feed_accept_seq_def Let_def split: if_splits)
      then show ?thesis using mx le False by (simp add: xs_def m_def)
    qed
  qed
qed

theorem feed_accepts_new_maximum_witness:
  "case feed_session [(1, 5), (2, 1), (1, 6)] (feed_init True) of (acc, h1) \<Rightarrow>
     fh_gaps (snd (feed_accept_seq 1 9 h1)) = [(1, 6, 9)]"
proof -
  obtain acc h1 where s: "feed_session [(1, 5), (2, 1), (1, 6)] (feed_init True) = (acc, h1)" by force
  obtain ok h2 where a: "feed_accept_seq 1 9 h1 = (ok, h2)" by force
  have f: "feed_fresh (feed_init True)" by (simp add: feed_fresh_def feed_init_def)
  have "fh_gaps h1 = []"
    using s by (auto simp: feed_init_def feed_accept_seq_def Let_def)
  then have "fh_gaps h2 = [(1, 6, 9)]"
    using feed_accepts_new_maximum [OF f s a] by (simp add: seqs_of_def feed_init_def)
  then show ?thesis unfolding s by (simp add: a)
qed



end
