(* ===== verification/Feed_Pipeline.thy ===== *)
theory Feed_Pipeline
  imports Feed_Handler "HOL-Library.Sublist"
begin

text \<open>
  The feed handler as a client of a ring buffer: frames are handled as they arrive, the detection
  thread drains the ring, and a feed drop resets the gap state, in any order. The locale takes the
  ring by its queue contract (\<open>bounded_fifo\<close>) and the adapter's \<open>parse\<close> as it is; it is interpreted on
  \<open>SpscRingBuffer\<close>, the ring the daemon uses. \<open>pushed\<close> collects the messages for which \<open>handle\<close> returned
  true, \<open>popped\<close> what the consumer got, \<open>session\<close> what was pushed since the last reset.
\<close>

datatype 'raw feed_event = Received 'raw | FeedDrop | Drain

record 'q feed_state =
  fs_handler :: feed_handler
  fs_ring :: 'q
  fs_pushed :: "message list"
  fs_popped :: "message list"
  fs_session :: "message list"

definition feed_step ::
  "('raw \<Rightarrow> message \<Rightarrow> parse_result \<times> message) \<Rightarrow> (message \<Rightarrow> 'q \<Rightarrow> bool \<times> 'q) \<Rightarrow>
   ('q \<Rightarrow> message option \<times> 'q) \<Rightarrow> 'raw feed_event \<Rightarrow> 'q feed_state \<Rightarrow> 'q feed_state" where
  "feed_step parse push pop e s =
     (case e of
        Received raw \<Rightarrow>
          (let (ok, h, q) = feed_handle parse push raw (fs_handler s) (fs_ring s);
               out = (if ok then [snd (parse raw zero_message)] else [])
           in s\<lparr>fs_handler := h, fs_ring := q, fs_pushed := fs_pushed s @ out,
                fs_session := fs_session s @ out\<rparr>)
      | FeedDrop \<Rightarrow>
          s\<lparr>fs_handler := feed_on_reconnect (feed_on_disconnect (fs_handler s)), fs_session := []\<rparr>
      | Drain \<Rightarrow>
          (let (r, q) = pop (fs_ring s)
           in s\<lparr>fs_ring := q,
                fs_popped := fs_popped s @ (case r of None \<Rightarrow> [] | Some m \<Rightarrow> [m])\<rparr>))"

fun feed_run where
  "feed_run parse push pop [] s = s"
| "feed_run parse push pop (e # es) s = feed_run parse push pop es (feed_step parse push pop e s)"

lemma feed_run_append: "feed_run parse push pop (xs @ ys) s = feed_run parse push pop ys (feed_run parse push pop xs s)"
  by (induction xs arbitrary: s) simp_all

lemma accept_seq_gaps: "\<exists>gs. fh_gaps (snd (feed_accept_seq i s h)) = fh_gaps h @ gs"
  by (simp add: feed_accept_seq_def Let_def split: option.split)

lemma handle_gaps: "\<exists>gs. fh_gaps (fst (snd (feed_handle parse push raw h q))) = fh_gaps h @ gs"
  using accept_seq_gaps by (simp add: feed_handle_def Let_def case_prod_unfold split: parse_result.split)

definition feed_start :: "bool \<Rightarrow> 'q \<Rightarrow> 'q feed_state" where
  "feed_start has_on_gap q = \<lparr>fs_handler = feed_init has_on_gap, fs_ring = q, fs_pushed = [],
     fs_popped = [], fs_session = []\<rparr>"

text \<open>Strictly increasing sequence numbers on every stream.\<close>

definition increasing :: "message list \<Rightarrow> bool" where
  "increasing ms \<longleftrightarrow> sorted_wrt (\<lambda>a b. m_stream_id a = m_stream_id b \<longrightarrow> m_seq a < m_seq b) ms"

definition covered :: "message list \<Rightarrow> feed_handler \<Rightarrow> bool" where
  "covered ms h \<longleftrightarrow> (\<forall>m \<in> set ms. \<exists>s. fh_last_seq h (m_stream_id m) = Some s \<and> m_seq m \<le> s)"

lemma accept_covers:
  assumes "covered ms h" "feed_accept_seq i s h = (ok, h')"
  shows "covered ms h'"
    "ok \<Longrightarrow> m_stream_id m = i \<Longrightarrow> m_seq m = s \<Longrightarrow> increasing ms \<Longrightarrow>
       increasing (ms @ [m]) \<and> covered (ms @ [m]) h'"
proof -
  have new: "ok \<Longrightarrow> fh_last_seq h' = (fh_last_seq h)(i \<mapsto> s) \<and>
      (\<forall>t. fh_last_seq h i = Some t \<longrightarrow> t < s)"
    and old: "\<not> ok \<Longrightarrow> h' = h"
    using assms(2) by (auto simp: feed_accept_seq_def Let_def split: option.splits if_splits)
  show c: "covered ms h'"
  proof (cases ok)
    case True
    have "\<exists>t. fh_last_seq h' (m_stream_id x) = Some t \<and> m_seq x \<le> t" if x: "x \<in> set ms" for x
    proof -
      obtain t where t: "fh_last_seq h (m_stream_id x) = Some t" "m_seq x \<le> t"
        using assms(1) x by (auto simp: covered_def)
      then show ?thesis using new [OF True]
        by (cases "m_stream_id x = i") (auto intro: order_trans less_imp_le)
    qed
    then show ?thesis by (simp add: covered_def)
  qed (use assms(1) old in simp)
  show "increasing (ms @ [m]) \<and> covered (ms @ [m]) h'"
    if "ok" "m_stream_id m = i" "m_seq m = s" "increasing ms"
  proof -
    have "m_stream_id x = i \<Longrightarrow> m_seq x < s" if "x \<in> set ms" for x
      using that assms(1) new [OF \<open>ok\<close>] by (fastforce simp: covered_def intro: le_less_trans)
    then show ?thesis using that c new by (auto simp: increasing_def sorted_wrt_append covered_def)
  qed
qed

definition feed_good :: "('q \<Rightarrow> bool) \<Rightarrow> ('q \<Rightarrow> message list) \<Rightarrow> 'q feed_state \<Rightarrow> bool" where
  "feed_good ring_ok items s \<longleftrightarrow> ring_ok (fs_ring s) \<and> fs_pushed s = fs_popped s @ items (fs_ring s) \<and>
     suffix (fs_session s) (fs_pushed s) \<and>
     increasing (fs_session s) \<and> covered (fs_session s) (fs_handler s)"

lemma suffix_snoc: "suffix xs (as @ bs) \<Longrightarrow> suffix (xs @ [x]) (as @ bs @ [x])"
  by (auto simp: suffix_def)

locale feed_pipeline = bounded_fifo push pop contents inv bound
  for push :: "message \<Rightarrow> 'q \<Rightarrow> bool \<times> 'q"
    and pop :: "'q \<Rightarrow> message option \<times> 'q"
    and contents :: "'q \<Rightarrow> message list"
    and inv :: "'q \<Rightarrow> bool"
    and bound :: nat +
  fixes parse :: "'raw \<Rightarrow> message \<Rightarrow> parse_result \<times> message"
begin

text \<open>The four outcomes of a frame.\<close>

lemma handle_cases:
  assumes "inv q"
  obtains (pushed) out h' q' where "parse raw zero_message = (POk, out)"
      "feed_accept_seq (m_stream_id out) (m_seq out) h = (True, h')"
      "length (contents q) < bound" "feed_handle parse push raw h q = (True, h', q')"
      "inv q'" "contents q' = contents q @ [out]"
    | (dropped) out h' ok where "parse raw zero_message = (POk, out)"
      "feed_accept_seq (m_stream_id out) (m_seq out) h = (ok, h')"
      "ok \<Longrightarrow> length (contents q) = bound" "feed_handle parse push raw h q = (False, h', q)"
    | (beat) out h' ok where "parse raw zero_message = (PHeartbeat, out)"
      "feed_accept_seq (m_stream_id out) (m_seq out) h = (ok, h')"
      "feed_handle parse push raw h q = (False, h', q)"
    | (ignored) out r where "parse raw zero_message = (r, out)" "r = PSkipped \<or> r = PMalformed"
      "feed_handle parse push raw h q = (False, h, q)"
proof -
  obtain r out where p: "parse raw zero_message = (r, out)" by force
  obtain ok h' where a: "feed_accept_seq (m_stream_id out) (m_seq out) h = (ok, h')" by force
  show thesis
  proof (cases r)
    case POk
    show thesis
    proof (cases ok)
      case False
      then show thesis
        by (intro dropped [OF _ a]) (auto simp: feed_handle_def p POk a)
    next
      case True
      show thesis using assms
      proof (cases rule: push_cases [of q out])
        case (room q')
        then show thesis
          using a True by (intro pushed [of out h' q']) (auto simp: feed_handle_def p POk)
      next
        case full
        then show thesis
          using True by (intro dropped [OF _ a]) (auto simp: feed_handle_def p POk a)
      qed
    qed
  next
    case PHeartbeat
    then show thesis by (intro beat [OF _ a]) (auto simp: feed_handle_def p a)
  next
    case PSkipped
    then show thesis by (intro ignored [of r out]) (auto simp: feed_handle_def p)
  next
    case PMalformed
    then show thesis by (intro ignored [of r out]) (auto simp: feed_handle_def p)
  qed
qed

lemma step_good:
  assumes "feed_good inv contents s"
  shows "feed_good inv contents (feed_step parse push pop e s)"
proof (cases e)
  case (Received raw)
  have inv: "inv (fs_ring s)" using assms by (simp add: feed_good_def)
  then show ?thesis
  proof (cases rule: handle_cases [where raw = raw and h = "fs_handler s"])
    case (pushed out h' q')
    then show ?thesis
      using assms accept_covers(2) [OF _ pushed(2), of "fs_session s" out] suffix_snoc
      by (auto simp: feed_good_def feed_step_def Received Let_def)
  next
    case (dropped out h' ok)
    then show ?thesis
      using assms accept_covers(1) [OF _ dropped(2)] by (auto simp: feed_good_def feed_step_def Received Let_def)
  next
    case (beat out h' ok)
    then show ?thesis
      using assms accept_covers(1) [OF _ beat(2)] by (auto simp: feed_good_def feed_step_def Received Let_def)
  next
    case (ignored out r)
    then show ?thesis using assms by (auto simp: feed_good_def feed_step_def Received Let_def)
  qed
next
  case FeedDrop
  then show ?thesis using assms by (simp add: feed_good_def feed_step_def increasing_def covered_def)
next
  case Drain
  have inv: "inv (fs_ring s)" using assms by (simp add: feed_good_def)
  then show ?thesis
  proof (cases rule: pop_cases)
    case (front x q')
    then show ?thesis using assms by (auto simp: feed_good_def feed_step_def Drain)
  next
    case none
    then show ?thesis using assms by (auto simp: feed_good_def feed_step_def Drain)
  qed
qed

lemma run_good: "feed_good inv contents s \<Longrightarrow> feed_good inv contents (feed_run parse push pop es s)"
  by (induction es arbitrary: s) (simp_all add: step_good)

lemma start_good: "inv q \<Longrightarrow> contents q = [] \<Longrightarrow> feed_good inv contents (feed_start b q)"
  by (simp add: feed_good_def feed_start_def increasing_def covered_def)

lemma run_delivers:
  assumes "inv q" "contents q = []" "feed_run parse push pop es (feed_start b q) = s"
  shows "fs_pushed s = fs_popped s @ contents (fs_ring s) \<and> length (contents (fs_ring s)) \<le> bound \<and>
    suffix (fs_session s) (fs_pushed s) \<and> increasing (fs_session s)"
  using run_good [OF start_good [OF assms(1,2)], of es b] assms(3) contents_bound
  unfolding feed_good_def by blast

end

interpretation spsc_feed: feed_pipeline "spsc_try_push cap" "spsc_try_pop cap"
    "spsc_contents cap" "spsc_ok cap" "unat cap" parse
  for cap parse
  by (intro feed_pipeline.intro spsc_ring.bounded_fifo_axioms)


text \<open>C5: From a fresh handler and an empty ring, through any interleaving of received frames, feed
  drops and drains, the consumer gets exactly the messages for which \<open>handle\<close> returned true, in that
  order, up to those still in the ring; and what is pushed after a reset has strictly increasing
  sequence numbers on every stream, heartbeats and dropped ticks in between or not.\<close>

theorem feed_delivers_increasing:
  assumes "capacity_ok cap" "length junk = unat cap"
    "feed_run parse (spsc_try_push cap) (spsc_try_pop cap) es (feed_start b (spsc_init junk)) = s"
  shows "fs_pushed s = fs_popped s @ spsc_contents cap (fs_ring s) \<and>
    length (spsc_contents cap (fs_ring s)) \<le> unat cap \<and>
    suffix (fs_session s) (fs_pushed s) \<and> increasing (fs_session s)"
  using assms spsc_inv_init [OF assms(2)]
  by (intro spsc_feed.run_delivers) (simp_all add: spsc_ok_def)

text \<open>An adapter for the examples: a frame is its own parse result.\<close>

definition echo_parse :: "parse_result \<times> u32 \<times> u64 \<Rightarrow> message \<Rightarrow> parse_result \<times> message" where
  "echo_parse raw m = (case raw of (r, i, s) \<Rightarrow> (r, m\<lparr>m_stream_id := i, m_seq := s\<rparr>))"

theorem feed_delivers_increasing_witness:
  "case feed_run echo_parse (spsc_try_push 2) (spsc_try_pop 2)
     [Received (POk, 1, 5), Received (PHeartbeat, 1, 6), Received (POk, 1, 6), Received (POk, 1, 7), Drain,
      FeedDrop, Received (POk, 1, 3)] (feed_start True (spsc_init [zero_message, zero_message])) of
     s \<Rightarrow> fs_pushed s = fs_popped s @ spsc_contents 2 (fs_ring s) \<and> increasing (fs_session s) \<and>
          map m_seq (fs_pushed s) = [5, 7, 3]"
proof -
  define s where "s = feed_run echo_parse (spsc_try_push 2) (spsc_try_pop 2)
     [Received (POk, 1, 5), Received (PHeartbeat, 1, 6), Received (POk, 1, 6), Received (POk, 1, 7), Drain,
      FeedDrop, Received (POk, 1, 3)] (feed_start True (spsc_init [zero_message, zero_message]))"
  have "capacity_ok 2" "length [zero_message, zero_message] = unat (2 :: u64)"
    by (simp_all add: capacity_ok_def)
  note t = feed_delivers_increasing [OF this s_def [symmetric]]
  have "map m_seq (fs_pushed s) = [5, 7, 3]"
    unfolding s_def by code_simp
  then show ?thesis using t by (simp add: s_def)
qed

text \<open>What one frame does to a ring of any capacity: \<open>handle\<close> returns true exactly when the adapter
  found a tick, its number is new on its stream and the ring has room, and then the tick is the new
  last item; in every other case the ring is untouched. A tick that met a full ring has still been
  accepted by the gap detector.\<close>

theorem feed_handle_outcome:
  assumes "spsc_ok cap q" "parse raw zero_message = (r, out)"
    "feed_accept_seq (m_stream_id out) (m_seq out) h = (ok, h1)"
    "feed_handle parse (spsc_try_push cap) raw h q = (res, h', q')"
  shows "(res \<longleftrightarrow> r = POk \<and> ok \<and> length (spsc_contents cap q) < unat cap) \<and>
    spsc_contents cap q' = spsc_contents cap q @ (if res then [out] else []) \<and>
    h' = (if r = POk \<or> r = PHeartbeat then h1 else h)"
  using assms(1)
proof (cases rule: spsc_feed.handle_cases [of cap q parse raw h])
  case (pushed out' h2 q2)
  then show ?thesis using assms by auto
next
  case (dropped out' h2 ok')
  then show ?thesis using assms by auto
next
  case (beat out' h2 ok')
  then show ?thesis using assms by auto
next
  case (ignored out' r')
  then show ?thesis using assms by auto
qed

theorem feed_handle_outcome_witness:
  "fst (feed_handle echo_parse (spsc_try_push 1) (POk, 1, 5) (feed_init True) (spsc_init [zero_message]))"
proof -
  obtain res h' q' where f: "feed_handle echo_parse (spsc_try_push 1) (POk, 1, 5) (feed_init True)
      (spsc_init [zero_message]) = (res, h', q')"
    by (cases "feed_handle echo_parse (spsc_try_push 1) (POk, 1, 5) (feed_init True) (spsc_init [zero_message])")
  obtain ok h1 where a: "feed_accept_seq 1 5 (feed_init True) = (ok, h1)" by force
  have ok: "spsc_ok 1 (spsc_init [zero_message])"
    by (simp add: spsc_ok_def capacity_ok_def spsc_inv_init)
  have p: "echo_parse (POk, 1, 5) zero_message = (POk, zero_message\<lparr>m_stream_id := 1, m_seq := 5\<rparr>)"
    by (simp add: echo_parse_def)
  have "ok" using a by (simp add: feed_accept_seq_def feed_init_def)
  then show ?thesis using feed_handle_outcome [OF ok p _ f, of ok h1] a by (simp add: f)
qed

end
