(* ===== verification/Feed_Adapter.thy ===== *)
theory Feed_Adapter
  imports Feed_Pipeline
begin

text \<open>
  The contract between \<open>FeedHandler\<close> and an adapter: whatever \<open>parse\<close> returns as a tick says what the
  frame says. The relation \<open>says\<close> is the adapter's own; the pipeline carries it from the frames to the
  consumer.
\<close>

locale feed_adapter =
  fixes parse :: "'raw \<Rightarrow> message \<Rightarrow> parse_result \<times> message"
    and says :: "'raw \<Rightarrow> message \<Rightarrow> bool"
  assumes parse_says: "parse raw zero_message = (POk, out) \<Longrightarrow> says raw out"

definition backed :: "('raw \<Rightarrow> message \<Rightarrow> bool) \<Rightarrow> 'raw feed_event list \<Rightarrow> message \<Rightarrow> bool" where
  "backed says es m \<longleftrightarrow> (\<exists>raw. Received raw \<in> set es \<and> says raw m)"

locale adapted_pipeline = feed_pipeline push pop contents inv bound parse + feed_adapter parse says
  for push :: "message \<Rightarrow> 'q \<Rightarrow> bool \<times> 'q"
    and pop :: "'q \<Rightarrow> message option \<times> 'q"
    and contents :: "'q \<Rightarrow> message list"
    and inv :: "'q \<Rightarrow> bool"
    and bound :: nat
    and parse :: "'raw \<Rightarrow> message \<Rightarrow> parse_result \<times> message"
    and says :: "'raw \<Rightarrow> message \<Rightarrow> bool"
begin

lemma step_pushed:
  assumes "feed_good inv contents s"
  shows "fs_pushed (feed_step parse push pop e s) = fs_pushed s \<or>
    (\<exists>raw m. e = Received raw \<and> says raw m \<and> fs_pushed (feed_step parse push pop e s) = fs_pushed s @ [m])"
proof (cases e)
  case (Received raw)
  have "inv (fs_ring s)" using assms by (simp add: feed_good_def)
  then show ?thesis
  proof (cases rule: handle_cases [of _ raw "fs_handler s"])
    case (pushed out h' q')
    then show ?thesis using parse_says [OF pushed(1)] by (auto simp: feed_step_def Received Let_def)
  qed (auto simp: feed_step_def Received Let_def)
qed (auto simp: feed_step_def split: prod.splits)

lemma run_backed:
  "feed_good inv contents s \<Longrightarrow> list_all (backed says es0) (fs_pushed s) \<Longrightarrow> set es \<subseteq> set es0 \<Longrightarrow>
    list_all (backed says es0) (fs_pushed (feed_run parse push pop es s))"
proof (induction es arbitrary: s)
  case (Cons e es)
  have "list_all (backed says es0) (fs_pushed (feed_step parse push pop e s))"
    using step_pushed [OF Cons.prems(1), of e]
  proof
    assume "\<exists>raw m. e = Received raw \<and> says raw m \<and> fs_pushed (feed_step parse push pop e s) = fs_pushed s @ [m]"
    then obtain raw m where e: "e = Received raw" "says raw m"
      "fs_pushed (feed_step parse push pop e s) = fs_pushed s @ [m]" by blast
    then have "backed says es0 m" using Cons.prems(3) by (auto simp: backed_def)
    then show ?thesis using Cons.prems(2) e(3) by simp
  qed (use Cons.prems(2) in simp)
  then show ?case using Cons.IH [OF step_good [OF Cons.prems(1)]] Cons.prems(3) by simp
qed simp

lemma run_delivers_backed:
  assumes "inv q" "contents q = []" "feed_run parse push pop es (feed_start b q) = s"
  shows "list_all (backed says es) (fs_popped s)"
proof -
  have "list_all (backed says es) (fs_pushed s)"
    using run_backed [OF start_good [OF assms(1,2)], of es b es] assms(3) by (simp add: feed_start_def)
  then show ?thesis using run_delivers [OF assms] by (simp add: list_all_append)
qed

end

end
