(* ===== verification/Coinbase.thy ===== *)
theory Coinbase
  imports Feed_Adapter Text_Input Json_Dom
begin

text \<open>
  The Coinbase adapter, \<open>include/feed/coinbase.hpp\<close>: \<open>CoinbaseTickerHandler::parse\<close> with its ticker and
  heartbeat branches, on the simdjson accessors of \<open>Json_Dom\<close>. The early returns are the branches of
  the definitions, in the order of the code; \<open>out\<close> is threaded through and comes back untouched on
  every error.
\<close>

definition parse_decimal :: "string \<Rightarrow> double option" where
  "parse_decimal s =
     (if s = [] \<or> length s \<ge> 64 then None
      else (let (v, rest) = strtod s in if rest \<noteq> [] then None else Some v))"

type_synonym product_map = "string \<rightharpoonup> u32"

definition coinbase_lookup :: "product_map \<Rightarrow> string \<Rightarrow> u32 option" where
  "coinbase_lookup products product = products product"

definition parse_ticker :: "'e dom \<Rightarrow> product_map \<Rightarrow> 'e \<Rightarrow> message \<Rightarrow> parse_result \<times> message" where
  "parse_ticker api products doc out =
     (case field_string api doc ''product_id'' of
        None \<Rightarrow> (PMalformed, out)
      | Some product \<Rightarrow>
     (case coinbase_lookup products product of
        None \<Rightarrow> (PSkipped, out)
      | Some stream_id \<Rightarrow>
     (case field_string api doc ''price'' of
        None \<Rightarrow> (PMalformed, out)
      | Some price_sv \<Rightarrow>
     (case parse_decimal price_sv of
        None \<Rightarrow> (PMalformed, out)
      | Some price \<Rightarrow>
     (case field_string api doc ''time'' of
        None \<Rightarrow> (PMalformed, out)
      | Some time_sv \<Rightarrow>
     (case parse_rfc3339_ns time_sv of
        None \<Rightarrow> (PMalformed, out)
      | Some ts_ns \<Rightarrow>
     (case field_uint64 api doc ''trade_id'' of
        None \<Rightarrow> (PMalformed, out)
      | Some trade_id \<Rightarrow>
          (POk, out\<lparr>m_stream_id := stream_id, m_ts_ns := ts_ns, m_value := price, m_seq := trade_id\<rparr>))))))))"

definition parse_heartbeat :: "'e dom \<Rightarrow> product_map \<Rightarrow> 'e \<Rightarrow> message \<Rightarrow> parse_result \<times> message" where
  "parse_heartbeat api products doc out =
     (case field_string api doc ''product_id'' of
        None \<Rightarrow> (PMalformed, out)
      | Some product \<Rightarrow>
     (case coinbase_lookup products product of
        None \<Rightarrow> (PSkipped, out)
      | Some stream_id \<Rightarrow>
     (case field_uint64 api doc ''last_trade_id'' of
        None \<Rightarrow> (PMalformed, out)
      | Some last_trade_id \<Rightarrow> (PHeartbeat, out\<lparr>m_stream_id := stream_id, m_seq := last_trade_id\<rparr>))))"

definition coinbase_parse :: "'e dom \<Rightarrow> product_map \<Rightarrow> string \<Rightarrow> message \<Rightarrow> parse_result \<times> message" where
  "coinbase_parse api products raw out =
     (case dom_parse api raw of
        None \<Rightarrow> (PMalformed, out)
      | Some doc \<Rightarrow>
     (case field_string api doc ''type'' of
        None \<Rightarrow> (PMalformed, out)
      | Some type \<Rightarrow>
          if type = ''ticker'' then parse_ticker api products doc out
          else if type = ''heartbeat'' then parse_heartbeat api products doc out
          else (PSkipped, out)))"

section \<open>What a frame says\<close>

text \<open>The reference reading of a frame: which facts of the document make a message its tick.\<close>

definition ticker_says :: "'e dom \<Rightarrow> product_map \<Rightarrow> string \<Rightarrow> message \<Rightarrow> bool" where
  "ticker_says api products raw m \<longleftrightarrow>
     (\<exists>doc product price time. dom_parse api raw = Some doc \<and>
        field_string api doc ''type'' = Some ''ticker'' \<and>
        field_string api doc ''product_id'' = Some product \<and> products product = Some (m_stream_id m) \<and>
        field_string api doc ''price'' = Some price \<and> parse_decimal price = Some (m_value m) \<and>
        field_string api doc ''time'' = Some time \<and> parse_rfc3339_ns time = Some (m_ts_ns m) \<and>
        field_uint64 api doc ''trade_id'' = Some (m_seq m))"

text \<open>A frame nobody asked for: neither ticker nor heartbeat, or of a product that is not configured.\<close>

definition unroutable :: "'e dom \<Rightarrow> product_map \<Rightarrow> string \<Rightarrow> bool" where
  "unroutable api products raw \<longleftrightarrow>
     (\<exists>doc type. dom_parse api raw = Some doc \<and> field_string api doc ''type'' = Some type \<and>
        (type \<in> {''ticker'', ''heartbeat''} \<longrightarrow>
           (\<exists>product. field_string api doc ''product_id'' = Some product \<and> products product = None)))"

lemmas coinbase_defs = coinbase_parse_def parse_ticker_def parse_heartbeat_def coinbase_lookup_def

lemma coinbase_ok_iff:
  "fst (coinbase_parse api products raw out) = POk \<longleftrightarrow> (\<exists>m. ticker_says api products raw m)"
proof
  assume "fst (coinbase_parse api products raw out) = POk"
  then have "ticker_says api products raw (snd (coinbase_parse api products raw out))"
    by (auto simp: coinbase_defs ticker_says_def split: option.splits if_splits)
  then show "\<exists>m. ticker_says api products raw m" ..
next
  assume "\<exists>m. ticker_says api products raw m"
  then show "fst (coinbase_parse api products raw out) = POk"
    by (auto simp: coinbase_defs ticker_says_def)
qed

lemma coinbase_ok_says:
  "coinbase_parse api products raw out = (POk, m) \<Longrightarrow>
     ticker_says api products raw m \<and> m_pad0 m = m_pad0 out \<and> m_pad1 m = m_pad1 out"
  by (auto simp: coinbase_defs ticker_says_def split: option.splits if_splits)

lemma coinbase_frame:
  assumes "coinbase_parse api products raw out = (r, m)"
  shows "r = PSkipped \<or> r = PMalformed \<Longrightarrow> m = out"
    "r = PHeartbeat \<Longrightarrow> m = out\<lparr>m_stream_id := m_stream_id m, m_seq := m_seq m\<rparr>"
  using assms by (auto simp: coinbase_defs split: option.splits if_splits)

lemma coinbase_skipped_iff:
  "fst (coinbase_parse api products raw out) = PSkipped \<longleftrightarrow> unroutable api products raw"
  by (auto simp: coinbase_defs unroutable_def split: option.splits)

text \<open>C20: Every frame is classified, and nothing is half-written: a tick exactly when the document has all
  the fields of a ticker of a configured product, well formed, and then the message carries them; skipped
  exactly when it is of another type or another product, even when its other fields are broken; on skipped and
  malformed frames the message is untouched, and a heartbeat sets the stream and the number only.\<close>

theorem coinbase_parse_classifies:
  "case coinbase_parse api products raw out of (r, m) \<Rightarrow>
     (r = POk \<longleftrightarrow> (\<exists>m. ticker_says api products raw m)) \<and>
     (r = PSkipped \<longleftrightarrow> unroutable api products raw) \<and>
     (if r = POk then ticker_says api products raw m \<and> m_pad0 m = m_pad0 out \<and> m_pad1 m = m_pad1 out
      else if r = PHeartbeat then m = out\<lparr>m_stream_id := m_stream_id m, m_seq := m_seq m\<rparr>
      else m = out)"
proof -
  obtain r m where p: "coinbase_parse api products raw out = (r, m)" by force
  show ?thesis
    using coinbase_ok_iff [of api products raw out] coinbase_skipped_iff [of api products raw out]
      coinbase_ok_says [of api products raw out m] coinbase_frame [OF p] unfolding p
    by (cases r) simp_all
qed

section \<open>Through the pipeline\<close>

interpretation coinbase_adapter: feed_adapter "coinbase_parse api products" "ticker_says api products"
  for api products
  by unfold_locales (auto dest: coinbase_ok_says)

interpretation coinbase_feed: adapted_pipeline "spsc_try_push cap" "spsc_try_pop cap"
    "spsc_contents cap" "spsc_ok cap" "unat cap" "coinbase_parse api products" "ticker_says api products"
  for cap api products
  by (intro adapted_pipeline.intro spsc_feed.feed_pipeline_axioms coinbase_adapter.feed_adapter_axioms)

text \<open>From the web socket to the detectors: whatever frames arrive, with feed drops and drains in
  between, every message the consumer gets is what some received ticker frame of a configured
  product says, and within a connection the trade ids on every stream increase strictly.\<close>

theorem coinbase_delivers_tickers:
  assumes "capacity_ok cap" "length junk = unat cap"
    "feed_run (coinbase_parse api products) (spsc_try_push cap) (spsc_try_pop cap) es
       (feed_start b (spsc_init junk)) = s"
  shows "list_all (\<lambda>m. m_stream_id m \<in> ran products \<and>
      (\<exists>raw. Received raw \<in> set es \<and> ticker_says api products raw m)) (fs_popped s) \<and>
    increasing (fs_session s) \<and> prefix (fs_popped s) (fs_pushed s)"
proof -
  have q: "spsc_ok cap (spsc_init junk)" "spsc_contents cap (spsc_init junk) = []"
    using assms(1) spsc_inv_init [OF assms(2)] by (simp_all add: spsc_ok_def)
  have ran: "ticker_says api products raw m \<Longrightarrow> m_stream_id m \<in> ran products" for raw m
    by (auto simp: ticker_says_def intro: ranI)
  show ?thesis
    using coinbase_feed.run_delivers_backed [OF q assms(3)] spsc_feed.run_delivers [OF q assms(3)] ran
    by (auto simp: list_all_iff backed_def prefix_def)
qed

section \<open>A well-formed ticker\<close>

lemma digits_strtod:
  assumes "list_all is_digit ip" "list_all is_digit fp" "ip \<noteq> []"
  shows "strtod (ip @ (if fp = [] then [] else CHR ''.'' # fp)) =
    (decimal_double False (nat (digits_value 0 (ip @ fp))) (- int (length fp)), [])"
proof -
  obtain c cs where ip: "ip = c # cs" using assms(3) by (cases ip) auto
  have c: "is_digit c" using assms(1) ip by simp
  have low: "to_lower x = x" if "is_digit x" for x using that by (simp add: is_digit_def to_lower_def)
  have neq: "x \<noteq> y" if "is_digit x" "\<not> is_digit y" for x y using that by auto
  have nd: "\<not> is_digit CHR ''.''" "\<not> is_digit CHR ''i''" "\<not> is_digit CHR ''n''" "\<not> is_digit CHR ''x''"
    "\<not> is_digit CHR ''-''" "\<not> is_digit CHR ''+''" by (simp_all add: is_digit_def)
  define s where "s = ip @ (if fp = [] then [] else CHR ''.'' # fp)"
  have "\<not> is_space c" using c by (auto simp: is_space_def is_digit_def)
  then have sp: "dropWhile is_space s = s" by (simp add: s_def ip)
  have sg: "scan_sign s = (False, s)" using neq [OF c] nd by (simp add: scan_sign_def s_def ip)
  have inf: "strtod_inf False s = None" "strtod_nan s = None"
    using neq [OF c] nd c by (simp_all add: strtod_inf_def strtod_nan_def s_def ip low)
  have hex: "strtod_hex False s = None"
  proof (cases "s = [c]")
    case False
    then obtain d r where "s = c # d # r" "is_digit d \<or> d = CHR ''.''"
      using assms(1) ip by (cases cs) (auto simp: s_def split: if_splits)
    then show ?thesis using nd low [of d] by (auto simp: strtod_hex_def to_lower_def)
  qed (simp add: strtod_hex_def)
  have tk: "takeWhile is_digit fp = fp" "dropWhile is_digit fp = []"
    using assms(2) by (auto simp: list_all_iff takeWhile_eq_all_conv)
  have sd: "scan_digits is_digit s = (ip, fp, [])"
    using assms(1) nd(1) tk
    by (auto simp: scan_digits_def s_def list_all_iff takeWhile_append dropWhile_append Let_def takeWhile_eq_all_conv)
  show ?thesis
    using sp sg inf hex sd assms(3) unfolding s_def [symmetric]
    by (simp add: strtod_def strtod_dec_def scan_exponent_def)
qed

lemma coinbase_ticker_read:
  assumes "dom_parse api raw = Some doc" "field_string api doc ''type'' = Some ''ticker''"
    "field_string api doc ''product_id'' = Some product" "products product = Some sid"
    "field_string api doc ''price'' = Some (ip @ (if fp = [] then [] else CHR ''.'' # fp))"
    "list_all is_digit ip" "list_all is_digit fp" "ip \<noteq> []" "length ip + length fp < 63"
    "field_string api doc ''time'' = Some (print_timestamp y mo d h mi s n f)"
    "y \<le> 9999" "1 \<le> mo" "mo \<le> 12" "1 \<le> d" "d \<le> 31" "h \<le> 23" "mi \<le> 59" "s \<le> 59" "n \<le> 9" "f < 10 ^ n"
    "field_uint64 api doc ''trade_id'' = Some tid"
  shows "coinbase_parse api products raw out = (POk, out\<lparr>m_stream_id := sid,
      m_ts_ns := word_of_int ((day_number (int y, mo, d) * 86400 + int (h * 3600 + mi * 60 + s)) * 1000000000
        + int f * 10 ^ (9 - n)),
      m_value := decimal_double False (nat (digits_value 0 (ip @ fp))) (- int (length fp)), m_seq := tid\<rparr>)"
proof -
  have "parse_decimal (ip @ (if fp = [] then [] else CHR ''.'' # fp)) =
      Some (decimal_double False (nat (digits_value 0 (ip @ fp))) (- int (length fp)))"
    using digits_strtod [OF assms(6-8)] assms(8,9) by (simp add: parse_decimal_def)
  then show ?thesis
    using assms(1-5,10,21) rfc3339_print [OF assms(11-20)]
    by (simp add: coinbase_parse_def parse_ticker_def coinbase_lookup_def)
qed

text \<open>C21: A well-formed ticker is read exactly: for a configured product, a price written with digits and
  an optional fraction in fewer than 64 characters, and a UTC time stamp of a calendar date from 1970 to 2261, the
  message gets the configured stream, the trade id, the double the C library reads for the decimal
  number, and as time stamp exactly the nanoseconds since 1970-01-01, the days counted by the calendar's rules.\<close>

theorem coinbase_reads_ticker:
  assumes "dom_parse api raw = Some doc" "field_string api doc ''type'' = Some ''ticker''"
    "field_string api doc ''product_id'' = Some product" "products product = Some sid"
    "field_string api doc ''price'' = Some (ip @ (if fp = [] then [] else CHR ''.'' # fp))"
    "list_all is_digit ip" "list_all is_digit fp" "ip \<noteq> []" "length ip + length fp < 63"
    "field_string api doc ''time'' = Some (print_timestamp y mo d h mi s n f)"
    "1970 \<le> y" "y \<le> 2261" "valid_date (int y, mo, d)" "h \<le> 23" "mi \<le> 59" "s \<le> 59" "n \<le> 9" "f < 10 ^ n"
    "field_uint64 api doc ''trade_id'' = Some tid"
  shows "\<exists>ts. coinbase_parse api products raw out = (POk, out\<lparr>m_stream_id := sid, m_ts_ns := ts,
      m_value := decimal_double False (nat (digits_value 0 (ip @ fp))) (- int (length fp)), m_seq := tid\<rparr>) \<and>
    sint ts = (int (calendar_days y mo d) * 86400 + int (h * 3600 + mi * 60 + s)) * 1000000000 + int f * 10 ^ (9 - n)"
proof -
  have r: "y \<le> 9999" "1 \<le> mo" "mo \<le> 12" "1 \<le> d" "d \<le> 31"
    using assms(12,13) by (auto simp: valid_date_def month_days_def split: if_splits)
  have "coinbase_parse api products raw out = (POk, out\<lparr>m_stream_id := sid,
      m_ts_ns := word_of_int ((day_number (int y, mo, d) * 86400 + int (h * 3600 + mi * 60 + s)) * 1000000000
        + int f * 10 ^ (9 - n)),
      m_value := decimal_double False (nat (digits_value 0 (ip @ fp))) (- int (length fp)), m_seq := tid\<rparr>)"
    by (rule coinbase_ticker_read) (fact assms r)+
  then show ?thesis using timestamp_fits [OF assms(11-18)] by blast
qed

text \<open>A configured product, a heartbeat and an unconfigured one.\<close>

definition example_dom :: "doc dom" where
  "example_dom = doc_dom (map_of [
     (''tick'', Object [(''type'', Text ''ticker''), (''product_id'', Text ''BTC-USD''), (''price'', Text (''1'' @ (if ''5'' = [] then [] else CHR ''.'' # ''5''))),
       (''time'', Text (print_timestamp 2026 7 8 12 34 56 1 5)), (''trade_id'', Uint 7)]),
     (''beat'', Object [(''type'', Text ''heartbeat''), (''product_id'', Text ''BTC-USD''), (''last_trade_id'', Uint 9)]),
     (''other'', Object [(''type'', Text ''ticker''), (''product_id'', Text ''DOGE-USD'')])])"

lemma example_tick_ok:
  assumes "products ''BTC-USD'' = Some 10"
  shows "coinbase_parse example_dom products ''tick'' out = (POk, out\<lparr>m_stream_id := 10,
      m_ts_ns := word_of_int ((day_number (int 2026, 7, 8) * 86400 + int (12 * 3600 + 34 * 60 + 56)) * 1000000000
        + int 5 * 10 ^ (9 - 1)),
      m_value := decimal_double False (nat (digits_value 0 (''1'' @ ''5''))) (- int (length ''5'')), m_seq := 7\<rparr>)"
  by (rule coinbase_ticker_read)
    (simp add: assms example_dom_def doc_dom_def field_string_def field_uint64_def is_digit_def)+

lemmas example_tick = example_tick_ok [of "[''BTC-USD'' \<mapsto> 10]", simplified]

theorem coinbase_reads_ticker_witness:
  "\<exists>ts. coinbase_parse example_dom [''BTC-USD'' \<mapsto> 10] ''tick'' zero_message = (POk, zero_message\<lparr>m_stream_id := 10, m_ts_ns := ts,
      m_value := decimal_double False (nat (digits_value 0 (''1'' @ ''5''))) (- int (length ''5'')), m_seq := 7\<rparr>) \<and>
    sint ts = (int (calendar_days 2026 7 8) * 86400 + int (12 * 3600 + 34 * 60 + 56)) * 1000000000 + int 5 * 10 ^ (9 - 1)"
  by (rule coinbase_reads_ticker)
    (simp add: example_dom_def doc_dom_def field_string_def field_uint64_def is_digit_def valid_date_def month_days_def)+

lemma example_other:
  "coinbase_parse example_dom [''BTC-USD'' \<mapsto> 10] ''other'' out = (PSkipped, out)"
  by (simp add: example_dom_def doc_dom_def field_string_def coinbase_defs)

theorem coinbase_delivers_tickers_witness:
  "case feed_run (coinbase_parse example_dom [''BTC-USD'' \<mapsto> 10]) (spsc_try_push 2) (spsc_try_pop 2)
     [Received ''tick'', Received ''other'', Drain] (feed_start True (spsc_init [zero_message, zero_message])) of
     s \<Rightarrow> list_all (\<lambda>m. m_stream_id m \<in> {10}) (fs_popped s) \<and> map m_seq (fs_popped s) = [7]"
proof -
  define s where "s = feed_run (coinbase_parse example_dom [''BTC-USD'' \<mapsto> 10]) (spsc_try_push 2) (spsc_try_pop 2)
     [Received ''tick'', Received ''other'', Drain] (feed_start True (spsc_init [zero_message, zero_message]))"
  have "capacity_ok 2" "length [zero_message, zero_message] = unat (2 :: u64)"
    by (simp_all add: capacity_ok_def)
  note t = coinbase_delivers_tickers [OF this s_def [symmetric]]
  have "map m_seq (fs_popped s) = [7]" 
    unfolding s_def by (simp add: feed_step_def feed_handle_def example_tick example_other feed_start_def feed_init_def
        feed_accept_seq_def spsc_init_def spsc_try_push_def spsc_try_pop_def slot_index_def Let_def)
  then show ?thesis using t by (simp add: s_def [symmetric] list_all_iff del: feed_run.simps)
qed

end
