(* ===== verification/Detect_Pipeline.thy ===== *)
theory Detect_Pipeline
  imports Rules Baseline Cusum Conformal
begin

text \<open>
  The four detection layers as the daemon runs them: the body of the consumer loop of
  \<open>src/feed/coinbase_daemon_main.cpp\<close> for one message. The score is the z-score before the update (out of
  sample), the conformal threshold is asked before the score enters its window. An alert keeps what its
  text is made of.
\<close>

datatype alert_detail =
  OutOfBounds
| RateViolation
| Changepoint
| ScoreAbove double double
| GapSeq u64 u64

datatype alert_layer = LFeed | LRules | LCusum | LConformal

record alert =
  al_stream_id :: u32
  al_ts_ns :: u64
  al_layer :: alert_layer
  al_detail :: alert_detail

record detectors =
  dt_rules :: rule_checker
  dt_baseline :: baseline
  dt_cusum :: cusum
  dt_conformal :: conformal

text \<open>The consumer's locals: alpha 0.05; alpha 0.01, k 3, h 8; a window of 500.\<close>

definition alpha_05 :: double where
  "alpha_05 = 0x3FA999999999999A"

definition daemon_detectors :: "rule_checker \<Rightarrow> detectors" where
  "daemon_detectors rules = \<lparr>dt_rules = rules, dt_baseline = baseline_init alpha_05,
     dt_cusum = cusum_init alpha_01 0x4008000000000000 0x4020000000000000 1,
     dt_conformal = conf_init 500\<rparr>"

definition detect :: "message \<Rightarrow> detectors \<Rightarrow> alert list \<times> detectors" where
  "detect m s =
     (let (rr, rules) = rules_check (m_stream_id m) (m_value m) (m_ts_ns m) (dt_rules s);
          rule_alerts =
            (if rr \<noteq> ROk
             then [\<lparr>al_stream_id = m_stream_id m, al_ts_ns = m_ts_ns m, al_layer = LRules,
                    al_detail = (if rr = ROutOfBounds then OutOfBounds else RateViolation)\<rparr>] else []);
          z = baseline_zscore (m_stream_id m) (m_value m) (dt_baseline s);
          base = baseline_update (m_stream_id m) (m_value m) (dt_baseline s);
          score = (if d_lt z 0 then d_uminus z else z);
          (fired, cusum) = cusum_update_and_check (m_stream_id m) (m_value m) (dt_cusum s);
          cusum_alerts =
            (if fired
             then [\<lparr>al_stream_id = m_stream_id m, al_ts_ns = m_ts_ns m, al_layer = LCusum,
                    al_detail = Changepoint\<rparr>] else []);
          conf_alerts =
            (if conf_is_anomalous (m_stream_id m) score alpha_01 (dt_conformal s)
             then [\<lparr>al_stream_id = m_stream_id m, al_ts_ns = m_ts_ns m, al_layer = LConformal,
                    al_detail = ScoreAbove score (conf_threshold (m_stream_id m) alpha_01 (dt_conformal s))\<rparr>]
             else []);
          conf = conf_update (m_stream_id m) score (dt_conformal s)
      in (rule_alerts @ cusum_alerts @ conf_alerts,
          \<lparr>dt_rules = rules, dt_baseline = base, dt_cusum = cusum, dt_conformal = conf\<rparr>))"

fun detect_all :: "message list \<Rightarrow> detectors \<Rightarrow> alert list \<times> detectors" where
  "detect_all [] s = ([], s)"
| "detect_all (m # ms) s = (let (as, s) = detect m s; (as', s) = detect_all ms s in (as @ as', s))"

lemma detect_all_append:
  "detect_all (xs @ ys) s = (let (as, s) = detect_all xs s; (as', s) = detect_all ys s in (as @ as', s))"
  by (induction xs arbitrary: s) (simp_all add: Let_def case_prod_unfold)

section \<open>Streams do not interfere\<close>

text \<open>Two detector states that agree on stream \<open>i\<close> and on the parameters.\<close>

definition agree :: "u32 \<Rightarrow> detectors \<Rightarrow> detectors \<Rightarrow> bool" where
  "agree i s t \<longleftrightarrow> dt_rules s i = dt_rules t i \<and>
     bl_alpha (dt_baseline s) = bl_alpha (dt_baseline t) \<and> bl_state (dt_baseline s) i = bl_state (dt_baseline t) i \<and>
     (dt_cusum s)\<lparr>cd_state := Map.empty\<rparr> = (dt_cusum t)\<lparr>cd_state := Map.empty\<rparr> \<and>
     cd_state (dt_cusum s) i = cd_state (dt_cusum t) i \<and>
     ct_capacity (dt_conformal s) = ct_capacity (dt_conformal t) \<and>
     ct_state (dt_conformal s) i = ct_state (dt_conformal t) i"

lemma agree_refl: "agree i s s"
  by (simp add: agree_def)

text \<open>Each layer reads and writes the entry of the message's stream only.\<close>

lemma rules_local:
  "r i = r' i \<Longrightarrow> fst (rules_check i v t r) = fst (rules_check i v t r') \<and>
     snd (rules_check i v t r) i = snd (rules_check i v t r') i"
  "j \<noteq> i \<Longrightarrow> snd (rules_check i v t r) j = r j"
  by (simp_all add: rules_check_def Let_def split: option.split)

lemma baseline_local:
  "bl_state b i = bl_state b' i \<Longrightarrow> baseline_zscore i v b = baseline_zscore i v b'"
  "bl_state b i = bl_state b' i \<Longrightarrow> bl_alpha b = bl_alpha b' \<Longrightarrow>
     bl_state (baseline_update i v b) i = bl_state (baseline_update i v b') i"
  by (simp_all add: baseline_zscore_def baseline_update_def ewma_lookup_def)

lemma cusum_params:
  "c\<lparr>cd_state := Map.empty\<rparr> = c'\<lparr>cd_state := Map.empty\<rparr> \<Longrightarrow> cusum_step c v st = cusum_step c' v st"
  by (cases c; cases c') (simp add: cusum_step_def)

lemma cusum_local:
  "cd_state c i = cd_state c' i \<Longrightarrow> c\<lparr>cd_state := Map.empty\<rparr> = c'\<lparr>cd_state := Map.empty\<rparr> \<Longrightarrow>
     fst (cusum_update_and_check i v c) = fst (cusum_update_and_check i v c') \<and>
     cd_state (snd (cusum_update_and_check i v c)) i = cd_state (snd (cusum_update_and_check i v c')) i"
  "j \<noteq> i \<Longrightarrow> cd_state (snd (cusum_update_and_check i v c)) j = cd_state c j"
  "(snd (cusum_update_and_check i v c))\<lparr>cd_state := Map.empty\<rparr> = c\<lparr>cd_state := Map.empty\<rparr>"
  using cusum_params [of c c' v "cusum_lookup i c"]
  by (simp_all add: cusum_update_and_check_def cusum_lookup_def case_prod_unfold Let_def)

lemma conformal_local:
  "ct_state c i = ct_state c' i \<Longrightarrow> ct_capacity c = ct_capacity c' \<Longrightarrow>
     conf_threshold i a c = conf_threshold i a c' \<and>
     ct_state (conf_update i v c) i = ct_state (conf_update i v c') i"
  "j \<noteq> i \<Longrightarrow> ct_state (conf_update i v c) j = ct_state c j"
  "ct_capacity (conf_update i v c) = ct_capacity c"
  by (simp_all add: conf_threshold_def conf_update_def conf_lookup_def split: option.split)

lemma detect_same:
  assumes "agree (m_stream_id m) s t"
  shows "fst (detect m s) = fst (detect m t) \<and> agree (m_stream_id m) (snd (detect m s)) (snd (detect m t))"
proof -
  define i where "i = m_stream_id m"
  note a = assms [folded i_def, unfolded agree_def]
  have "fst (rules_check i v t' (dt_rules s)) = fst (rules_check i v t' (dt_rules t)) \<and>
     snd (rules_check i v t' (dt_rules s)) i = snd (rules_check i v t' (dt_rules t)) i" for v t'
    using a by (intro rules_local) blast
  moreover have "baseline_zscore i v (dt_baseline s) = baseline_zscore i v (dt_baseline t) \<and>
      bl_state (baseline_update i v (dt_baseline s)) i = bl_state (baseline_update i v (dt_baseline t)) i" for v
    using a baseline_local [of "dt_baseline s" i "dt_baseline t" v] by blast
  moreover have "fst (cusum_update_and_check i v (dt_cusum s)) = fst (cusum_update_and_check i v (dt_cusum t)) \<and>
     cd_state (snd (cusum_update_and_check i v (dt_cusum s))) i = cd_state (snd (cusum_update_and_check i v (dt_cusum t))) i \<and>
     (snd (cusum_update_and_check i v (dt_cusum s)))\<lparr>cd_state := Map.empty\<rparr> =
     (snd (cusum_update_and_check i v (dt_cusum t)))\<lparr>cd_state := Map.empty\<rparr>" for v
    using a cusum_local(1) [of "dt_cusum s" i "dt_cusum t" v] cusum_local(3) [of i v "dt_cusum s"]
      cusum_local(3) [of i v "dt_cusum t"] by metis
  moreover have "conf_threshold i x (dt_conformal s) = conf_threshold i x (dt_conformal t) \<and>
     ct_state (conf_update i v (dt_conformal s)) i = ct_state (conf_update i v (dt_conformal t)) i" for x v
    using a by (intro conformal_local) blast+
  moreover have "bl_alpha (dt_baseline s) = bl_alpha (dt_baseline t)"
    "ct_capacity (dt_conformal s) = ct_capacity (dt_conformal t)" using a by blast+
  ultimately show ?thesis unfolding i_def
    by (simp add: detect_def Let_def case_prod_unfold agree_def conf_is_anomalous_def conformal_local(3))
qed

lemma detect_other:
  assumes "agree i s t" "m_stream_id m \<noteq> i"
  shows "filter (\<lambda>a. al_stream_id a = i) (fst (detect m s)) = [] \<and> agree i (snd (detect m s)) t"
proof -
  have "i \<noteq> m_stream_id m" using assms(2) by simp
  note o = rules_local(2) [OF this] cusum_local(2) [OF this] conformal_local(2) [OF this] baseline_update_same [OF this]
  show ?thesis using assms
    by (simp add: detect_def Let_def case_prod_unfold agree_def o cusum_local(3) conformal_local(3))
qed

text \<open>C31: The streams do not interfere: whatever the messages of the other streams, and in whatever
  interleaving, the alerts of a stream are those the detectors would raise if its messages were
  alone. Scores that are NaN are not excluded, though the code's \<open>std::sort\<close> has no defined result on a window that holds
  one: there the statement is about the order that \<open>conf_threshold\<close> picks.\<close>

theorem detection_is_per_stream:
  "filter (\<lambda>a. al_stream_id a = i) (fst (detect_all ms s)) =
     fst (detect_all (filter (\<lambda>m. m_stream_id m = i) ms) s)"
proof -
  have "agree i s t \<Longrightarrow> filter (\<lambda>a. al_stream_id a = i) (fst (detect_all ms s)) =
      fst (detect_all (filter (\<lambda>m. m_stream_id m = i) ms) t)" for t
  proof (induction ms arbitrary: s t)
    case (Cons m ms)
    show ?case
    proof (cases "m_stream_id m = i")
      case True
      have "filter (\<lambda>a. al_stream_id a = i) (fst (detect m s)) = fst (detect m s)"
        using True by (auto simp: detect_def Let_def case_prod_unfold filter_id_conv)
      then show ?thesis
        using Cons.IH [of "snd (detect m s)" "snd (detect m t)"] detect_same [of m s t] Cons.prems True
        by (simp add: case_prod_unfold Let_def)
    next
      case False
      then show ?thesis
        using Cons.IH [of "snd (detect m s)" t] detect_other [OF Cons.prems False]
        by (simp add: case_prod_unfold Let_def)
    qed
  qed simp
  then show ?thesis using agree_refl by blast
qed

end
