(* ===== verification/Daemon_Text.thy ===== *)
theory Daemon_Text
  imports Fault_Labels Detect_Pipeline
begin

text \<open>
  What the daemon \<open>src/feed/coinbase_daemon_main.cpp\<close> writes: time stamps (\<open>iso8601_utc\<close>), alert lines
  (\<open>AlertWriter::write\<close>) and the statistics file (\<open>write_stats\<close>). The clock is an argument, in
  milliseconds since the epoch. \<open>gmtime_r\<close> is the Gregorian calendar counted from the epoch day by day;
  \<open>%.3f\<close> and \<open>%.4f\<close> round the exact value to the nearest, ties to even. Stdio streams are buffered
  output streams of \<open>Stream_File\<close>.
\<close>

section \<open>Time stamps\<close>

definition date_of_day :: "nat \<Rightarrow> int \<times> nat \<times> nat" where
  "date_of_day n = (next_date ^^ n) (1970, 1, 1)"

definition iso8601_utc :: "nat \<Rightarrow> string" where
  "iso8601_utc unix_ms =
     (let secs = unix_ms div 1000; (y, mo, d) = date_of_day (secs div 86400); sod = secs mod 86400
      in show_int y @ ''-'' @ print_uint 2 mo @ ''-'' @ print_uint 2 d @ ''T'' @ print_uint 2 (sod div 3600) @ '':'' @
         print_uint 2 (sod div 60 mod 60) @ '':'' @ print_uint 2 (sod mod 60) @ ''.'' @ print_uint 3 (unix_ms mod 1000) @ ''Z'')"

lemma next_date_valid: "valid_date x \<Longrightarrow> valid_date (next_date x) \<and> fst x \<le> fst (next_date x)"
  by (auto simp: valid_date_def next_date_def month_days_def split: prod.splits if_splits)

lemma date_of_day_facts:
  "valid_date (date_of_day n) \<and> day_number (date_of_day n) = int n \<and> 1970 \<le> fst (date_of_day n)"
proof (induction n)
  case 0
  have "valid_date (1970, 1, 1)" by (simp add: valid_date_def month_days_def)
  then show ?case using calendar_step [of "(1970, 1, 1)"] by (simp add: date_of_day_def)
next
  case (Suc n)
  have "date_of_day (Suc n) = next_date (date_of_day n)" by (simp add: date_of_day_def)
  then show ?case using Suc calendar_step [of "date_of_day n"] next_date_valid [of "date_of_day n"] by simp
qed

lemma day_year_bound:
  assumes "valid_date (y, m, d)" "day_number (y, m, d) \<le> 106751"
  shows "y \<le> 2262"
proof (rule ccontr)
  assume "\<not> y \<le> 2262"
  then have y: "2262 \<le> y - 1" by simp
  have v: "1 \<le> m" "m \<le> 12" "1 \<le> d" "d \<le> 31"
    using assms(1) by (auto simp: valid_date_def month_days_def split: if_splits)
  have "day_number (y, m, d) = year_days (if m \<le> 2 then y - 1 else y) + month_offset m + int d - 719469"
    using days_from_civil_formula [OF v, of y] by (simp add: day_number_def)
  moreover have "year_days 2262 \<le> year_days (y - 1)" "year_days 2263 \<le> year_days y"
    using y by (auto intro: year_days_mono)
  moreover have "0 \<le> month_offset m" "m \<le> 2 \<Longrightarrow> 306 \<le> month_offset m"
    using month_cases [OF v(1,2)] by (auto simp: month_offset_def)
  ultimately show False using assms(2) v(3)
    by (cases "m \<le> 2") (simp_all add: year_days_def [of 2262] year_days_def [of 2263])
qed

lemma show_nat_print: "10 ^ k \<le> n \<Longrightarrow> n < 10 ^ Suc k \<Longrightarrow> show_nat n = print_uint (Suc k) n"
proof (induction k arbitrary: n)
  case 0
  then show ?case by (simp add: show_nat.simps [of n])
next
  case (Suc k)
  then have "10 ^ k \<le> n div 10" "n div 10 < 10 ^ Suc k" by (simp_all add: less_mult_imp_div_less less_eq_div_iff_mult_less_eq mult.commute)
  moreover have "\<not> n < 10" using Suc.prems(1) order_trans [of 10 "10 ^ Suc k" n] by (simp add: not_less)
  ultimately show ?case using Suc.IH [of "n div 10"] by (simp add: show_nat.simps [of n])
qed

text \<open>The daemon's own time stamps read back: for every clock value from the epoch to the end of the 64-bit
  nanosecond range (April 2262), the text of \<open>iso8601_utc\<close> is parsed by the feed's time stamp parser to
  exactly that instant.\<close>

theorem iso8601_reads_back:
  assumes "unix_ms \<le> 9223372036854"
  shows "parse_rfc3339_ns (iso8601_utc unix_ms) = Some (of_nat (unix_ms * 1000000))"
proof -
  define secs where "secs = unix_ms div 1000"
  define day where "day = secs div 86400"
  define sod where "sod = secs mod 86400"
  obtain y m d where ymd: "date_of_day day = (y, m, d)" by (cases "date_of_day day")
  have f: "valid_date (y, m, d)" "day_number (y, m, d) = int day" "1970 \<le> y"
    using date_of_day_facts [of day] by (simp_all add: ymd)
  have "day \<le> 106751" using assms by (simp add: day_def secs_def)
  then have y: "y \<le> 2262" using day_year_bound [OF f(1)] f(2) by simp
  have md: "1 \<le> m" "m \<le> 12" "1 \<le> d" "d \<le> 31"
    using f(1) by (auto simp: valid_date_def month_days_def split: if_splits)
  have "10 ^ 3 \<le> nat y" "nat y < 10 ^ Suc 3" using f(3) y by simp_all
  from show_nat_print [OF this] have ys: "show_int y = print_uint 4 (nat y)" using f(3) by (simp add: show_int_def)
  have "sod < 86400" by (simp add: sod_def)
  then have "sod div 3600 < 24" by (simp add: less_mult_imp_div_less)
  moreover have "sod div 60 mod 60 < 60" "sod mod 60 < 60" by simp_all
  ultimately have t: "sod div 3600 \<le> 23" "sod div 60 mod 60 \<le> 59" "sod mod 60 \<le> 59" by linarith+
  have tx: "iso8601_utc unix_ms = print_timestamp (nat y) m d (sod div 3600) (sod div 60 mod 60) (sod mod 60) 3 (unix_ms mod 1000)"
    by (simp add: iso8601_utc_def Let_def secs_def [symmetric] day_def [symmetric] sod_def [symmetric] ymd ys print_timestamp_def del: print_uint.simps)
  have "sod div 3600 = sod div 60 div 60" by (simp add: div_mult2_eq [symmetric])
  moreover have "sod div 60 div 60 * 60 + sod div 60 mod 60 = sod div 60" by (rule div_mult_mod_eq)
  moreover have "sod div 60 * 60 + sod mod 60 = sod" by (rule div_mult_mod_eq)
  ultimately have "sod div 3600 * 3600 + sod div 60 mod 60 * 60 + sod mod 60 = sod" by linarith
  then have "int (sod div 3600 * 3600 + sod div 60 mod 60 * 60 + sod mod 60) = int sod" by simp
  moreover have "int day * 86400 + int sod = int secs"
    using div_mult_mod_eq [of secs 86400] unfolding day_def sod_def by linarith
  moreover have "int secs * 1000 + int (unix_ms mod 1000) = int unix_ms"
    using div_mult_mod_eq [of unix_ms 1000] unfolding secs_def by linarith
  ultimately have "(day_number (int (nat y), m, d) * 86400 + int (sod div 3600 * 3600 + sod div 60 mod 60 * 60 + sod mod 60)) * 1000000000
      + int (unix_ms mod 1000) * 10 ^ (9 - 3) = int (unix_ms * 1000000)"
    using f(2,3) by simp
  moreover have "nat y \<le> 9999" using y by simp
  ultimately show ?thesis unfolding tx
    using rfc3339_print [of "nat y" m d "sod div 3600" "sod div 60 mod 60" "sod mod 60" 3 "unix_ms mod 1000"] y md t
    by (simp add: print_timestamp_def del: print_uint.simps of_nat_mult)
qed

theorem iso8601_reads_back_witness: "parse_rfc3339_ns (iso8601_utc 1783514096789) = Some (of_nat (1783514096789 * 1000000))"
  using iso8601_reads_back [of 1783514096789] by simp

section \<open>Printing doubles\<close>

text \<open>\<open>%.kf\<close>: the integer nearest to \<open>value * 10 ^ k\<close>, ties to even, with the point put back.\<close>

definition fixed_digits :: "nat \<Rightarrow> double \<Rightarrow> nat" where
  "fixed_digits k a =
     (let n = nat \<bar>d_fix a\<bar> * 10 ^ k; q = n div 2 ^ 1074; r = n mod 2 ^ 1074
      in if 2 ^ 1074 < 2 * r \<or> 2 * r = 2 ^ 1074 \<and> odd q then q + 1 else q)"

definition fmt_fixed :: "nat \<Rightarrow> double \<Rightarrow> string" where
  "fmt_fixed k a =
     (let sign = (if d_neg a then ''-'' else [])
      in if is_nan a then sign @ ''nan''
         else if is_inf a then sign @ ''inf''
         else (let n = fixed_digits k a
               in sign @ show_nat (n div 10 ^ k) @ ''.'' @ print_uint k (n mod 10 ^ k)))"

section \<open>Alerts\<close>

definition layer_name :: "alert_layer \<Rightarrow> string" where
  "layer_name l = (case l of LFeed \<Rightarrow> ''feed'' | LRules \<Rightarrow> ''rules'' | LCusum \<Rightarrow> ''cusum'' | LConformal \<Rightarrow> ''conformal'')"

text \<open>The text of an alert; the conformal one goes through a buffer of 64 bytes.\<close>

definition detail_text :: "alert_detail \<Rightarrow> string" where
  "detail_text d =
     (case d of
        OutOfBounds \<Rightarrow> ''out_of_bounds''
      | RateViolation \<Rightarrow> ''rate_violation''
      | Changepoint \<Rightarrow> ''changepoint''
      | ScoreAbove score thr \<Rightarrow> take 63 (''score='' @ fmt_fixed 4 score @ ''>thr='' @ fmt_fixed 4 thr)
      | GapSeq a b \<Rightarrow> ''gap seq '' @ show_nat (unat a) @ ''->'' @ show_nat (unat b))"

definition quoted :: "string \<Rightarrow> string" where
  "quoted s = [CHR 0x22] @ s @ [CHR 0x22]"

definition json_field :: "string \<Rightarrow> string \<Rightarrow> string" where
  "json_field key value = quoted key @ '':'' @ value"

definition alert_object :: "string \<Rightarrow> alert \<Rightarrow> string" where
  "alert_object created_at a =
     ''{'' @ json_field ''stream_id'' (show_nat (unat (al_stream_id a))) @ '','' @
     json_field ''ts_ns'' (show_int (sint (al_ts_ns a))) @ '','' @
     json_field ''layer'' (quoted (layer_name (al_layer a))) @ '','' @
     json_field ''detail'' (quoted (detail_text (al_detail a))) @ '','' @
     json_field ''created_at'' (quoted created_at) @ ''}''"

definition alert_write :: "nat \<Rightarrow> alert \<Rightarrow> string \<Rightarrow> string" where
  "alert_write now_ms a out = out @ alert_object (iso8601_utc now_ms) a @ [CHR 0x0A]"

fun alert_writes :: "(nat \<times> alert) list \<Rightarrow> string \<Rightarrow> string" where
  "alert_writes [] out = out"
| "alert_writes ((now, a) # as) out = alert_writes as (alert_write now a out)"

lemma plain_digits: "CHR 0x0A \<notin> set (print_uint k n)"
  using print_uint_facts(2) [of k n] not_in_digits [of _ "CHR 0x0A"] by (simp add: is_digit_def)

lemma fmt_no_newline: "CHR 0x0A \<notin> set (fmt_fixed k a)"
  by (simp add: fmt_fixed_def Let_def plain_digits)

lemma iso_no_newline: "CHR 0x0A \<notin> set (iso8601_utc t)"
  by (simp add: iso8601_utc_def Let_def plain_digits del: print_uint.simps split: prod.split)

lemma detail_no_newline: "CHR 0x0A \<notin> set (detail_text d)"
proof (cases d)
  case (ScoreAbove s t)
  define x where "x = ''score='' @ fmt_fixed 4 s @ ''>thr='' @ fmt_fixed 4 t"
  have "CHR 0x0A \<notin> set x" by (simp add: x_def fmt_no_newline)
  then show ?thesis using set_take_subset [of 63 x] by (auto simp: detail_text_def ScoreAbove x_def)
qed (simp_all add: detail_text_def)

lemma alert_no_newline: "CHR 0x0A \<notin> set (alert_object (iso8601_utc t) a)"
  by (cases "al_layer a") (simp_all add: alert_object_def json_field_def quoted_def iso_no_newline detail_no_newline layer_name_def)

lemma alert_writes_text:
  "alert_writes as out = out @ concat (map (\<lambda>(now, a). alert_object (iso8601_utc now) a @ [CHR 0x0A]) as)"
  by (induction as arbitrary: out) (auto simp: alert_write_def)

text \<open>The alert file is one JSON object per line: after any writes to an empty file its lines are
  exactly the objects of the alerts, in order; no text inside an alert can break a line.\<close>

theorem alert_file_lines:
  "lines_of (alert_writes as []) = map (\<lambda>(now, a). alert_object (iso8601_utc now) a) as"
  unfolding alert_writes_text append_Nil
  by (induction as) (auto simp: lines_of_append alert_no_newline)

section \<open>The statistics file\<close>

record counters =
  co_received :: u64
  co_pushed :: u64
  co_processed :: u64
  co_parse_failures :: u64
  co_gaps :: u64
  co_reconnects :: u64
  co_alerts :: u64
  co_last_message_unix_ms :: u64
  co_last_message_ts_ns :: u64

definition no_counts :: counters where
  "no_counts = \<lparr>co_received = 0, co_pushed = 0, co_processed = 0, co_parse_failures = 0, co_gaps = 0,
     co_reconnects = 0, co_alerts = 0, co_last_message_unix_ms = 0, co_last_message_ts_ns = 0\<rparr>"

fun comma_join :: "string list \<Rightarrow> string" where
  "comma_join [] = []"
| "comma_join [s] = s"
| "comma_join (s # ss) = s @ '','' @ comma_join ss"

definition streams_json :: "u32 list \<Rightarrow> string" where
  "streams_json streams = ''['' @ comma_join (map (\<lambda>i. show_nat (unat i)) streams) @ '']''"

text \<open>\<open>1000.0\<close>.\<close>

definition d_1000 :: double where
  "d_1000 = 0x408F400000000000"

definition stats_text :: "double \<Rightarrow> nat \<Rightarrow> counters \<Rightarrow> u32 list \<Rightarrow> string" where
  "stats_text start_unix_s now_ms c streams =
     ''{'' @ json_field ''start_time_unix'' (fmt_fixed 3 start_unix_s) @ '','' @
     json_field ''now_unix'' (fmt_fixed 3 (d_div (d_of_int (int now_ms)) d_1000)) @ '','' @
     json_field ''messages_received'' (show_nat (unat (co_received c))) @ '','' @
     json_field ''messages_processed'' (show_nat (unat (co_processed c))) @ '','' @
     json_field ''ticks_pushed'' (show_nat (unat (co_pushed c))) @ '','' @
     json_field ''parse_failures'' (show_nat (unat (co_parse_failures c))) @ '','' @
     json_field ''gaps'' (show_nat (unat (co_gaps c))) @ '','' @
     json_field ''reconnects'' (show_nat (unat (co_reconnects c))) @ '','' @
     json_field ''alerts'' (show_nat (unat (co_alerts c))) @ '','' @
     json_field ''last_message_unix_ms'' (show_int (sint (co_last_message_unix_ms c))) @ '','' @
     json_field ''last_message_ts_ns'' (show_int (sint (co_last_message_ts_ns c))) @ '','' @
     json_field ''streams'' (streams_json streams) @ ''}'' @ [CHR 0x0A]"

definition disk_rename :: "string \<Rightarrow> string \<Rightarrow> disk \<Rightarrow> disk" where
  "disk_rename p q d =
     (case d_files d p of
        None \<Rightarrow> d
      | Some bytes \<Rightarrow> d\<lparr>d_files := (d_files d)(p := None, q \<mapsto> bytes)\<rparr>)"

text \<open>The disks after each system call: opening, writing, closing and renaming; the last is the result. Nothing looks at
  the results of the calls after the first.\<close>

definition write_stats_steps :: "nat \<Rightarrow> string \<Rightarrow> string \<Rightarrow> disk \<Rightarrow> disk list" where
  "write_stats_steps bufsz dir content d =
     (let tmp = dir @ ''/stats.json.tmp''; dst = dir @ ''/stats.json'';
          (f, d1) = ofs_open bufsz tmp d
      in if \<not> os_open f then [d1]
         else (let (f, d2) = ofs_write (map byte_of content) f d1;
                   (_, d3) = ofs_close f d2
               in [d1, d2, d3, disk_rename tmp dst d3]))"

definition write_stats :: "nat \<Rightarrow> string \<Rightarrow> double \<Rightarrow> nat \<Rightarrow> counters \<Rightarrow> u32 list \<Rightarrow> disk \<Rightarrow> disk" where
  "write_stats bufsz dir start_unix_s now_ms c streams d =
     last (write_stats_steps bufsz dir (stats_text start_unix_s now_ms c streams) d)"

lemma write_stats_effect:
  assumes "dst = dir @ ''/stats.json''" "tmp = dir @ ''/stats.json.tmp''"
    "content = stats_text start_unix_s now_ms c streams" "steps = write_stats_steps bufsz dir content d"
  shows "write_stats bufsz dir start_unix_s now_ms c streams d = last steps \<and>
    list_all (\<lambda>e. d_files e dst = d_files d dst) (butlast steps) \<and>
    (if d_creatable d tmp
     then d_files (last steps) = (d_files d)(tmp := None, dst \<mapsto> take (d_room d) (map byte_of content)) \<and>
       d_room (last steps) = d_room d - length content \<and> d_creatable (last steps) = d_creatable d
     else last steps = d)"
proof (cases "d_creatable d tmp")
  case False
  then have "steps = [d]" by (simp add: assms(2,4) write_stats_steps_def ofs_open_def)
  then show ?thesis using False assms(3,4) by (simp add: write_stats_def)
next
  case True
  have ne: "dst \<noteq> tmp" by (simp add: assms(1,2))
  obtain f d1 where o: "ofs_open bufsz tmp d = (f, d1)" by force
  obtain f2 d2 where w: "ofs_write (map byte_of content) f d1 = (f2, d2)" by force
  obtain f3 d3 where c: "ofs_close f2 d2 = (f3, d3)" by force
  have f: "os_open f" "os_path f = tmp" "os_open f2" "os_path f2 = tmp"
    using o True ofs_write_same [of "map byte_of content" f d1] w by (auto simp: ofs_open_def)
  have steps: "steps = [d1, d2, d3, disk_rename tmp dst d3]"
    using o w c f by (simp add: assms(1,2,4) write_stats_steps_def [of bufsz dir content d] Let_def)
  have o1: "d_files d1 = (d_files d)(tmp \<mapsto> [])" using o True by (auto simp: ofs_open_def)
  have o2: "d_files d2 q = d_files d1 q" if "q \<noteq> tmp" for q
    using ofs_write_other [of q f "map byte_of content" d1] that f w by simp
  have o3: "d_files d3 q = d_files d2 q" if "q \<noteq> tmp" for q
    using c that f by (auto simp: ofs_close_def disk_append_def)
  have b: "file_bytes tmp d3 = take (d_room d) (map byte_of content)"
    using written_close(1) [OF written_write [OF written_open [OF True o [symmetric]] w [symmetric]] c [symmetric]] f
    by simp
  have r: "d_room d3 = d_room d - length content" "d_creatable d3 = d_creatable d"
    using o w c True by (auto simp: ofs_open_def ofs_write_def ofs_close_def disk_append_def split: if_splits)
  have rn: "d_room (disk_rename tmp dst d3) = d_room d3" "d_creatable (disk_rename tmp dst d3) = d_creatable d3"
    by (simp_all add: disk_rename_def split: option.split)
  have "d_files d3 tmp \<noteq> None" using c f by (auto simp: ofs_close_def disk_append_def)
  then have "d_files d3 tmp = Some (take (d_room d) (map byte_of content))" using b by (auto simp: file_bytes_def)
  then have "d_files (disk_rename tmp dst d3) = (d_files d)(tmp := None, dst \<mapsto> take (d_room d) (map byte_of content))"
    using o1 o2 o3 by (auto simp: disk_rename_def fun_eq_iff)
  then show ?thesis using True steps o1 o2 [OF ne] o3 [OF ne] ne assms(3,4) r rn by (simp add: write_stats_def)
qed

text \<open>C37: A reader of \<open>stats.json\<close> never sees a half-written file while the device has room: up to the rename
  every intermediate disk holds the old statistics, afterwards the whole new text, and no other file
  but the temporary one is touched; when the temporary file cannot be opened nothing changes. On a full
  device the truncated text replaces the old statistics all the same.\<close>

theorem write_stats_atomic:
  assumes "dst = dir @ ''/stats.json''" "tmp = dir @ ''/stats.json.tmp''"
    "content = stats_text start_unix_s now_ms c streams" "steps = write_stats_steps bufsz dir content d"
  shows "write_stats bufsz dir start_unix_s now_ms c streams d = last steps \<and>
    list_all (\<lambda>e. d_files e dst = d_files d dst) (butlast steps) \<and>
    (if d_creatable d tmp
     then d_files (last steps) = (d_files d)(tmp := None, dst \<mapsto> take (d_room d) (map byte_of content))
     else last steps = d)"
  using write_stats_effect [OF assms] by (auto split: if_splits)

theorem write_stats_atomic_witness:
  "d_files (write_stats 16 ''data'' 0 0 no_counts [10]
     \<lparr>d_files = Map.empty, d_room = 1000, d_creatable = (\<lambda>_. True)\<rparr>) ''data/stats.json'' =
   Some (take 1000 (map byte_of (stats_text 0 0 no_counts [10])))"
  using write_stats_atomic [OF refl refl refl refl, where dir = "''data''" and bufsz = 16 and start_unix_s = 0 and
      now_ms = 0 and c = no_counts and streams = "[10]" and
      d = "\<lparr>d_files = Map.empty, d_room = 1000, d_creatable = (\<lambda>_. True)\<rparr>"]
  by simp

end
