(* ===== verification/Daemon_Options.thy ===== *)
theory Daemon_Options
  imports Fault_Labels "HOL-Library.AList"
begin

text \<open>
  The command line of the daemon, \<open>parse_args\<close> and \<open>build_subscribe\<close> of \<open>src/feed/coinbase_daemon_main.cpp\<close>.
  The arguments are those after the program's name; None is the failure that makes \<open>main\<close> return 2.
  The product map is an association list in the map's iteration order, which C++ leaves open.
\<close>

record options =
  op_data_dir :: string
  op_endpoint :: string
  op_rule_paths :: "string list"
  op_products :: "(string \<times> u32) list"
  op_stats_interval_ms :: u32

definition kDefaultEndpoint :: string where
  "kDefaultEndpoint = ''wss://ws-feed.exchange.coinbase.com''"

definition default_options :: options where
  "default_options = \<lparr>op_data_dir = ''./data'', op_endpoint = kDefaultEndpoint, op_rule_paths = [], op_products = [],
     op_stats_interval_ms = 1000\<rparr>"

text \<open>\<open>std::strtoul(s, nullptr, 10)\<close> and \<open>std::atoi\<close>: no digits give 0, too large values the largest one; the
  results are cut to 32 bits by the casts. For a number that does not fit an \<open>int\<close> C leaves the result of \<open>atoi\<close>
  undefined; the definition then gives what truncating \<open>strtol\<close> gives, and the theorems only use numbers that fit.\<close>

definition scan_integer :: "string \<Rightarrow> bool \<times> nat" where
  "scan_integer s =
     (let (neg, t) = scan_sign (dropWhile is_space s) in (neg, nat (digits_value 0 (takeWhile is_digit t))))"

definition strtoul_u32 :: "string \<Rightarrow> u32" where
  "strtoul_u32 s =
     (let (neg, v) = scan_integer s
      in if v \<ge> 2 ^ 64 then - 1 else if neg then - of_nat v else of_nat v)"

definition atoi :: "string \<Rightarrow> u32" where
  "atoi s =
     (let (neg, v) = scan_integer s
      in if neg then (if v > 2 ^ 63 then 0 else - of_nat v) else (if v \<ge> 2 ^ 63 then - 1 else of_nat v))"

fun parse_args_loop :: "string list \<Rightarrow> options \<Rightarrow> options option" where
  "parse_args_loop [] opt = Some opt"
| "parse_args_loop [a] opt = None"
| "parse_args_loop (a # v # args) opt =
     (if a = ''--data-dir'' then parse_args_loop args (opt\<lparr>op_data_dir := v\<rparr>)
      else if a = ''--endpoint'' then parse_args_loop args (opt\<lparr>op_endpoint := v\<rparr>)
      else if a = ''--rules'' then parse_args_loop args (opt\<lparr>op_rule_paths := op_rule_paths opt @ [v]\<rparr>)
      else if a = ''--product''
      then (case split_at CHR ''='' v of
              None \<Rightarrow> None
            | Some (name, i) \<Rightarrow>
                parse_args_loop args (opt\<lparr>op_products := AList.update name (strtoul_u32 i) (op_products opt)\<rparr>))
      else if a = ''--stats-interval-ms'' then parse_args_loop args (opt\<lparr>op_stats_interval_ms := atoi v\<rparr>)
      else None)"

definition parse_args :: "string list \<Rightarrow> options option" where
  "parse_args args =
     map_option (\<lambda>opt. if op_products opt = [] then opt\<lparr>op_products := [(''BTC-USD'', 10), (''ETH-USD'', 11)]\<rparr> else opt)
       (parse_args_loop args default_options)"

fun subscribe_ids :: "(string \<times> u32) list \<Rightarrow> string \<Rightarrow> string" where
  "subscribe_ids [] ids = ids"
| "subscribe_ids ((product, _) # ps) ids =
     subscribe_ids ps ((if ids \<noteq> [] then ids @ '','' else ids) @ CHR 0x22 # product @ [CHR 0x22])"

definition build_subscribe :: "options \<Rightarrow> string" where
  "build_subscribe opt =
     (let q = [CHR 0x22]
      in ''{'' @ q @ ''type'' @ q @ '':'' @ q @ ''subscribe'' @ q @ '','' @ q @ ''product_ids'' @ q @ '':['' @
         subscribe_ids (op_products opt) [] @
         ''],'' @ q @ ''channels'' @ q @ '':['' @ q @ ''ticker'' @ q @ '','' @ q @ ''heartbeat'' @ q @ '']}'')"

section \<open>Reading back a command line\<close>

definition print_args :: "options \<Rightarrow> string list" where
  "print_args opt =
     [''--data-dir'', op_data_dir opt, ''--endpoint'', op_endpoint opt] @
     concat (map (\<lambda>p. [''--rules'', p]) (op_rule_paths opt)) @
     concat (map (\<lambda>(n, i). [''--product'', n @ CHR ''='' # show_nat (unat i)]) (op_products opt)) @
     [''--stats-interval-ms'', show_int (sint (op_stats_interval_ms opt))]"

lemma scan_integer_show: "scan_integer (show_nat n) = (False, n)"
proof -
  obtain c cs where s: "show_nat n = c # cs" using show_nat_facts [of n] by (cases "show_nat n") auto
  have "is_digit c" using show_nat_facts [of n] by (simp add: s)
  then have "\<not> is_space c" "c \<noteq> CHR ''-''" "c \<noteq> CHR ''+''" by (auto simp: is_digit_def is_space_def)
  then have "scan_sign (dropWhile is_space (show_nat n)) = (False, show_nat n)" by (simp add: scan_sign_def s)
  moreover have tw: "takeWhile is_digit (show_nat n) = show_nat n"
    using show_nat_facts [of n] by (simp add: takeWhile_eq_all_conv list_all_iff)
  ultimately show ?thesis using show_nat_facts [of n] by (simp add: scan_integer_def tw)
qed

lemma scan_integer_show_int: "scan_integer (show_int i) = (i < 0, nat \<bar>i\<bar>)"
proof (cases "i < 0")
  case True
  have "scan_sign (show_int i) = (True, show_nat (nat (- i)))" "dropWhile is_space (show_int i) = show_int i"
    using True by (simp_all add: show_int_def scan_sign_def is_space_def)
  moreover have tw: "takeWhile is_digit (show_nat (nat (- i))) = show_nat (nat (- i))"
    using show_nat_facts [of "nat (- i)"] by (simp add: takeWhile_eq_all_conv list_all_iff)
  ultimately show ?thesis using True show_nat_facts [of "nat (- i)"] by (simp add: scan_integer_def tw)
qed (simp add: show_int_def scan_integer_show)

lemma u32_below: "unat (w :: u32) < 2 ^ 32"
  using unsigned_less [of w] by simp

lemma strtoul_show: "strtoul_u32 (show_nat (unat w)) = w" and atoi_show: "atoi (show_nat (unat w)) = w"
  using u32_below [of w] by (simp_all add: strtoul_u32_def atoi_def scan_integer_show)

lemma atoi_show_int: "atoi (show_int (sint w)) = w"
proof -
  have r: "- (2 ^ 31) \<le> sint w" "sint w < 2 ^ 31"
    using sint_ge [of w] sint_lt [of w] by simp_all
  show ?thesis
  proof (cases "sint w < 0")
    case True
    have "- of_nat (nat (- sint w)) = (word_of_int (sint w) :: u32)" using True by (simp add: of_nat_nat)
    moreover have "\<not> 2 ^ 63 < nat (- sint w)" using r True by simp
    ultimately show ?thesis using True by (simp add: atoi_def scan_integer_show_int)
  next
    case False
    have "of_nat (nat (sint w)) = (word_of_int (sint w) :: u32)" using False by (simp add: of_nat_nat)
    moreover have "\<not> 2 ^ 63 \<le> nat (sint w)" using r False by simp
    ultimately show ?thesis using False by (simp add: atoi_def scan_integer_show_int)
  qed
qed

lemma loop_rules:
  "parse_args_loop (concat (map (\<lambda>p. [''--rules'', p]) ps) @ args) opt =
     parse_args_loop args (opt\<lparr>op_rule_paths := op_rule_paths opt @ ps\<rparr>)"
  by (induction ps arbitrary: opt) simp_all

lemma loop_products:
  "distinct (map fst (op_products opt @ ps)) \<Longrightarrow> list_all (\<lambda>p. CHR ''='' \<notin> set (fst p)) ps \<Longrightarrow>
     parse_args_loop (concat (map (\<lambda>(n, i). [''--product'', n @ CHR ''='' # show_nat (unat i)]) ps) @ args) opt =
     parse_args_loop args (opt\<lparr>op_products := op_products opt @ ps\<rparr>)"
proof (induction ps arbitrary: opt)
  case (Cons p ps)
  obtain n i where p: "p = (n, i)" by force
  have "AList.update n i (op_products opt) = op_products opt @ [(n, i)]"
  proof -
    have "AList.update x v al = al @ [(x, v)]" if "x \<notin> set (map fst al)" for x :: string and v :: u32 and al
      using that by (induction al) auto
    then show ?thesis using Cons.prems(1) by (auto simp: p)
  qed
  then show ?case
    using Cons.IH [of "opt\<lparr>op_products := op_products opt @ [(n, i)]\<rparr>"] Cons.prems
    by (simp add: p split_at_first strtoul_show)
qed simp

text \<open>C38: Every option set with at least one product, whose product names are distinct and hold no \<open>=\<close> (a name with
  one cannot be given), can be written as a command line and is parsed back exactly: directory, endpoint, the rule
  files in their order, the product map with every 32-bit stream id (its entries stay in the order given, one of those C++
  may walk over them in), and the interval, any \<open>int\<close>, written in decimal with its sign; an empty command line gives the two default products.\<close>

theorem parse_args_roundtrip:
  assumes "op_products opt \<noteq> []" "distinct (map fst (op_products opt))"
    "list_all (\<lambda>p. CHR ''='' \<notin> set (fst p)) (op_products opt)"
  shows "parse_args (print_args opt) = Some opt \<and>
    map_option op_products (parse_args []) = Some [(''BTC-USD'', 10), (''ETH-USD'', 11)]"
proof -
  have "parse_args_loop (print_args opt) default_options = Some opt"
    using loop_products [of "default_options\<lparr>op_data_dir := op_data_dir opt, op_endpoint := op_endpoint opt,
        op_rule_paths := op_rule_paths opt\<rparr>" "op_products opt"] assms(2,3)
    by (simp add: print_args_def loop_rules default_options_def atoi_show_int)
  then show ?thesis using assms(1) by (simp add: parse_args_def) (simp add: default_options_def)
qed

theorem parse_args_roundtrip_witness:
  "parse_args (print_args (default_options\<lparr>op_rule_paths := [''r.yaml''], op_products := [(''SOL-USD'', 12)]\<rparr>)) =
     Some (default_options\<lparr>op_rule_paths := [''r.yaml''], op_products := [(''SOL-USD'', 12)]\<rparr>)"
  using parse_args_roundtrip [of "default_options\<lparr>op_rule_paths := [''r.yaml''], op_products := [(''SOL-USD'', 12)]\<rparr>"]
  by simp

text \<open>A stream id that is not a number is read as 0, without a complaint.\<close>

lemma product_id_not_checked: "map_option op_products (parse_args [''--product'', ''BTC-USD=ten'']) = Some [(''BTC-USD'', 0)]"
  by (simp add: parse_args_def default_options_def strtoul_u32_def scan_integer_def text_eval)

end
