(* ===== verification/Daemon.thy ===== *)
theory Daemon
  imports Coinbase Detect_Pipeline Daemon_Text Daemon_Options
begin

text \<open>
  The daemon itself, \<open>main\<close> of \<open>src/feed/coinbase_daemon_main.cpp\<close>: the callback of the web socket, the gap
  callback and the consumer loop share the handler, the ring, the counters and the alert log. Each
  callback and each turn of the consumer's inner loop is a step, and a run is any sequence of steps; the
  ring is what makes the two threads safe (\<open>Spsc_Concurrent\<close>), the counters are atomic and the alert
  writer locks. The log keeps the alerts themselves; \<open>Daemon_Text\<close> says how each is written.
\<close>

datatype 'raw daemon_event =
  WsOpen
| WsMessage nat 'raw
| WsCloseOrError
| WsOther
| Consume
| Signal

record 'q daemon =
  dm_handler :: feed_handler
  dm_ring :: 'q
  dm_counters :: counters
  dm_detectors :: detectors
  dm_alerts :: "alert list"
  dm_sent :: "string list"
  dm_running :: bool

definition daemon_start :: "rule_checker \<Rightarrow> 'q \<Rightarrow> 'q daemon" where
  "daemon_start rules q = \<lparr>dm_handler = feed_init True, dm_ring = q, dm_counters = no_counts,
     dm_detectors = daemon_detectors rules, dm_alerts = [], dm_sent = [], dm_running = True\<rparr>"

definition gap_alert :: "u32 \<times> u64 \<times> u64 \<Rightarrow> alert" where
  "gap_alert g = (case g of (sid, prev, seq) \<Rightarrow>
     \<lparr>al_stream_id = sid, al_ts_ns = 0, al_layer = LFeed, al_detail = GapSeq prev seq\<rparr>)"

text \<open>The lambda given to the handler.\<close>

definition daemon_on_gap :: "u32 \<times> u64 \<times> u64 \<Rightarrow> 'q daemon \<Rightarrow> 'q daemon" where
  "daemon_on_gap g d =
     d\<lparr>dm_counters := (dm_counters d)\<lparr>co_gaps := co_gaps (dm_counters d) + 1, co_alerts := co_alerts (dm_counters d) + 1\<rparr>,
       dm_alerts := dm_alerts d @ [gap_alert g]\<rparr>"

text \<open>What a frame counts before it is handled; the first parse is only there to classify it.\<close>

definition count_frame ::
  "('raw \<Rightarrow> message \<Rightarrow> parse_result \<times> message) \<Rightarrow> nat \<Rightarrow> 'raw \<Rightarrow> counters \<Rightarrow> counters" where
  "count_frame parse now_ms raw c =
     (let c = c\<lparr>co_received := co_received c + 1, co_last_message_unix_ms := of_nat now_ms\<rparr>
      in if fst (parse raw zero_message) = PMalformed
         then c\<lparr>co_parse_failures := co_parse_failures c + 1\<rparr> else c)"

lemma count_frame_others [simp]:
  "co_pushed (count_frame parse now raw c) = co_pushed c" "co_processed (count_frame parse now raw c) = co_processed c"
  "co_gaps (count_frame parse now raw c) = co_gaps c" "co_alerts (count_frame parse now raw c) = co_alerts c"
  by (simp_all add: count_frame_def Let_def)

text \<open>A frame: counted, classified by a first parse, handled. The calls of the gap callback are the new
  entries of the handler's log.\<close>

definition daemon_message ::
  "('raw \<Rightarrow> message \<Rightarrow> parse_result \<times> message) \<Rightarrow> (message \<Rightarrow> 'q \<Rightarrow> bool \<times> 'q) \<Rightarrow> nat \<Rightarrow> 'raw \<Rightarrow> 'q daemon \<Rightarrow> 'q daemon" where
  "daemon_message parse push now_ms raw d =
     (let c = count_frame parse now_ms raw (dm_counters d);
          (ok, h, q) = feed_handle parse push raw (dm_handler d) (dm_ring d);
          new_gaps = drop (length (fh_gaps (dm_handler d))) (fh_gaps h);
          d = fold daemon_on_gap new_gaps (d\<lparr>dm_counters := c, dm_handler := h, dm_ring := q\<rparr>)
      in if ok then d\<lparr>dm_counters := (dm_counters d)\<lparr>co_pushed := co_pushed (dm_counters d) + 1\<rparr>\<rparr> else d)"

text \<open>One turn of the consumer's inner loop; nothing when the ring is empty.\<close>

definition daemon_consume :: "('q \<Rightarrow> message option \<times> 'q) \<Rightarrow> 'q daemon \<Rightarrow> 'q daemon" where
  "daemon_consume pop d =
     (let (r, q) = pop (dm_ring d); d = d\<lparr>dm_ring := q\<rparr>
      in case r of
           None \<Rightarrow> d
         | Some m \<Rightarrow>
             (let (alerts, dets) = detect m (dm_detectors d); c = dm_counters d
              in d\<lparr>dm_detectors := dets, dm_alerts := dm_alerts d @ alerts,
                   dm_counters := c\<lparr>co_processed := co_processed c + 1, co_last_message_ts_ns := m_ts_ns m,
                     co_alerts := co_alerts c + of_nat (length alerts)\<rparr>\<rparr>))"

definition daemon_drop :: "'q daemon \<Rightarrow> 'q daemon" where
  "daemon_drop d =
     (let c = dm_counters d;
          c = (if dm_running d then c\<lparr>co_reconnects := co_reconnects c + 1\<rparr> else c)
      in d\<lparr>dm_counters := c, dm_handler := feed_on_reconnect (feed_on_disconnect (dm_handler d))\<rparr>)"

definition daemon_step ::
  "string \<Rightarrow> ('raw \<Rightarrow> message \<Rightarrow> parse_result \<times> message) \<Rightarrow> (message \<Rightarrow> 'q \<Rightarrow> bool \<times> 'q) \<Rightarrow>
   ('q \<Rightarrow> message option \<times> 'q) \<Rightarrow> 'raw daemon_event \<Rightarrow> 'q daemon \<Rightarrow> 'q daemon" where
  "daemon_step subscribe parse push pop e d =
     (case e of
        WsOpen \<Rightarrow> d\<lparr>dm_sent := dm_sent d @ [subscribe]\<rparr>
      | WsMessage now_ms raw \<Rightarrow> daemon_message parse push now_ms raw d
      | WsCloseOrError \<Rightarrow> daemon_drop d
      | WsOther \<Rightarrow> d
      | Consume \<Rightarrow> daemon_consume pop d
      | Signal \<Rightarrow> d\<lparr>dm_running := False\<rparr>)"

definition daemon_run where
  "daemon_run subscribe parse push pop es d = fold (daemon_step subscribe parse push pop) es d"

text \<open>The start of \<open>main\<close>: the command line, the rule files and the alert file; None is the exit with status 2
  before anything is connected. \<open>read_text\<close> is the content of a file that can be opened.\<close>

fun load_rules :: "(string \<Rightarrow> string option) \<Rightarrow> string list \<Rightarrow> rule_checker \<Rightarrow> rule_checker option" where
  "load_rules read_text [] rules = Some rules"
| "load_rules read_text (path # paths) rules =
     (case load_rule_config (read_text path) of
        Inl _ \<Rightarrow> None
      | Inr cfg \<Rightarrow> load_rules read_text paths (rules_add cfg rules))"

definition daemon_setup ::
  "(string \<Rightarrow> string option) \<Rightarrow> (string \<Rightarrow> bool) \<Rightarrow> string list \<Rightarrow> (options \<times> rule_checker \<times> u32 list) option" where
  "daemon_setup read_text can_append args =
     (case parse_args args of
        None \<Rightarrow> None
      | Some opt \<Rightarrow>
     (case load_rules read_text (op_rule_paths opt) rules_init of
        None \<Rightarrow> None
      | Some rules \<Rightarrow>
          if can_append (op_data_dir opt @ ''/alerts.jsonl'')
          then Some (opt, rules, map snd (op_products opt)) else None))"

text \<open>A bad rules file is fatal: the daemon never runs rule-less.\<close>

lemma load_rules_all:
  "load_rules read_text paths rules \<noteq> None \<longleftrightarrow> list_all (\<lambda>p. \<not> isl (load_rule_config (read_text p))) paths"
  by (induction paths arbitrary: rules) (auto split: sum.split)

section \<open>The daemon refines the feed pipeline followed by the detectors\<close>

definition feed_event :: "'raw daemon_event \<Rightarrow> 'raw feed_event list" where
  "feed_event e = (case e of WsMessage _ raw \<Rightarrow> [Received raw] | WsCloseOrError \<Rightarrow> [FeedDrop] | Consume \<Rightarrow> [Drain] | _ \<Rightarrow> [])"

definition feed_events :: "'raw daemon_event list \<Rightarrow> 'raw feed_event list" where
  "feed_events es = concat (map feed_event es)"

definition from_feed :: "alert \<Rightarrow> bool" where
  "from_feed a \<longleftrightarrow> al_layer a = LFeed"

definition simulates :: "detectors \<Rightarrow> 'q daemon \<Rightarrow> 'q feed_state \<Rightarrow> bool" where
  "simulates dets d f \<longleftrightarrow>
     dm_handler d = fs_handler f \<and> dm_ring d = fs_ring f \<and>
     dm_detectors d = snd (detect_all (fs_popped f) dets) \<and>
     filter (\<lambda>a. \<not> from_feed a) (dm_alerts d) = fst (detect_all (fs_popped f) dets) \<and>
     filter from_feed (dm_alerts d) = map gap_alert (fh_gaps (fs_handler f)) \<and>
     co_pushed (dm_counters d) = of_nat (length (fs_pushed f)) \<and>
     co_processed (dm_counters d) = of_nat (length (fs_popped f)) \<and>
     co_gaps (dm_counters d) = of_nat (length (fh_gaps (fs_handler f))) \<and>
     co_alerts (dm_counters d) = of_nat (length (dm_alerts d))"

lemma detect_layers: "list_all (\<lambda>a. \<not> from_feed a) (fst (detect m s))"
  by (simp add: detect_def Let_def case_prod_unfold from_feed_def)

lemma gap_alert_feed [simp]: "from_feed (gap_alert g)"
  by (simp add: gap_alert_def from_feed_def split: prod.split)

lemma fold_on_gap:
  "fold daemon_on_gap gs d = d\<lparr>dm_counters := (dm_counters d)\<lparr>co_gaps := co_gaps (dm_counters d) + of_nat (length gs),
       co_alerts := co_alerts (dm_counters d) + of_nat (length gs)\<rparr>, dm_alerts := dm_alerts d @ map gap_alert gs\<rparr>"
  by (induction gs arbitrary: d) (simp_all add: daemon_on_gap_def add.assoc)

lemma simulates_message:
  assumes "simulates dets d f"
  shows "simulates dets (daemon_message parse push now raw d) (feed_step parse push pop (Received raw) f)"
proof -
  obtain ok h q where hd: "feed_handle parse push raw (fs_handler f) (fs_ring f) = (ok, h, q)"
    by (cases "feed_handle parse push raw (fs_handler f) (fs_ring f)")
  obtain gs where gs: "fh_gaps h = fh_gaps (fs_handler f) @ gs"
    using handle_gaps [of parse push raw "fs_handler f" "fs_ring f"] by (auto simp: hd)
  have s: "dm_handler d = fs_handler f" "dm_ring d = fs_ring f" using assms by (simp_all add: simulates_def)
  show ?thesis
    using assms by (simp add: simulates_def daemon_message_def feed_step_def s hd gs fold_on_gap Let_def)
qed

lemma simulates_consume:
  assumes "simulates dets d f"
  shows "simulates dets (daemon_consume pop d) (feed_step parse push pop Drain f)"
proof -
  obtain r q where p: "pop (fs_ring f) = (r, q)" by force
  show ?thesis
  proof (cases r)
    case None
    then show ?thesis using assms by (simp add: simulates_def daemon_consume_def feed_step_def p)
  next
    case (Some m)
    have "filter (\<lambda>a. \<not> from_feed a) (fst (detect m s)) = fst (detect m s)" "filter from_feed (fst (detect m s)) = []" for s
      using detect_layers [of m s] by (simp_all add: list_all_iff filter_id_conv filter_empty_conv)
    then show ?thesis using assms
      by (simp add: simulates_def daemon_consume_def feed_step_def p Some case_prod_unfold Let_def detect_all_append)
  qed
qed

lemma simulates_step:
  assumes "simulates dets d f"
  shows "simulates dets (daemon_step subscribe parse push pop e d) (feed_run parse push pop (feed_event e) f)"
proof (cases e)
  case WsCloseOrError
  then show ?thesis using assms
    by (simp add: daemon_step_def feed_event_def daemon_drop_def feed_step_def simulates_def Let_def
        feed_on_reconnect_def feed_on_disconnect_def feed_reset_def)
qed (use assms in \<open>simp_all add: daemon_step_def feed_event_def simulates_message simulates_consume\<close>,
    simp_all add: simulates_def)

lemma simulates_run:
  "simulates dets d f \<Longrightarrow>
     simulates dets (daemon_run subscribe parse push pop es d) (feed_run parse push pop (feed_events es) f)"
  by (induction es arbitrary: d f)
    (simp_all add: daemon_run_def feed_events_def feed_run_append simulates_step)

lemma simulates_start: "simulates (daemon_detectors rules) (daemon_start rules q) (feed_start True q)"
  by (simp add: simulates_def daemon_start_def feed_start_def feed_init_def no_counts_def)

text \<open>C11: The daemon is the feed pipeline followed by the detectors. Whatever the order in which frames,
  connection events and turns of the consumer come, its handler and ring are those of the pipeline; its
  detectors and its detection alerts are those of one pass over the messages popped so far, in
  order; its feed alerts are the gaps the handler found; and the counters count: pushed, processed,
  gaps and alerts agree with the lists they stand for.\<close>

theorem daemon_refines_pipeline:
  assumes "d = daemon_run subscribe parse push pop es (daemon_start rules q)"
    "f = feed_run parse push pop (feed_events es) (feed_start True q)"
  shows "dm_handler d = fs_handler f \<and> dm_ring d = fs_ring f \<and>
    dm_detectors d = snd (detect_all (fs_popped f) (daemon_detectors rules)) \<and>
    filter (\<lambda>a. \<not> from_feed a) (dm_alerts d) = fst (detect_all (fs_popped f) (daemon_detectors rules)) \<and>
    filter from_feed (dm_alerts d) = map gap_alert (fh_gaps (fs_handler f)) \<and>
    co_pushed (dm_counters d) = of_nat (length (fs_pushed f)) \<and>
    co_processed (dm_counters d) = of_nat (length (fs_popped f)) \<and>
    co_gaps (dm_counters d) = of_nat (length (fh_gaps (fs_handler f))) \<and>
    co_alerts (dm_counters d) = of_nat (length (dm_alerts d))"
  using simulates_run [OF simulates_start] assms by (simp add: simulates_def)

section \<open>From frames to alerts\<close>

definition daemon_capacity :: u64 where
  "daemon_capacity = 65536"

definition alerted :: "alert \<Rightarrow> message \<Rightarrow> bool" where
  "alerted a m \<longleftrightarrow> al_stream_id a = m_stream_id m \<and> al_ts_ns a = m_ts_ns m"

lemma detect_alerted: "list_all (\<lambda>a. alerted a m) (fst (detect m s))"
  by (simp add: detect_def Let_def case_prod_unfold alerted_def)

lemma detect_all_alerted: "list_all (\<lambda>a. list_ex (alerted a) ms) (fst (detect_all ms s))"
proof (induction ms arbitrary: s)
  case (Cons m ms)
  then show ?case using detect_alerted [of m s] Cons.IH [of "snd (detect m s)"]
    by (auto simp: Let_def case_prod_unfold list_all_iff)
qed simp

text \<open>C12: No alert out of thin air: in any run of the daemon on its ring of 65536 slots, every alert of the
  rules, CUSUM and conformal layers carries the stream and the time of a tick that some received frame
  of a configured product really says; and what was pushed and not yet processed is what the ring
  holds, at most 65536 messages.\<close>

theorem daemon_alerts_are_backed:
  assumes "length junk = unat daemon_capacity"
    "d = daemon_run subscribe (coinbase_parse api products) (spsc_try_push daemon_capacity)
       (spsc_try_pop daemon_capacity) es (daemon_start rules (spsc_init junk))"
  shows "list_all (\<lambda>a. from_feed a \<or> al_stream_id a \<in> ran products \<and>
      (\<exists>now raw m. WsMessage now raw \<in> set es \<and> ticker_says api products raw m \<and> alerted a m)) (dm_alerts d) \<and>
    co_pushed (dm_counters d) = co_processed (dm_counters d) + of_nat (length (spsc_contents daemon_capacity (dm_ring d))) \<and>
    length (spsc_contents daemon_capacity (dm_ring d)) \<le> 65536"
proof -
  define f where "f = feed_run (coinbase_parse api products) (spsc_try_push daemon_capacity)
    (spsc_try_pop daemon_capacity) (feed_events es) (feed_start True (spsc_init junk))"
  have cap: "capacity_ok daemon_capacity" by (simp add: capacity_ok_def daemon_capacity_def)
  have q: "spsc_ok daemon_capacity (spsc_init junk)" "spsc_contents daemon_capacity (spsc_init junk) = []"
    using cap spsc_inv_init [OF assms(1)] by (simp_all add: spsc_ok_def)
  have sim: "simulates (daemon_detectors rules) d f"
    using simulates_run [OF simulates_start] by (simp add: assms(2) f_def)
  have bk: "list_all (backed (ticker_says api products) (feed_events es)) (fs_popped f)"
    using coinbase_feed.run_delivers_backed [OF q f_def [symmetric]] .
  have evs: "\<exists>now. WsMessage now raw \<in> set es" if rx: "Received raw \<in> set (feed_events es)" for raw
  proof -
    obtain e where e: "e \<in> set es" "Received raw \<in> set (feed_event e)" using rx by (auto simp: feed_events_def)
    from e(2) obtain now where "e = WsMessage now raw" by (cases e) (simp_all add: feed_event_def)
    then show ?thesis using e(1) by blast
  qed
  have "from_feed a \<or> al_stream_id a \<in> ran products \<and>
      (\<exists>now raw m. WsMessage now raw \<in> set es \<and> ticker_says api products raw m \<and> alerted a m)"
    if a: "a \<in> set (dm_alerts d)" for a
  proof (cases "from_feed a")
    case False
    then have "a \<in> set (filter (\<lambda>a. \<not> from_feed a) (dm_alerts d))" using a by simp
    then have "a \<in> set (fst (detect_all (fs_popped f) (daemon_detectors rules)))"
      using sim unfolding simulates_def by metis
    then obtain m where m: "m \<in> set (fs_popped f)" "alerted a m"
      using detect_all_alerted [of "fs_popped f" "daemon_detectors rules"] by (auto simp: list_all_iff list_ex_iff)
    then obtain raw where raw: "Received raw \<in> set (feed_events es)" "ticker_says api products raw m"
      using bk by (auto simp: list_all_iff backed_def)
    have "m_stream_id m \<in> ran products" using raw(2) by (auto simp: ticker_says_def intro: ranI)
    then show ?thesis using evs [OF raw(1)] raw(2) m(2) by (auto simp: alerted_def)
  qed simp
  moreover have "fs_pushed f = fs_popped f @ spsc_contents daemon_capacity (fs_ring f)"
    "length (spsc_contents daemon_capacity (fs_ring f)) \<le> 65536"
    using spsc_feed.run_delivers [OF q f_def [symmetric]] by (simp_all add: daemon_capacity_def)
  ultimately show ?thesis using sim by (simp add: simulates_def list_all_iff)
qed

theorem daemon_refines_pipeline_witness:
  "co_pushed (dm_counters (daemon_run [] echo_parse (spsc_try_push 2) (spsc_try_pop 2)
     [WsOpen, WsMessage 1 (POk, 1, 5), WsMessage 2 (PMalformed, 0, 0), WsMessage 3 (POk, 1, 9), Consume]
     (daemon_start rules_init (spsc_init [zero_message, zero_message])))) = 2"
proof -
  define f where "f = feed_run echo_parse (spsc_try_push 2) (spsc_try_pop 2)
     (feed_events [WsOpen, WsMessage 1 (POk, 1, 5), WsMessage 2 (PMalformed, 0, 0), WsMessage 3 (POk, 1, 9), Consume])
     (feed_start True (spsc_init [zero_message, zero_message]))"
  have "length (fs_pushed f) = 2" unfolding f_def by code_simp
  then show ?thesis using daemon_refines_pipeline [OF refl f_def, of "[]" rules_init] by simp
qed

theorem daemon_alerts_are_backed_witness:
  "list_all (\<lambda>a. from_feed a \<or> al_stream_id a = 10)
     (dm_alerts (daemon_run [] (coinbase_parse example_dom [''BTC-USD'' \<mapsto> 10]) (spsc_try_push daemon_capacity)
       (spsc_try_pop daemon_capacity) [WsOpen, WsMessage 1 ''tick'', WsMessage 2 ''other'', Consume, WsCloseOrError]
       (daemon_start rules_init (spsc_init (replicate 65536 zero_message)))))"
proof -
  have "length (replicate 65536 zero_message) = unat daemon_capacity" by (simp add: daemon_capacity_def)
  from daemon_alerts_are_backed [OF this refl, where subscribe = "[]" and api = example_dom and
      products = "[''BTC-USD'' \<mapsto> 10]" and rules = rules_init and
      es = "[WsOpen, WsMessage 1 ''tick'', WsMessage 2 ''other'', Consume, WsCloseOrError]"]
  show ?thesis by (auto simp only: list_all_iff ran_map_upd dom_empty ran_empty fun_upd_apply insert_iff empty_iff)
qed

end
