(* ===== verification/Spsc_Concurrent.thy ===== *)
theory Spsc_Concurrent
  imports Spsc_Ring
begin

text \<open>
  \<open>try_push\<close> and \<open>try_pop\<close> of \<open>SpscRingBuffer\<close> run by two threads. Each atomic access of the
  two functions is one step, in program order: the producer loads its own \<open>tail_\<close>, loads
  \<open>head_\<close> (acquire), tests for room, writes the slot, stores \<open>tail_\<close> (release); the consumer
  loads its own \<open>head_\<close>, loads \<open>tail_\<close> (acquire), tests for emptiness, reads the slot, stores
  \<open>head_\<close> (release). The steps of the two threads interleave freely.

  The acquire loads may be stale: a load of the other thread's counter returns any value that
  counter has had, but none older than one this thread has already seen (coherence). The ghost
  fields count completed operations; \<open>sy_seen_head\<close> and \<open>sy_seen_tail\<close> are the operations of
  the other thread that happen-before the current point through an acquire load, and are what
  the race-freedom argument rests on.
\<close>

datatype 'a producer_pc = PIdle | PLoadTail 'a | PLoadHead 'a u64 | PWrite 'a u64 | PStore 'a u64

datatype 'a consumer_pc = CIdle | CLoadHead | CLoadTail u64 | CRead u64 | CStore u64 'a

record 'a spsc_sys =
  sy_ring :: "'a spsc"
  sy_ppc :: "'a producer_pc"
  sy_cpc :: "'a consumer_pc"
  sy_pushed :: "'a list"
  sy_popped :: "'a list"
  sy_seen_head :: nat
  sy_seen_tail :: nat

definition spsc_sys_init :: "u64 \<Rightarrow> 'a spsc_sys \<Rightarrow> bool" where
  "spsc_sys_init cap s \<longleftrightarrow>
     (\<exists>junk. length junk = unat cap \<and>
        s = \<lparr>sy_ring = spsc_init junk, sy_ppc = PIdle, sy_cpc = CIdle,
             sy_pushed = [], sy_popped = [], sy_seen_head = 0, sy_seen_tail = 0\<rparr>)"

inductive spsc_step :: "u64 \<Rightarrow> 'a spsc_sys \<Rightarrow> 'a spsc_sys \<Rightarrow> bool" for cap where
  p_call: "sy_ppc s = PIdle \<Longrightarrow> spsc_step cap s (s\<lparr>sy_ppc := PLoadTail x\<rparr>)"
| p_tail: "sy_ppc s = PLoadTail x \<Longrightarrow>
    spsc_step cap s (s\<lparr>sy_ppc := PLoadHead x (sp_tail (sy_ring s))\<rparr>)"
| p_head: "sy_ppc s = PLoadHead x t \<Longrightarrow> sy_seen_head s \<le> k \<Longrightarrow> k \<le> length (sy_popped s) \<Longrightarrow>
    spsc_step cap s (s\<lparr>sy_seen_head := k,
      sy_ppc := (if t - of_nat k \<ge> cap then PIdle else PWrite x t)\<rparr>)"
| p_write: "sy_ppc s = PWrite x t \<Longrightarrow>
    spsc_step cap s (s\<lparr>sy_ring := (sy_ring s)\<lparr>sp_storage :=
        (sp_storage (sy_ring s))[slot_index cap t := x]\<rparr>, sy_ppc := PStore x t\<rparr>)"
| p_store: "sy_ppc s = PStore x t \<Longrightarrow>
    spsc_step cap s (s\<lparr>sy_ring := (sy_ring s)\<lparr>sp_tail := t + 1\<rparr>, sy_ppc := PIdle,
      sy_pushed := sy_pushed s @ [x]\<rparr>)"
| c_call: "sy_cpc s = CIdle \<Longrightarrow> spsc_step cap s (s\<lparr>sy_cpc := CLoadHead\<rparr>)"
| c_head: "sy_cpc s = CLoadHead \<Longrightarrow>
    spsc_step cap s (s\<lparr>sy_cpc := CLoadTail (sp_head (sy_ring s))\<rparr>)"
| c_tail: "sy_cpc s = CLoadTail h \<Longrightarrow> sy_seen_tail s \<le> k \<Longrightarrow> k \<le> length (sy_pushed s) \<Longrightarrow>
    spsc_step cap s (s\<lparr>sy_seen_tail := k, sy_cpc := (if h = of_nat k then CIdle else CRead h)\<rparr>)"
| c_read: "sy_cpc s = CRead h \<Longrightarrow>
    spsc_step cap s (s\<lparr>sy_cpc := CStore h (sp_storage (sy_ring s) ! slot_index cap h)\<rparr>)"
| c_store: "sy_cpc s = CStore h x \<Longrightarrow>
    spsc_step cap s (s\<lparr>sy_ring := (sy_ring s)\<lparr>sp_head := h + 1\<rparr>, sy_cpc := CIdle,
      sy_popped := sy_popped s @ [x]\<rparr>)"

abbreviation spsc_reach :: "u64 \<Rightarrow> 'a spsc_sys \<Rightarrow> bool" where
  "spsc_reach cap \<equiv> reach (spsc_sys_init cap) (spsc_step cap)"

section \<open>The invariant\<close>

text \<open>The shared memory against the ghost counters.\<close>

definition ring_agrees :: "u64 \<Rightarrow> 'a spsc_sys \<Rightarrow> bool" where
  "ring_agrees cap s \<longleftrightarrow>
     sp_head (sy_ring s) = of_nat (length (sy_popped s)) \<and>
     sp_tail (sy_ring s) = of_nat (length (sy_pushed s)) \<and>
     length (sp_storage (sy_ring s)) = unat cap \<and>
     sy_seen_head s \<le> length (sy_popped s) \<and>
     length (sy_popped s) \<le> sy_seen_tail s \<and>
     sy_seen_tail s \<le> length (sy_pushed s) \<and>
     length (sy_pushed s) \<le> sy_seen_head s + unat cap \<and>
     sy_popped s = take (length (sy_popped s)) (sy_pushed s) \<and>
     (\<forall>i. length (sy_popped s) \<le> i \<and> i < length (sy_pushed s) \<longrightarrow>
        sp_storage (sy_ring s) ! slot_index cap (of_nat i) = sy_pushed s ! i)"

text \<open>What each program counter knows.\<close>

fun producer_knows :: "u64 \<Rightarrow> 'a spsc_sys \<Rightarrow> 'a producer_pc \<Rightarrow> bool" where
  "producer_knows cap s PIdle = True"
| "producer_knows cap s (PLoadTail x) = True"
| "producer_knows cap s (PLoadHead x t) = (t = of_nat (length (sy_pushed s)))"
| "producer_knows cap s (PWrite x t) =
     (t = of_nat (length (sy_pushed s)) \<and> length (sy_pushed s) < sy_seen_head s + unat cap)"
| "producer_knows cap s (PStore x t) =
     (t = of_nat (length (sy_pushed s)) \<and> length (sy_pushed s) < sy_seen_head s + unat cap \<and>
      sp_storage (sy_ring s) ! slot_index cap t = x)"

fun consumer_knows :: "'a spsc_sys \<Rightarrow> 'a consumer_pc \<Rightarrow> bool" where
  "consumer_knows s CIdle = True"
| "consumer_knows s CLoadHead = True"
| "consumer_knows s (CLoadTail h) = (h = of_nat (length (sy_popped s)))"
| "consumer_knows s (CRead h) =
     (h = of_nat (length (sy_popped s)) \<and> length (sy_popped s) < sy_seen_tail s)"
| "consumer_knows s (CStore h x) =
     (h = of_nat (length (sy_popped s)) \<and> length (sy_popped s) < sy_seen_tail s \<and>
      x = sy_pushed s ! length (sy_popped s))"

definition spsc_sys_inv :: "u64 \<Rightarrow> 'a spsc_sys \<Rightarrow> bool" where
  "spsc_sys_inv cap s \<longleftrightarrow>
     ring_agrees cap s \<and> producer_knows cap s (sy_ppc s) \<and> consumer_knows s (sy_cpc s)"

section \<open>Every step keeps it\<close>

text \<open>The difference of two counters at most one capacity apart, read from the wrapped words.\<close>

lemma counter_distance:
  assumes "capacity_ok cap" and "a \<le> b" and "b \<le> a + unat cap"
  shows "unat (of_nat b - of_nat a :: u64) = b - a"
proof -
  have "of_nat b - of_nat a = (of_nat (b - a) :: u64)" using assms(2) by (simp add: of_nat_diff)
  moreover have "b - a < 2 ^ 64" using assms(3) capacity_le_half [OF assms(1)] by simp
  ultimately show ?thesis by (simp add: unat_of_nat)
qed

lemma room_iff:
  assumes "capacity_ok cap" and "a \<le> b" and "b \<le> a + unat cap"
  shows "of_nat b - of_nat a \<ge> cap \<longleftrightarrow> a + unat cap \<le> b"
  using counter_distance [OF assms] assms(2) by (auto simp: word_le_nat_alt)

lemma counter_eq_iff:
  assumes "capacity_ok cap" and "a \<le> b" and "b \<le> a + unat cap"
  shows "(of_nat a :: u64) = of_nat b \<longleftrightarrow> a = b"
  using counter_distance [OF assms] assms(2) by auto

text \<open>Two live counters less than a capacity apart are in different slots.\<close>

lemma slot_of_nat_neq:
  assumes "capacity_ok cap" and "a < b" and "b < a + unat cap"
  shows "slot_index cap (of_nat a) \<noteq> slot_index cap (of_nat b)"
proof
  assume eq: "slot_index cap (of_nat a) = slot_index cap (of_nat b)"
  have b: "of_nat b = (of_nat a + of_nat (b - a) :: u64)"
    using assms(2) by (simp flip: of_nat_add)
  from eq have same: "slot_index cap (of_nat a + of_nat 0) = slot_index cap (of_nat a + of_nat (b - a))"
    unfolding b by simp
  have "b - a < unat cap" using assms(2,3) by linarith
  from slot_index_inj [OF assms(1) capacity_pos [OF assms(1)] this same] assms(2)
  show False by simp
qed

lemmas spsc_sys_defs = spsc_sys_inv_def ring_agrees_def

lemma spsc_sys_inv_init: "spsc_sys_init cap s \<Longrightarrow> spsc_sys_inv cap s"
  by (auto simp: spsc_sys_init_def spsc_sys_defs spsc_init_def)

lemma slot_write_keeps:
  assumes "capacity_ok cap" and "spsc_sys_inv cap s" and "sy_ppc s = PWrite x t"
    and "length (sy_popped s) \<le> i" and "i < length (sy_pushed s)"
  shows "slot_index cap t \<noteq> slot_index cap (of_nat i)"
  using assms slot_of_nat_neq [OF assms(1), of i "length (sy_pushed s)"]
  by (auto simp: spsc_sys_defs)

lemma take_snoc_nth: "i < length xs \<Longrightarrow> take i xs @ [xs ! i] = take (Suc i) xs"
  by (simp add: take_Suc_conv_app_nth)

lemma spsc_step_inv:
  assumes "capacity_ok cap" and "spsc_step cap s t" and "spsc_sys_inv cap s"
  shows "spsc_sys_inv cap t"
  using assms(2,3)
proof (cases rule: spsc_step.cases)
  case (p_head x tl k)
  with assms(3) room_iff [OF assms(1), of k "length (sy_pushed s)"]
  show ?thesis by (cases "sy_cpc s") (auto simp: spsc_sys_defs)
next
  case (p_write x tl)
  have "slot_index cap tl < unat cap" using assms(1) by (rule slot_index_less)
  with p_write assms(3) slot_write_keeps [OF assms(1,3) p_write(2)]
  show ?thesis by (cases "sy_cpc s") (auto simp: spsc_sys_defs)
next
  case (p_store x tl)
  with assms(3) show ?thesis
    by (cases "sy_cpc s") (auto simp: spsc_sys_defs nth_append less_Suc_eq)
next
  case (c_tail h k)
  with assms(3) counter_eq_iff [OF assms(1), of "length (sy_popped s)" k]
  show ?thesis by (cases "sy_ppc s") (auto simp: spsc_sys_defs)
next
  case (c_read h)
  with assms(3) show ?thesis by (cases "sy_ppc s") (auto simp: spsc_sys_defs)
next
  case (c_store h x)
  with assms(3) take_snoc_nth [of "length (sy_popped s)" "sy_pushed s"]
  show ?thesis by (cases "sy_ppc s") (auto simp: spsc_sys_defs)
qed (cases "sy_ppc s"; cases "sy_cpc s"; auto simp: spsc_sys_defs)+

lemma spsc_reach_inv: "capacity_ok cap \<Longrightarrow> spsc_reach cap s \<Longrightarrow> spsc_sys_inv cap s"
  by (erule reach_invariant) (auto intro: spsc_sys_inv_init spsc_step_inv)

section \<open>An executable scheduler\<close>

text \<open>
  The step relation as a function of the scheduler's choice: which thread moves, with the item of
  a new call or the (possibly stale) counter value an acquire load returns. The relation is
  exactly the choices this function accepts, and closed runs can be evaluated with it.
\<close>

datatype 'a spsc_action = Call_Push 'a | Call_Pop | Producer nat | Consumer nat

fun spsc_exec :: "u64 \<Rightarrow> 'a spsc_action \<Rightarrow> 'a spsc_sys \<Rightarrow> 'a spsc_sys option" where
  "spsc_exec cap (Call_Push x) s =
     (if sy_ppc s = PIdle then Some (s\<lparr>sy_ppc := PLoadTail x\<rparr>) else None)"
| "spsc_exec cap Call_Pop s =
     (if sy_cpc s = CIdle then Some (s\<lparr>sy_cpc := CLoadHead\<rparr>) else None)"
| "spsc_exec cap (Producer k) s =
     (case sy_ppc s of
        PIdle \<Rightarrow> None
      | PLoadTail x \<Rightarrow> Some (s\<lparr>sy_ppc := PLoadHead x (sp_tail (sy_ring s))\<rparr>)
      | PLoadHead x t \<Rightarrow>
          (if sy_seen_head s \<le> k \<and> k \<le> length (sy_popped s)
           then Some (s\<lparr>sy_seen_head := k,
                  sy_ppc := (if t - of_nat k \<ge> cap then PIdle else PWrite x t)\<rparr>)
           else None)
      | PWrite x t \<Rightarrow> Some (s\<lparr>sy_ring := (sy_ring s)\<lparr>sp_storage :=
          (sp_storage (sy_ring s))[slot_index cap t := x]\<rparr>, sy_ppc := PStore x t\<rparr>)
      | PStore x t \<Rightarrow> Some (s\<lparr>sy_ring := (sy_ring s)\<lparr>sp_tail := t + 1\<rparr>, sy_ppc := PIdle,
          sy_pushed := sy_pushed s @ [x]\<rparr>))"
| "spsc_exec cap (Consumer k) s =
     (case sy_cpc s of
        CIdle \<Rightarrow> None
      | CLoadHead \<Rightarrow> Some (s\<lparr>sy_cpc := CLoadTail (sp_head (sy_ring s))\<rparr>)
      | CLoadTail h \<Rightarrow>
          (if sy_seen_tail s \<le> k \<and> k \<le> length (sy_pushed s)
           then Some (s\<lparr>sy_seen_tail := k,
                  sy_cpc := (if h = of_nat k then CIdle else CRead h)\<rparr>)
           else None)
      | CRead h \<Rightarrow> Some (s\<lparr>sy_cpc := CStore h (sp_storage (sy_ring s) ! slot_index cap h)\<rparr>)
      | CStore h x \<Rightarrow> Some (s\<lparr>sy_ring := (sy_ring s)\<lparr>sp_head := h + 1\<rparr>, sy_cpc := CIdle,
          sy_popped := sy_popped s @ [x]\<rparr>))"

fun spsc_exec_all :: "u64 \<Rightarrow> 'a spsc_action list \<Rightarrow> 'a spsc_sys \<Rightarrow> 'a spsc_sys option" where
  "spsc_exec_all cap [] s = Some s"
| "spsc_exec_all cap (a # as) s =
     (case spsc_exec cap a s of None \<Rightarrow> None | Some t \<Rightarrow> spsc_exec_all cap as t)"

lemma p_head_cases:
  assumes "sy_ppc s = PLoadHead x t" and "sy_seen_head s \<le> k" and "k \<le> length (sy_popped s)"
  shows "cap \<le> t - of_nat k \<Longrightarrow> spsc_step cap s (s\<lparr>sy_seen_head := k, sy_ppc := PIdle\<rparr>)"
    and "\<not> cap \<le> t - of_nat k \<Longrightarrow> spsc_step cap s (s\<lparr>sy_seen_head := k, sy_ppc := PWrite x t\<rparr>)"
  using p_head [OF assms, of cap] by simp_all

lemma c_tail_cases:
  assumes "sy_cpc s = CLoadTail h" and "sy_seen_tail s \<le> k" and "k \<le> length (sy_pushed s)"
  shows "h = of_nat k \<Longrightarrow> spsc_step cap s (s\<lparr>sy_seen_tail := k, sy_cpc := CIdle\<rparr>)"
    and "h \<noteq> of_nat k \<Longrightarrow> spsc_step cap s (s\<lparr>sy_seen_tail := k, sy_cpc := CRead h\<rparr>)"
  using c_tail [OF assms, of cap] by simp_all

lemma spsc_exec_step: "spsc_exec cap a s = Some t \<Longrightarrow> spsc_step cap s t"
  by (cases a)
    (auto split: if_splits producer_pc.splits consumer_pc.splits
      intro: spsc_step.intros p_head_cases c_tail_cases)

lemma spsc_step_exec:
  assumes "spsc_step cap s t"
  shows "\<exists>a. spsc_exec cap a s = Some t"
  using assms
proof (cases rule: spsc_step.cases)
  case (p_call x)
  then have "spsc_exec cap (Call_Push x) s = Some t" by simp
  then show ?thesis by blast
next
  case c_call
  then have "spsc_exec cap Call_Pop s = Some t" by simp
  then show ?thesis by blast
next
  case (p_head x tl k)
  then have "spsc_exec cap (Producer k) s = Some t" by simp
  then show ?thesis by blast
next
  case (c_tail h k)
  then have "spsc_exec cap (Consumer k) s = Some t" by simp
  then show ?thesis by blast
qed (rule exI [of _ "Producer 0"], simp; fail | rule exI [of _ "Consumer 0"], simp; fail)+

lemma spsc_exec_all_reach:
  "spsc_exec_all cap as s = Some t \<Longrightarrow> spsc_reach cap s \<Longrightarrow> spsc_reach cap t"
  by (induction as arbitrary: s)
    (auto split: option.splits intro: reach.reach_step dest: spsc_exec_step)

definition spsc_start :: "'a list \<Rightarrow> 'a spsc_sys" where
  "spsc_start junk = \<lparr>sy_ring = spsc_init junk, sy_ppc = PIdle, sy_cpc = CIdle,
     sy_pushed = [], sy_popped = [], sy_seen_head = 0, sy_seen_tail = 0\<rparr>"

lemma spsc_reach_start: "length junk = unat cap \<Longrightarrow> spsc_reach cap (spsc_start junk)"
  by (rule reach.reach_init) (auto simp: spsc_start_def spsc_sys_init_def)

section \<open>What the two threads are promised\<close>

lemma ring_contents_are_unpopped:
  assumes "capacity_ok cap" and "spsc_sys_inv cap s"
  shows "spsc_contents cap (sy_ring s) = drop (length (sy_popped s)) (sy_pushed s)"
proof -
  let ?P = "length (sy_pushed s)" and ?Q = "length (sy_popped s)"
  have size: "spsc_size (sy_ring s) = ?P - ?Q"
    using assms(2) counter_distance [OF assms(1), of ?Q ?P]
    by (auto simp: spsc_sys_defs spsc_size_def)
  show ?thesis
    using assms(2)
    by (intro nth_equalityI) (auto simp: size spsc_contents_def spsc_sys_defs simp flip: of_nat_add)
qed

text \<open>C2: Over every interleaving of one producer and one consumer, with stale acquire loads
  allowed, the items handed out followed by the items the ring still holds are exactly the items
  accepted, in order, and the ring never holds more than its capacity: nothing is lost,
  duplicated or reordered, also when the 64-bit counters wrap.\<close>

theorem spsc_no_loss_no_reorder:
  assumes "capacity_ok cap" and "spsc_reach cap s"
  shows "sy_pushed s = sy_popped s @ spsc_contents cap (sy_ring s) \<and>
         length (spsc_contents cap (sy_ring s)) \<le> unat cap"
proof -
  from assms have inv: "spsc_sys_inv cap s" by (rule spsc_reach_inv)
  then have "sy_popped s = take (length (sy_popped s)) (sy_pushed s)"
    and "length (sy_pushed s) \<le> length (sy_popped s) + unat cap" by (auto simp: spsc_sys_defs)
  then show ?thesis
    unfolding ring_contents_are_unpopped [OF assms(1) inv]
    by (metis append_take_drop_id length_drop add.commute le_diff_conv)
qed

definition spsc_example_run :: "nat spsc_action list" where
  "spsc_example_run =
     [Call_Push 7, Producer 0, Producer 0, Producer 0, Producer 0,
      Call_Push 8, Producer 0, Producer 0, Producer 0, Producer 0,
      Call_Pop, Consumer 0, Consumer 2, Consumer 0, Consumer 0,
      Call_Push 9, Producer 0, Producer 1, Call_Pop, Consumer 0, Consumer 2]"

lemma capacity_ok_2: "capacity_ok 2"
  by (simp add: capacity_ok_def)

lemma spsc_example_eval:
  "case spsc_exec_all 2 spsc_example_run (spsc_start [0, 0]) of None \<Rightarrow> False
   | Some s \<Rightarrow> sy_pushed s = [7, 8] \<and> sy_popped s = [7] \<and> sy_ppc s = PWrite 9 2 \<and>
       sy_cpc s = CRead 1"
  by (simp add: spsc_example_run_def spsc_start_def spsc_init_def slot_index_def word_le_nat_alt)

lemma spsc_example_reach:
  "\<exists>s. spsc_reach 2 s \<and> sy_pushed s = [7, 8] \<and> sy_popped s = [7 :: nat] \<and>
     sy_ppc s = PWrite 9 2 \<and> sy_cpc s = CRead 1"
  using spsc_example_eval spsc_reach_start [of "[0, 0]" 2]
  by (auto split: option.splits dest: spsc_exec_all_reach)

theorem spsc_no_loss_no_reorder_witness:
  "\<exists>s. spsc_reach 2 s \<and> sy_pushed s = [7, 8::nat] \<and> sy_popped s = [7] \<and>
     [7, 8] = [7] @ spsc_contents 2 (sy_ring s)"
  using spsc_example_reach spsc_no_loss_no_reorder [OF capacity_ok_2] by metis

text \<open>C23: The ring is free of data races: in no reachable state is the producer about to write the
  slot the consumer is about to read; and the accesses are ordered by the acquire loads, since
  the slot being written held only items whose removal the producer has observed, and the item
  being read is one whose publication the consumer has observed.\<close>

theorem spsc_race_free:
  assumes "capacity_ok cap" and "spsc_reach cap s"
    and "sy_ppc s = PWrite x t" and "sy_cpc s = CRead h"
  shows "slot_index cap t \<noteq> slot_index cap h \<and>
         (\<forall>i < length (sy_pushed s). slot_index cap (of_nat i) = slot_index cap t \<longrightarrow>
            i < sy_seen_head s) \<and>
         h = of_nat (length (sy_popped s)) \<and> length (sy_popped s) < sy_seen_tail s"
proof -
  from assms(1,2) have inv: "spsc_sys_inv cap s" by (rule spsc_reach_inv)
  with assms(3,4) have t: "t = of_nat (length (sy_pushed s))"
    and room: "length (sy_pushed s) < sy_seen_head s + unat cap"
    and h: "h = of_nat (length (sy_popped s))" and seen: "length (sy_popped s) < sy_seen_tail s"
    and tail: "sy_seen_tail s \<le> length (sy_pushed s)"
    by (auto simp: spsc_sys_defs)
  have "i < sy_seen_head s"
    if "i < length (sy_pushed s)" and "slot_index cap (of_nat i) = slot_index cap t" for i
    using slot_of_nat_neq [OF assms(1) that(1)] room that(2) t by (cases "i < sy_seen_head s") auto
  moreover have "slot_index cap t \<noteq> slot_index cap h"
    using slot_write_keeps [OF assms(1) inv assms(3), of "length (sy_popped s)"] h seen tail by simp
  ultimately show ?thesis using h seen by blast
qed

theorem spsc_race_free_witness:
  "\<exists>s. spsc_reach 2 s \<and> sy_ppc s = PWrite (9::nat) 2 \<and> sy_cpc s = CRead 1 \<and>
     slot_index 2 2 \<noteq> slot_index 2 1 \<and> 1 < sy_seen_tail s"
proof -
  obtain s :: "nat spsc_sys" where s: "spsc_reach 2 s" "sy_popped s = [7]"
    "sy_ppc s = PWrite 9 2" "sy_cpc s = CRead 1" using spsc_example_reach by auto
  from spsc_race_free [OF capacity_ok_2 s(1,3,4)] s show ?thesis by auto
qed

section \<open>The step models are the functions, and calls finish\<close>

text \<open>A thread that is not interrupted runs exactly the sequential function.\<close>

text \<open>From any reachable state, a producer (consumer) that runs one call without interruption
  and loads the current counter performs exactly \<open>try_push\<close> (\<open>try_pop\<close>): same resulting ring,
  the item accepted (handed out) exactly when the sequential function says so, and the other
  thread untouched. The step relation and the functions describe the same code.\<close>

theorem spsc_uninterrupted_call:
  assumes "capacity_ok cap" and "spsc_reach cap s"
  shows "(sy_ppc s = PIdle \<longrightarrow>
      (let (ok, rb) = spsc_try_push cap x (sy_ring s) in
       \<exists>s'. spsc_exec_all cap
              (Call_Push x # replicate (if ok then 4 else 2) (Producer (length (sy_popped s)))) s
            = Some s' \<and> sy_ring s' = rb \<and> sy_ppc s' = PIdle \<and> sy_cpc s' = sy_cpc s \<and>
            sy_pushed s' = sy_pushed s @ (if ok then [x] else []) \<and> sy_popped s' = sy_popped s)) \<and>
    (sy_cpc s = CIdle \<longrightarrow>
      (let (r, rb) = spsc_try_pop cap (sy_ring s) in
       \<exists>s'. spsc_exec_all cap
              (Call_Pop # replicate (if r = None then 2 else 4) (Consumer (length (sy_pushed s)))) s
            = Some s' \<and> sy_ring s' = rb \<and> sy_cpc s' = CIdle \<and> sy_ppc s' = sy_ppc s \<and>
            sy_popped s' = sy_popped s @ (case r of None \<Rightarrow> [] | Some y \<Rightarrow> [y]) \<and>
            sy_pushed s' = sy_pushed s))"
proof -
  from assms have "spsc_sys_inv cap s" by (rule spsc_reach_inv)
  then show ?thesis
    by (intro conjI)
      (auto simp: spsc_try_push_def spsc_try_pop_def Let_def spsc_sys_defs numeral_eq_Suc)
qed

theorem spsc_uninterrupted_call_witness:
  "\<exists>s'. spsc_exec_all 2 (Call_Push 5 # replicate 4 (Producer 0)) (spsc_start [0, 0 :: nat]) = Some s' \<and>
     sy_ring s' = snd (spsc_try_push 2 5 (spsc_init [0, 0])) \<and> sy_pushed s' = [5]"
  using spsc_uninterrupted_call [OF capacity_ok_2 spsc_reach_start [of "[0, 0]"], of 5]
  by (auto simp: spsc_try_push_def spsc_start_def spsc_init_def word_le_nat_alt)

fun producer_rank :: "'a producer_pc \<Rightarrow> nat" where
  "producer_rank PIdle = 0"
| "producer_rank (PLoadTail x) = 4"
| "producer_rank (PLoadHead x t) = 3"
| "producer_rank (PWrite x t) = 2"
| "producer_rank (PStore x t) = 1"

fun consumer_rank :: "'a consumer_pc \<Rightarrow> nat" where
  "consumer_rank CIdle = 0"
| "consumer_rank CLoadHead = 4"
| "consumer_rank (CLoadTail h) = 3"
| "consumer_rank (CRead h) = 2"
| "consumer_rank (CStore h x) = 1"

text \<open>C36: Both operations are wait-free: a thread inside a call always has an enabled step whatever
  the other thread is doing, every own step brings the call closer to its end, and steps of the
  other thread never undo that progress; so each call ends within four own steps.\<close>

theorem spsc_wait_free:
  assumes "capacity_ok cap" and "spsc_reach cap s"
  shows "(sy_ppc s \<noteq> PIdle \<longrightarrow> (\<exists>k t. spsc_exec cap (Producer k) s = Some t)) \<and>
         (sy_cpc s \<noteq> CIdle \<longrightarrow> (\<exists>k t. spsc_exec cap (Consumer k) s = Some t)) \<and>
         (\<forall>k t. spsc_exec cap (Producer k) s = Some t \<longrightarrow>
            producer_rank (sy_ppc t) < producer_rank (sy_ppc s) \<and> sy_cpc t = sy_cpc s) \<and>
         (\<forall>k t. spsc_exec cap (Consumer k) s = Some t \<longrightarrow>
            consumer_rank (sy_cpc t) < consumer_rank (sy_cpc s) \<and> sy_ppc t = sy_ppc s) \<and>
         producer_rank (sy_ppc s) \<le> 4 \<and> consumer_rank (sy_cpc s) \<le> 4"
proof -
  from assms have inv: "spsc_sys_inv cap s" by (rule spsc_reach_inv)
  then have seen: "sy_seen_head s \<le> length (sy_popped s)" "sy_seen_tail s \<le> length (sy_pushed s)"
    by (auto simp: spsc_sys_defs)
  have "sy_ppc s \<noteq> PIdle \<longrightarrow> (\<exists>k t. spsc_exec cap (Producer k) s = Some t)"
    using seen(1) by (cases "sy_ppc s") auto
  moreover have "sy_cpc s \<noteq> CIdle \<longrightarrow> (\<exists>k t. spsc_exec cap (Consumer k) s = Some t)"
    using seen(2) by (cases "sy_cpc s") auto
  moreover have "producer_rank (sy_ppc t) < producer_rank (sy_ppc s) \<and> sy_cpc t = sy_cpc s"
    if "spsc_exec cap (Producer k) s = Some t" for k t
    using that by (auto split: producer_pc.splits if_splits)
  moreover have "consumer_rank (sy_cpc t) < consumer_rank (sy_cpc s) \<and> sy_ppc t = sy_ppc s"
    if "spsc_exec cap (Consumer k) s = Some t" for k t
    using that by (auto split: consumer_pc.splits if_splits)
  moreover have "producer_rank (sy_ppc s) \<le> 4" by (cases "sy_ppc s") auto
  moreover have "consumer_rank (sy_cpc s) \<le> 4" by (cases "sy_cpc s") auto
  ultimately show ?thesis by blast
qed

theorem spsc_wait_free_witness:
  "\<exists>s. spsc_reach 2 s \<and> sy_ppc s = PWrite (9::nat) 2 \<and>
     (\<exists>k t. spsc_exec 2 (Producer k) s = Some t)"
proof -
  obtain s :: "nat spsc_sys" where s: "spsc_reach 2 s" "sy_ppc s = PWrite 9 2"
    using spsc_example_reach by auto
  from spsc_wait_free [OF capacity_ok_2 s(1)] s show ?thesis by (metis producer_pc.distinct(5))
qed

end
