(* ===== verification/Daemon_Threads.thy ===== *)
theory Daemon_Threads
  imports Daemon Spsc_Concurrent
begin

text \<open>
  The daemon \<open>src/feed/coinbase_daemon_main.cpp\<close> as it runs: the web socket's thread inside its callback, the
  consumer thread in its two loops, the signal handler and the stop of the feed, with \<open>try_push\<close> and
  \<open>try_pop\<close> cut at their atomic accesses as in \<open>Spsc_Concurrent\<close> (stale loads included). \<open>Daemon\<close> takes the
  calls of the ring as atomic; here nothing is assumed about who runs when.

  \<open>threads_exec\<close> is one step of the scheduler's choice, None when the chosen thread cannot do that.
  The result of a call of the ring is read off the ghost history: it succeeded when it added an item. The
  counts, the log entries and the detection of one message or one gap are one step of their thread, except the count of a
  pushed message, which the consumer can overtake; no theorem relates two counters, or a counter and
  the log, while such a step is under way. \<open>th_counters\<close> holds the last value of each counter. What another thread reads by
  relaxed loads is in \<open>Daemon_Process\<close>. \<open>th_frames\<close> and \<open>th_session\<close> are ghosts.
\<close>

datatype ws_loop = WsIdle | WsPush | WsCount

datatype consumer_loop = LoopCheck | in_try_pop: LoopPop bool | LoopProcess message | LoopSleep | LoopDone

record 'raw threads =
  th_ring :: "message spsc_sys"
  th_handler :: feed_handler
  th_detectors :: detectors
  th_counters :: counters
  th_alerts :: "alert list"
  th_running :: bool
  th_stopped :: bool
  th_ws :: ws_loop
  th_loop :: consumer_loop
  th_frames :: "'raw list"
  th_session :: "message list"

definition threads_start :: "rule_checker \<Rightarrow> message list \<Rightarrow> 'raw threads" where
  "threads_start rules junk = \<lparr>th_ring = spsc_start junk, th_handler = feed_init True,
     th_detectors = daemon_detectors rules, th_counters = no_counts, th_alerts = [], th_running = True,
     th_stopped = False, th_ws = WsIdle, th_loop = LoopCheck, th_frames = [], th_session = []\<rparr>"

text \<open>\<open>handle\<close> up to its call of \<open>try_push\<close>: the message to push, if any, and the handler.\<close>

definition frame_outcome ::
  "('raw \<Rightarrow> message \<Rightarrow> parse_result \<times> message) \<Rightarrow> 'raw \<Rightarrow> feed_handler \<Rightarrow> message option \<times> feed_handler" where
  "frame_outcome parse raw h =
     (let (r, out) = parse raw zero_message; (accepted, h') = feed_accept_seq (m_stream_id out) (m_seq out) h
      in case r of
           POk \<Rightarrow> (if accepted then Some out else None, h')
         | PHeartbeat \<Rightarrow> (None, h')
         | _ \<Rightarrow> (None, h))"

lemma feed_handle_frame_outcome:
  "feed_handle parse push raw h q =
     (case frame_outcome parse raw h of
        (None, h) \<Rightarrow> (False, h, q)
      | (Some m, h) \<Rightarrow> (let (ok, q) = push m q in (ok, h, q)))"
  by (auto simp: feed_handle_def frame_outcome_def feed_accept_seq_def Let_def
      split: prod.split parse_result.split option.split)

datatype 'raw threads_action =
  FrameArrives nat 'raw
| PushStep nat
| CountPush
| FeedDrops
| SignalArrives
| StopFeed
| CheckRunning
| PopStep nat
| ProcessMessage
| WakeUp

definition begin_frame ::
  "('raw \<Rightarrow> message \<Rightarrow> parse_result \<times> message) \<Rightarrow> nat \<Rightarrow> 'raw \<Rightarrow> feed_handler \<Rightarrow> 'raw threads \<Rightarrow> 'raw threads" where
  "begin_frame parse now_ms raw h s =
     (let gaps = drop (length (fh_gaps (th_handler s))) (fh_gaps h);
          c = count_frame parse now_ms raw (th_counters s)
      in s\<lparr>th_handler := h, th_frames := th_frames s @ [raw], th_alerts := th_alerts s @ map gap_alert gaps,
           th_counters := c\<lparr>co_gaps := co_gaps c + of_nat (length gaps),
             co_alerts := co_alerts c + of_nat (length gaps)\<rparr>\<rparr>)"

definition process_message :: "message \<Rightarrow> 'raw threads \<Rightarrow> 'raw threads" where
  "process_message m s =
     (let (alerts, dets) = detect m (th_detectors s); c = th_counters s
      in s\<lparr>th_detectors := dets, th_alerts := th_alerts s @ alerts,
           th_counters := c\<lparr>co_processed := co_processed c + 1, co_last_message_ts_ns := m_ts_ns m,
             co_alerts := co_alerts c + of_nat (length alerts)\<rparr>\<rparr>)"

definition call_try_pop :: "bool \<Rightarrow> 'raw threads \<Rightarrow> 'raw threads" where
  "call_try_pop worked s = s\<lparr>th_loop := LoopPop worked, th_ring := (th_ring s)\<lparr>sy_cpc := CLoadHead\<rparr>\<rparr>"

text \<open>The web socket's thread: the message callback up to the push, the accesses of \<open>try_push\<close>, the count of
  the pushed message, the drop of the feed.\<close>

definition receive_frame ::
  "('raw \<Rightarrow> message \<Rightarrow> parse_result \<times> message) \<Rightarrow> nat \<Rightarrow> 'raw \<Rightarrow> 'raw threads \<Rightarrow> 'raw threads option" where
  "receive_frame parse now_ms raw s =
     (if th_ws s \<noteq> WsIdle \<or> th_stopped s then None
      else (let (out, h) = frame_outcome parse raw (th_handler s); s = begin_frame parse now_ms raw h s
            in case out of
                 None \<Rightarrow> Some s
               | Some m \<Rightarrow> Some (s\<lparr>th_ws := WsPush, th_ring := (th_ring s)\<lparr>sy_ppc := PLoadTail m\<rparr>\<rparr>)))"

definition push_access :: "u64 \<Rightarrow> nat \<Rightarrow> 'raw threads \<Rightarrow> 'raw threads option" where
  "push_access cap k s =
     (case spsc_exec cap (Producer k) (th_ring s) of
        None \<Rightarrow> None
      | Some r \<Rightarrow>
          (let added = drop (length (sy_pushed (th_ring s))) (sy_pushed r)
           in Some (s\<lparr>th_ring := r, th_session := th_session s @ added,
                th_ws := (if sy_ppc r \<noteq> PIdle then WsPush else if added = [] then WsIdle else WsCount)\<rparr>)))"

definition count_push :: "'raw threads \<Rightarrow> 'raw threads option" where
  "count_push s =
     (if th_ws s \<noteq> WsCount then None
      else Some (s\<lparr>th_ws := WsIdle, th_counters := (th_counters s)\<lparr>co_pushed := co_pushed (th_counters s) + 1\<rparr>\<rparr>))"

definition feed_drops :: "'raw threads \<Rightarrow> 'raw threads option" where
  "feed_drops s =
     (if th_ws s \<noteq> WsIdle \<or> th_stopped s then None
      else (let c = th_counters s;
                c = (if th_running s then c\<lparr>co_reconnects := co_reconnects c + 1\<rparr> else c)
            in Some (s\<lparr>th_counters := c, th_session := [],
                 th_handler := feed_on_reconnect (feed_on_disconnect (th_handler s))\<rparr>)))"

text \<open>The signal handler, and \<open>ws.stop()\<close>, which main calls when it has seen the signal and which waits for a
  running callback.\<close>

definition handle_signal :: "'raw threads \<Rightarrow> 'raw threads" where
  "handle_signal s = s\<lparr>th_running := False\<rparr>"

definition stop_feed :: "'raw threads \<Rightarrow> 'raw threads option" where
  "stop_feed s = (if th_running s \<or> th_ws s \<noteq> WsIdle then None else Some (s\<lparr>th_stopped := True\<rparr>))"

text \<open>The consumer's thread: the outer loop's test, the accesses of \<open>try_pop\<close>, one message, the sleep.\<close>

definition check_running :: "'raw threads \<Rightarrow> 'raw threads option" where
  "check_running s =
     (if th_loop s \<noteq> LoopCheck then None
      else if th_running s then Some (call_try_pop False s) else Some (s\<lparr>th_loop := LoopDone\<rparr>))"

definition pop_access :: "u64 \<Rightarrow> nat \<Rightarrow> 'raw threads \<Rightarrow> 'raw threads option" where
  "pop_access cap k s =
     (case th_loop s of
        LoopPop worked \<Rightarrow>
          (case spsc_exec cap (Consumer k) (th_ring s) of
             None \<Rightarrow> None
           | Some r \<Rightarrow>
               (let taken = drop (length (sy_popped (th_ring s))) (sy_popped r)
                in Some (s\<lparr>th_ring := r,
                     th_loop := (if sy_cpc r \<noteq> CIdle then LoopPop worked
                                 else case taken of m # _ \<Rightarrow> LoopProcess m
                                    | [] \<Rightarrow> if worked then LoopCheck else LoopSleep)\<rparr>)))
      | _ \<Rightarrow> None)"

definition process_popped :: "'raw threads \<Rightarrow> 'raw threads option" where
  "process_popped s =
     (case th_loop s of LoopProcess m \<Rightarrow> Some (call_try_pop True (process_message m s)) | _ \<Rightarrow> None)"

definition wake_up :: "'raw threads \<Rightarrow> 'raw threads option" where
  "wake_up s = (if th_loop s \<noteq> LoopSleep then None else Some (s\<lparr>th_loop := LoopCheck\<rparr>))"

fun threads_exec ::
  "u64 \<Rightarrow> ('raw \<Rightarrow> message \<Rightarrow> parse_result \<times> message) \<Rightarrow> 'raw threads_action \<Rightarrow> 'raw threads \<Rightarrow> 'raw threads option" where
  "threads_exec cap parse (FrameArrives now_ms raw) s = receive_frame parse now_ms raw s"
| "threads_exec cap parse (PushStep k) s = push_access cap k s"
| "threads_exec cap parse CountPush s = count_push s"
| "threads_exec cap parse FeedDrops s = feed_drops s"
| "threads_exec cap parse SignalArrives s = Some (handle_signal s)"
| "threads_exec cap parse StopFeed s = stop_feed s"
| "threads_exec cap parse CheckRunning s = check_running s"
| "threads_exec cap parse (PopStep k) s = pop_access cap k s"
| "threads_exec cap parse ProcessMessage s = process_popped s"
| "threads_exec cap parse WakeUp s = wake_up s"

lemmas thread_step_defs = receive_frame_def push_access_def count_push_def feed_drops_def handle_signal_def
  stop_feed_def check_running_def pop_access_def process_popped_def wake_up_def

declare thread_step_defs [simp]

definition threads_step where
  "threads_step cap parse s t \<longleftrightarrow> (\<exists>a. threads_exec cap parse a s = Some t)"

definition threads_init :: "u64 \<Rightarrow> rule_checker \<Rightarrow> 'raw threads \<Rightarrow> bool" where
  "threads_init cap rules s \<longleftrightarrow> (\<exists>junk. length junk = unat cap \<and> s = threads_start rules junk)"

abbreviation threads_reach where
  "threads_reach cap parse rules \<equiv> reach (threads_init cap rules) (threads_step cap parse)"

section \<open>The invariant\<close>

fun in_flight :: "'a producer_pc \<Rightarrow> 'a list" where
  "in_flight PIdle = []"
| "in_flight (PLoadTail x) = [x]"
| "in_flight (PLoadHead x _) = [x]"
| "in_flight (PWrite x _) = [x]"
| "in_flight (PStore x _) = [x]"

text \<open>One step of a thread inside the ring, seen from outside: the call goes on, fails or succeeds.\<close>

lemma producer_exec:
  assumes "spsc_exec cap (Producer k) r = Some r'"
  obtains (goes_on) x where "in_flight (sy_ppc r) = [x]" "in_flight (sy_ppc r') = [x]" "sy_ppc r' \<noteq> PIdle"
      "sy_pushed r' = sy_pushed r" "sy_cpc r' = sy_cpc r" "sy_popped r' = sy_popped r"
    | (fails) x where "in_flight (sy_ppc r) = [x]" "sy_ppc r' = PIdle"
      "sy_pushed r' = sy_pushed r" "sy_cpc r' = sy_cpc r" "sy_popped r' = sy_popped r"
    | (succeeds) x where "in_flight (sy_ppc r) = [x]" "sy_ppc r' = PIdle"
      "sy_pushed r' = sy_pushed r @ [x]" "sy_cpc r' = sy_cpc r" "sy_popped r' = sy_popped r"
  using assms by (auto split: producer_pc.splits if_splits)

lemma consumer_exec:
  assumes "spsc_exec cap (Consumer k) r = Some r'"
  obtains (goes_on) "sy_cpc r \<noteq> CIdle" "sy_cpc r' \<noteq> CIdle" "sy_popped r' = sy_popped r"
      "sy_ppc r' = sy_ppc r" "sy_pushed r' = sy_pushed r"
    | (fails) "sy_cpc r \<noteq> CIdle" "sy_cpc r' = CIdle" "sy_popped r' = sy_popped r"
      "sy_ppc r' = sy_ppc r" "sy_pushed r' = sy_pushed r"
    | (succeeds) m where "sy_cpc r \<noteq> CIdle" "sy_cpc r' = CIdle" "sy_popped r' = sy_popped r @ [m]"
      "sy_ppc r' = sy_ppc r" "sy_pushed r' = sy_pushed r"
  using assms by (auto split: consumer_pc.splits if_splits)

lemma spsc_reach_exec: "spsc_reach cap r \<Longrightarrow> spsc_exec cap a r = Some r' \<Longrightarrow> spsc_reach cap r'"
  using spsc_exec_all_reach [of cap "[a]" r r'] by simp

lemma spsc_pop_enabled:
  assumes "capacity_ok cap" "spsc_reach cap r" "sy_cpc r \<noteq> CIdle"
  shows "\<exists>r'. spsc_exec cap (Consumer (length (sy_pushed r))) r = Some r'"
  using assms(3) spsc_reach_inv [OF assms(1,2)] by (cases "sy_cpc r") (auto simp: spsc_sys_defs)

declare spsc_exec.simps [simp del]

text \<open>Where the threads are.\<close>

definition control_ok :: "u64 \<Rightarrow> 'raw threads \<Rightarrow> bool" where
  "control_ok cap s \<longleftrightarrow> spsc_reach cap (th_ring s) \<and>
     (th_ws s = WsPush \<longleftrightarrow> sy_ppc (th_ring s) \<noteq> PIdle) \<and>
     (in_try_pop (th_loop s) \<longleftrightarrow> sy_cpc (th_ring s) \<noteq> CIdle) \<and>
     (th_stopped s \<longrightarrow> \<not> th_running s \<and> th_ws s = WsIdle) \<and> (th_loop s = LoopDone \<longrightarrow> \<not> th_running s)"

text \<open>What the consumer has taken through the detectors.\<close>

definition processed :: "'raw threads \<Rightarrow> message list" where
  "processed s = (case th_loop s of LoopProcess _ \<Rightarrow> butlast (sy_popped (th_ring s)) | _ \<Rightarrow> sy_popped (th_ring s))"

lemma processed_cong:
  "th_loop t = th_loop s \<Longrightarrow> sy_popped (th_ring t) = sy_popped (th_ring s) \<Longrightarrow> processed t = processed s"
  by (simp add: processed_def split: consumer_loop.split)

definition consumer_ok :: "rule_checker \<Rightarrow> 'raw threads \<Rightarrow> bool" where
  "consumer_ok rules s \<longleftrightarrow>
     (\<forall>m. th_loop s = LoopProcess m \<longrightarrow> sy_popped (th_ring s) = processed s @ [m]) \<and>
     th_detectors s = snd (detect_all (processed s) (daemon_detectors rules)) \<and>
     filter (\<lambda>a. \<not> from_feed a) (th_alerts s) = fst (detect_all (processed s) (daemon_detectors rules)) \<and>
     co_processed (th_counters s) = of_nat (length (processed s))"

definition says_tick :: "('raw \<Rightarrow> message \<Rightarrow> parse_result \<times> message) \<Rightarrow> 'raw list \<Rightarrow> message \<Rightarrow> bool" where
  "says_tick parse raws m \<longleftrightarrow> list_ex (\<lambda>raw. parse raw zero_message = (POk, m)) raws"

lemma reach_call_push: "spsc_reach cap r \<Longrightarrow> sy_ppc r = PIdle \<Longrightarrow> spsc_reach cap (r\<lparr>sy_ppc := PLoadTail m\<rparr>)"
  by (auto intro: reach.reach_step spsc_step.p_call)

lemma reach_call_pop: "spsc_reach cap r \<Longrightarrow> sy_cpc r = CIdle \<Longrightarrow> spsc_reach cap (r\<lparr>sy_cpc := CLoadHead\<rparr>)"
  by (auto intro: reach.reach_step spsc_step.c_call)

lemma control_ok_cong:
  assumes "control_ok cap s" "th_ring t = th_ring s" "th_ws t = th_ws s" "th_loop t = th_loop s"
    "th_stopped t = th_stopped s" "th_running t = th_running s"
  shows "control_ok cap t"
  using assms by (simp add: control_ok_def)

lemma control_step:
  assumes "threads_exec cap parse a s = Some t" "control_ok cap s"
  shows "control_ok cap t"
proof (cases a)
  case (FrameArrives now raw)
  obtain out h where o: "frame_outcome parse raw (th_handler s) = (out, h)" by force
  define u where "u = begin_frame parse now raw h s"
  have u: "control_ok cap u" "th_ring u = th_ring s" "th_loop u = th_loop s"
    by (rule control_ok_cong [OF assms(2)]) (simp_all add: u_def begin_frame_def Let_def)
  have en: "th_ws s = WsIdle" "\<not> th_stopped s" using assms(1) by (auto simp: FrameArrives split: if_splits)
  then have idle: "sy_ppc (th_ring s) = PIdle" using assms(2) by (simp add: control_ok_def)
  show ?thesis
  proof (cases out)
    case None
    then have "t = u" using assms(1) en by (simp add: FrameArrives o u_def Let_def)
    then show ?thesis using u(1) by simp
  next
    case (Some m)
    then have "t = u\<lparr>th_ws := WsPush, th_ring := (th_ring u)\<lparr>sy_ppc := PLoadTail m\<rparr>\<rparr>"
      using assms(1) en u(2) by (simp add: FrameArrives o u_def Let_def)
    then show ?thesis using u en idle reach_call_push [of cap "th_ring s" m]
      by (simp add: control_ok_def u_def begin_frame_def Let_def)
  qed
next
  case (PushStep k)
  then obtain r where r: "spsc_exec cap (Producer k) (th_ring s) = Some r"
    using assms(1) by (auto split: option.splits)
  have rr: "spsc_reach cap r" using assms(2) r by (auto simp: control_ok_def intro: spsc_reach_exec)
  from r have "sy_ppc (th_ring s) \<noteq> PIdle" by (cases rule: producer_exec) auto
  then have "\<not> th_stopped s" using assms(2) by (auto simp: control_ok_def)
  moreover from r have "sy_cpc r = sy_cpc (th_ring s)" by (cases rule: producer_exec) simp_all
  moreover have "th_ring t = r" "th_loop t = th_loop s" "th_stopped t = th_stopped s" "th_running t = th_running s"
    "th_ws t = WsPush \<longleftrightarrow> sy_ppc r \<noteq> PIdle"
    using assms(1) r by (auto simp: PushStep Let_def split: if_splits)
  ultimately show ?thesis using assms(2) rr by (simp add: control_ok_def)
next
  case (PopStep k)
  then obtain r w where r: "spsc_exec cap (Consumer k) (th_ring s) = Some r" "th_loop s = LoopPop w"
    using assms(1) by (auto split: option.splits consumer_loop.splits)
  have rr: "spsc_reach cap r" using assms(2) r by (auto simp: control_ok_def intro: spsc_reach_exec)
  from r(1) have "sy_ppc r = sy_ppc (th_ring s)" by (cases rule: consumer_exec) simp_all
  moreover have "th_ring t = r" "th_ws t = th_ws s" "th_stopped t = th_stopped s" "th_running t = th_running s"
    "in_try_pop (th_loop t) \<longleftrightarrow> sy_cpc r \<noteq> CIdle" "th_loop t \<noteq> LoopDone"
    using assms(1) r by (auto simp: PopStep Let_def split: list.splits if_splits)
  ultimately show ?thesis using assms(2) rr by (simp add: control_ok_def)
next
  case CheckRunning
  then show ?thesis using assms reach_call_pop [of cap "th_ring s"]
    by (cases "th_running s") (auto simp: control_ok_def call_try_pop_def split: if_splits)
next
  case ProcessMessage
  then obtain m where m: "th_loop s = LoopProcess m" using assms(1) by (auto split: consumer_loop.splits)
  define u where "u = process_message m s"
  have u: "control_ok cap u" "th_loop u = LoopProcess m"
    by (rule control_ok_cong [OF assms(2)]) (simp_all add: u_def process_message_def case_prod_unfold Let_def m)
  have "t = call_try_pop True u" using assms(1) by (simp add: ProcessMessage m u_def)
  then show ?thesis using u reach_call_pop [of cap "th_ring u"] by (auto simp: control_ok_def call_try_pop_def)
next
  case CountPush
  then show ?thesis using assms by (auto simp: control_ok_def split: if_splits)
next
  case FeedDrops
  then show ?thesis using assms(1)
    by (intro control_ok_cong [OF assms(2)]) (simp_all add: Let_def split: if_splits, auto)
qed (use assms in \<open>auto simp: control_ok_def split: if_splits\<close>)

lemma consumer_ok_cong:
  assumes "consumer_ok rules s" "th_loop t = th_loop s" "sy_popped (th_ring t) = sy_popped (th_ring s)"
    "th_detectors t = th_detectors s" "co_processed (th_counters t) = co_processed (th_counters s)"
    "filter (\<lambda>a. \<not> from_feed a) (th_alerts t) = filter (\<lambda>a. \<not> from_feed a) (th_alerts s)"
  shows "consumer_ok rules t"
  using assms processed_cong [of t s] by (simp add: consumer_ok_def)

lemma processed_idle: "(\<And>m. th_loop s \<noteq> LoopProcess m) \<Longrightarrow> processed s = sy_popped (th_ring s)"
  by (cases "th_loop s") (auto simp: processed_def)

text \<open>The consumer's loop moves without a message in hand.\<close>

lemma consumer_ok_idle:
  assumes "consumer_ok rules s" "\<And>m. th_loop s \<noteq> LoopProcess m" "\<And>m. th_loop t \<noteq> LoopProcess m"
    "sy_popped (th_ring t) = sy_popped (th_ring s)" "th_detectors t = th_detectors s"
    "th_counters t = th_counters s" "th_alerts t = th_alerts s"
  shows "consumer_ok rules t"
  using assms processed_idle [OF assms(2)] processed_idle [OF assms(3)] by (simp add: consumer_ok_def)

lemma consumer_step:
  assumes "threads_exec cap parse a s = Some t" "consumer_ok rules s"
  shows "consumer_ok rules t"
proof (cases a)
  case (FrameArrives now raw)
  with assms(1) show ?thesis
    by (intro consumer_ok_cong [OF assms(2)])
      (auto simp: begin_frame_def Let_def filter_empty_conv split: if_splits prod.splits option.splits)
next
  case (PushStep k)
  then obtain r where r: "spsc_exec cap (Producer k) (th_ring s) = Some r"
    using assms(1) by (auto split: option.splits)
  then have "sy_popped r = sy_popped (th_ring s)" by (cases rule: producer_exec) simp_all
  with r show ?thesis using assms(1) by (intro consumer_ok_cong [OF assms(2)]) (auto simp: PushStep Let_def)
next
  case (PopStep k)
  then obtain r w where r: "spsc_exec cap (Consumer k) (th_ring s) = Some r" "th_loop s = LoopPop w"
    using assms(1) by (auto split: option.splits consumer_loop.splits)
  note idle = consumer_ok_idle [OF assms(2)]
  from r(1) show ?thesis
  proof (cases rule: consumer_exec)
    case (succeeds m)
    then have "th_loop t = LoopProcess m" "sy_popped (th_ring t) = sy_popped (th_ring s) @ [m]"
      "th_detectors t = th_detectors s" "th_counters t = th_counters s" "th_alerts t = th_alerts s"
      using assms(1) r by (auto simp: PopStep Let_def)
    then show ?thesis using assms(2) processed_idle [of s] r(2) by (simp add: consumer_ok_def processed_def)
  qed (use assms(1) r in \<open>auto simp: PopStep Let_def intro!: idle split: if_splits\<close>)
next
  case ProcessMessage
  then obtain m where m: "th_loop s = LoopProcess m" using assms(1) by (auto split: consumer_loop.splits)
  have popped: "sy_popped (th_ring s) = processed s @ [m]" using assms(2) m by (simp add: consumer_ok_def)
  have "filter (\<lambda>a. \<not> from_feed a) (fst (detect m d)) = fst (detect m d)" for d
    using detect_layers [of m d] by (simp add: list_all_iff filter_id_conv)
  moreover have t: "t = call_try_pop True (process_message m s)" using assms(1) by (simp add: ProcessMessage m)
  moreover have "processed t = processed s @ [m]"
    using popped by (simp add: t processed_def call_try_pop_def process_message_def case_prod_unfold Let_def)
  ultimately show ?thesis using assms(2)
    by (simp add: consumer_ok_def call_try_pop_def process_message_def case_prod_unfold Let_def detect_all_append)
next
  case CheckRunning
  with assms(1) show ?thesis
    by (intro consumer_ok_idle [OF assms(2)]) (auto simp: call_try_pop_def split: if_splits)
next
  case WakeUp
  with assms(1) show ?thesis by (intro consumer_ok_idle [OF assms(2)]) (auto split: if_splits)
qed (use assms(1) in \<open>auto intro!: consumer_ok_cong [OF assms(2)] simp: Let_def split: if_splits\<close>)

text \<open>The feed's side.\<close>

lemma says_tick_snoc: "says_tick parse raws m \<Longrightarrow> says_tick parse (raws @ [raw]) m"
  by (simp add: says_tick_def)

lemma frame_outcome_gaps: "\<exists>gs. fh_gaps (snd (frame_outcome parse raw h)) = fh_gaps h @ gs"
  using accept_seq_gaps by (auto simp: frame_outcome_def Let_def case_prod_unfold split: parse_result.split)

lemma frame_outcome_covers:
  assumes "frame_outcome parse raw h = (out, h')" "covered ms h" "increasing ms"
  shows "case out of
      None \<Rightarrow> covered ms h'
    | Some m \<Rightarrow> parse raw zero_message = (POk, m) \<and> increasing (ms @ [m]) \<and> covered (ms @ [m]) h'"
proof -
  obtain r m where p: "parse raw zero_message = (r, m)" by force
  obtain ok h1 where a: "feed_accept_seq (m_stream_id m) (m_seq m) h = (ok, h1)" by force
  show ?thesis using assms accept_covers [OF assms(2) a]
    by (auto simp: frame_outcome_def p a split: parse_result.splits if_splits)
qed

definition feed_part_ok :: "('raw \<Rightarrow> message \<Rightarrow> parse_result \<times> message) \<Rightarrow> 'raw threads \<Rightarrow> bool" where
  "feed_part_ok parse s \<longleftrightarrow>
     (let coming = in_flight (sy_ppc (th_ring s))
      in list_all (says_tick parse (th_frames s)) (sy_pushed (th_ring s) @ coming) \<and>
         suffix (th_session s) (sy_pushed (th_ring s)) \<and> increasing (th_session s @ coming) \<and>
         covered (th_session s @ coming) (th_handler s))"

definition feed_counts_ok :: "'raw threads \<Rightarrow> bool" where
  "feed_counts_ok s \<longleftrightarrow>
     filter from_feed (th_alerts s) = map gap_alert (fh_gaps (th_handler s)) \<and>
     co_pushed (th_counters s) + (if th_ws s = WsCount then 1 else 0) = of_nat (length (sy_pushed (th_ring s))) \<and>
     (th_ws s = WsCount \<longrightarrow> sy_pushed (th_ring s) \<noteq> []) \<and>
     co_gaps (th_counters s) = of_nat (length (fh_gaps (th_handler s))) \<and>
     co_alerts (th_counters s) = of_nat (length (th_alerts s))"

lemma increasing_prefix: "increasing (xs @ ys) \<Longrightarrow> increasing xs"
  by (simp add: increasing_def sorted_wrt_append)

lemma covered_append [simp]: "covered (xs @ ys) h \<longleftrightarrow> covered xs h \<and> covered ys h"
  by (auto simp: covered_def)

lemma covered_Nil [simp]: "covered [] h"
  by (simp add: covered_def)

lemma feed_part_step:
  assumes "threads_exec cap parse a s = Some t" "control_ok cap s" "feed_part_ok parse s"
  shows "feed_part_ok parse t"
proof (cases a)
  case (FrameArrives now raw)
  obtain out h where o: "frame_outcome parse raw (th_handler s) = (out, h)" by force
  have idle: "sy_ppc (th_ring s) = PIdle" using assms(1,2) by (auto simp: FrameArrives control_ok_def split: if_splits)
  have c: "covered (th_session s) (th_handler s)" "increasing (th_session s)"
    using assms(3) by (simp_all add: feed_part_ok_def idle)
  have "list_all (says_tick parse (th_frames s @ [raw])) (sy_pushed (th_ring s))"
    using assms(3) by (auto simp: feed_part_ok_def list_all_iff Let_def says_tick_snoc)
  moreover note frame_outcome_covers [OF o c]
  ultimately show ?thesis using assms(1,3) idle
    by (auto simp: FrameArrives feed_part_ok_def begin_frame_def o Let_def says_tick_def split: if_splits option.splits)
next
  case (PushStep k)
  then obtain r where r: "spsc_exec cap (Producer k) (th_ring s) = Some r"
    using assms(1) by (auto split: option.splits)
  then show ?thesis
  proof (cases rule: producer_exec)
    case (succeeds x)
    then show ?thesis using assms(1,3) r suffix_snoc [of "th_session s" "sy_pushed (th_ring s)" "[]" x]
      by (auto simp: PushStep feed_part_ok_def Let_def)
  qed (use assms(1,3) r in \<open>auto simp: PushStep feed_part_ok_def Let_def dest: increasing_prefix\<close>)
next
  case FeedDrops
  have idle: "sy_ppc (th_ring s) = PIdle" using assms(1,2) by (auto simp: FeedDrops control_ok_def split: if_splits)
  then show ?thesis using assms(1,3)
    by (auto simp: FeedDrops feed_part_ok_def Let_def increasing_def covered_def split: if_splits)
next
  case (PopStep k)
  then obtain r w where r: "spsc_exec cap (Consumer k) (th_ring s) = Some r" "th_loop s = LoopPop w"
    using assms(1) by (auto split: option.splits consumer_loop.splits)
  from r(1) have "sy_ppc r = sy_ppc (th_ring s) \<and> sy_pushed r = sy_pushed (th_ring s)"
    by (cases rule: consumer_exec) simp_all
  then show ?thesis using assms(1,3) r by (auto simp: PopStep feed_part_ok_def Let_def)
qed (use assms(1,3) in \<open>auto simp: feed_part_ok_def call_try_pop_def process_message_def Let_def
    split: if_splits consumer_loop.splits prod.splits\<close>)

lemma feed_counts_step:
  assumes "threads_exec cap parse a s = Some t" "control_ok cap s" "feed_counts_ok s"
  shows "feed_counts_ok t"
proof (cases a)
  case (FrameArrives now raw)
  obtain out h where o: "frame_outcome parse raw (th_handler s) = (out, h)" by force
  obtain gs where gs: "fh_gaps h = fh_gaps (th_handler s) @ gs"
    using frame_outcome_gaps [of parse raw "th_handler s"] by (auto simp: o)
  have "filter from_feed (map gap_alert gs) = map gap_alert gs" by (induction gs) simp_all
  then show ?thesis using assms(1,3)
    by (auto simp: FrameArrives feed_counts_ok_def begin_frame_def o gs Let_def split: if_splits option.splits)
next
  case (PushStep k)
  then obtain r where r: "spsc_exec cap (Producer k) (th_ring s) = Some r"
    using assms(1) by (auto split: option.splits)
  from r have "sy_ppc (th_ring s) \<noteq> PIdle" by (cases rule: producer_exec) auto
  then have "th_ws s = WsPush" using assms(2) by (simp add: control_ok_def)
  with r show ?thesis
    by (cases rule: producer_exec) (use assms(1,3) r in \<open>auto simp: PushStep feed_counts_ok_def Let_def\<close>)
next
  case (PopStep k)
  then obtain r w where r: "spsc_exec cap (Consumer k) (th_ring s) = Some r" "th_loop s = LoopPop w"
    using assms(1) by (auto split: option.splits consumer_loop.splits)
  from r(1) have "sy_pushed r = sy_pushed (th_ring s)" by (cases rule: consumer_exec) simp_all
  then show ?thesis using assms(1,3) r by (auto simp: PopStep feed_counts_ok_def Let_def)
next
  case ProcessMessage
  have "filter from_feed (fst (detect m d)) = []" for m d
    using detect_layers [of m d] by (simp add: list_all_iff filter_empty_conv)
  then show ?thesis using assms(1,3)
    by (auto simp: ProcessMessage feed_counts_ok_def call_try_pop_def process_message_def case_prod_unfold Let_def
        split: consumer_loop.splits)
qed (use assms(1,3) in \<open>auto simp: feed_counts_ok_def call_try_pop_def Let_def feed_on_reconnect_def
    feed_on_disconnect_def feed_reset_def split: if_splits\<close>)

lemma threads_invariant:
  fixes s :: "'raw threads"
  assumes "threads_reach cap parse rules s"
  shows "control_ok cap s \<and> consumer_ok rules s \<and> feed_part_ok parse s \<and> feed_counts_ok s"
  using assms
proof (rule reach_invariant)
  fix s :: "'raw threads" assume "threads_init cap rules s"
  then show "control_ok cap s \<and> consumer_ok rules s \<and> feed_part_ok parse s \<and> feed_counts_ok s"
    by (auto simp: threads_init_def threads_start_def control_ok_def consumer_ok_def processed_def feed_part_ok_def
        feed_counts_ok_def spsc_start_def feed_init_def no_counts_def increasing_def
        intro: spsc_reach_start [unfolded spsc_start_def])
next
  fix s t :: "'raw threads" assume "control_ok cap s \<and> consumer_ok rules s \<and> feed_part_ok parse s \<and> feed_counts_ok s"
    "threads_step cap parse s t"
  then show "control_ok cap t \<and> consumer_ok rules t \<and> feed_part_ok parse t \<and> feed_counts_ok t"
    by (auto simp: threads_step_def intro: control_step consumer_step feed_part_step feed_counts_step)
qed

text \<open>What the threads have pushed, popped and processed.\<close>

lemma threads_ring:
  assumes "capacity_ok cap" "control_ok cap s" "consumer_ok rules s"
  shows "prefix (processed s) (sy_pushed (th_ring s))"
    "length (sy_pushed (th_ring s)) \<le> length (processed s) + unat cap + 1"
proof -
  have inv: "spsc_sys_inv cap (th_ring s)" using assms(1,2) by (auto simp: control_ok_def intro: spsc_reach_inv)
  then have pop: "prefix (sy_popped (th_ring s)) (sy_pushed (th_ring s))"
    "length (sy_pushed (th_ring s)) \<le> length (sy_popped (th_ring s)) + unat cap"
    by (auto simp: spsc_sys_defs) (metis take_is_prefix)
  have "prefix (processed s) (sy_popped (th_ring s)) \<and> length (sy_popped (th_ring s)) \<le> length (processed s) + 1"
  proof (cases "\<exists>m. th_loop s = LoopProcess m")
    case True
    then show ?thesis using assms(3) by (auto simp: consumer_ok_def)
  next
    case False
    then show ?thesis using processed_idle [of s] by auto
  qed
  then show "prefix (processed s) (sy_pushed (th_ring s))"
    "length (sy_pushed (th_ring s)) \<le> length (processed s) + unat cap + 1"
    using pop by (auto intro: prefix_order.trans)
qed

section \<open>What the running daemon guarantees\<close>

text \<open>C4: However the threads are scheduled, down to single atomic accesses and stale loads: the messages
  the consumer has processed are the first of those pushed, in order, and at most a ring and one
  message behind; everything pushed is the tick of a received frame, with strictly increasing
  numbers per stream since the last drop of the feed; detectors and detection alerts are those of one
  sequential pass over the processed messages; the feed's alerts are the gaps the handler found.\<close>

theorem threads_end_to_end:
  assumes "capacity_ok cap" "threads_reach cap parse rules s"
  shows "prefix (processed s) (sy_pushed (th_ring s)) \<and>
    length (sy_pushed (th_ring s)) \<le> length (processed s) + unat cap + 1 \<and>
    list_all (says_tick parse (th_frames s)) (sy_pushed (th_ring s)) \<and>
    suffix (th_session s) (sy_pushed (th_ring s)) \<and> increasing (th_session s) \<and>
    th_detectors s = snd (detect_all (processed s) (daemon_detectors rules)) \<and>
    filter (\<lambda>a. \<not> from_feed a) (th_alerts s) = fst (detect_all (processed s) (daemon_detectors rules)) \<and>
    filter from_feed (th_alerts s) = map gap_alert (fh_gaps (th_handler s))"
  using threads_ring [OF assms(1)] threads_invariant [OF assms(2)]
  by (auto simp: consumer_ok_def feed_part_ok_def feed_counts_ok_def Let_def dest: increasing_prefix)

text \<open>The steps left to the consumer when nothing more comes.\<close>

definition shutdown_rank :: "'raw threads \<Rightarrow> nat" where
  "shutdown_rank s = 10 * (length (sy_pushed (th_ring s)) - length (sy_popped (th_ring s))) +
     (case th_loop s of LoopDone \<Rightarrow> 0 | LoopCheck \<Rightarrow> 1 | LoopSleep \<Rightarrow> 2 | LoopProcess _ \<Rightarrow> 7
      | LoopPop _ \<Rightarrow> (case sy_cpc (th_ring s) of CIdle \<Rightarrow> 0 | CLoadHead \<Rightarrow> 6 | CLoadTail _ \<Rightarrow> 5 | CRead _ \<Rightarrow> 4 | CStore _ _ \<Rightarrow> 3))"

lemma shutdown_pop:
  assumes "capacity_ok cap" "control_ok cap s" "threads_exec cap parse (PopStep k) s = Some t" "\<not> th_running s"
  shows "shutdown_rank t < shutdown_rank s"
proof -
  from assms(3) obtain r w where r: "spsc_exec cap (Consumer k) (th_ring s) = Some r" "th_loop s = LoopPop w"
    by (auto split: option.splits consumer_loop.splits)
  have "spsc_reach cap r" using assms(2) r(1) by (auto simp: control_ok_def intro: spsc_reach_exec)
  then have le: "length (sy_popped r) \<le> length (sy_pushed r)"
    using spsc_reach_inv [OF assms(1), of r] by (simp add: spsc_sys_defs)
  show ?thesis
    using assms(3) r le by (auto simp: shutdown_rank_def Let_def spsc_exec.simps split: consumer_pc.splits if_splits)
qed

text \<open>The daemon shuts down. Once the signal has come and the feed is stopped, nothing is pushed any
  more, some step of the consumer is possible until it has left its loop, and every step that changes
  anything brings it nearer to the end; so \<open>consumer.join()\<close> returns.\<close>

theorem shutdown_terminates:
  assumes "capacity_ok cap" "threads_reach cap parse rules s" "th_stopped s"
  shows "(th_loop s \<noteq> LoopDone \<longrightarrow> (\<exists>t. threads_step cap parse s t \<and> shutdown_rank t < shutdown_rank s)) \<and>
    (\<forall>t. threads_step cap parse s t \<longrightarrow> t = s \<or> shutdown_rank t < shutdown_rank s \<and> th_stopped t \<and>
       sy_pushed (th_ring t) = sy_pushed (th_ring s))"
proof -
  have c: "control_ok cap s" and k: "consumer_ok rules s" using threads_invariant [OF assms(2)] by blast+
  have run: "\<not> th_running s" "th_ws s = WsIdle" "sy_ppc (th_ring s) = PIdle"
    using c assms(3) by (auto simp: control_ok_def)
  have "t = s \<or> shutdown_rank t < shutdown_rank s \<and> th_stopped t \<and> sy_pushed (th_ring t) = sy_pushed (th_ring s)"
    if st: "threads_exec cap parse a s = Some t" for a t
  proof (cases a)
    case (PopStep j)
    then obtain r w where r: "spsc_exec cap (Consumer j) (th_ring s) = Some r" "th_loop s = LoopPop w"
      using st by (auto split: option.splits consumer_loop.splits)
    from r(1) have "sy_pushed r = sy_pushed (th_ring s)" by (cases rule: consumer_exec) simp_all
    then show ?thesis using shutdown_pop [OF assms(1) c, of parse j t] st r run(1) assms(3)
      by (auto simp: PopStep Let_def)
  next
    case (PushStep j)
    then show ?thesis using st run by (auto simp: spsc_exec.simps)
  next
    case ProcessMessage
    then show ?thesis using st assms(3)
      by (auto simp: shutdown_rank_def call_try_pop_def process_message_def case_prod_unfold Let_def split: consumer_loop.splits)
  qed (use st run assms(3) in \<open>auto simp: shutdown_rank_def split: if_splits intro!: threads.equality\<close>)
  moreover have "\<exists>a t. threads_exec cap parse a s = Some t \<and> shutdown_rank t < shutdown_rank s" if "th_loop s \<noteq> LoopDone"
  proof (cases "th_loop s")
    case LoopCheck
    then show ?thesis using run by (intro exI [of _ CheckRunning]) (simp add: shutdown_rank_def)
  next
    case LoopSleep
    then show ?thesis by (intro exI [of _ WakeUp]) (simp add: shutdown_rank_def)
  next
    case (LoopProcess m)
    then show ?thesis
      by (intro exI [of _ ProcessMessage])
        (simp add: shutdown_rank_def call_try_pop_def process_message_def case_prod_unfold Let_def)
  next
    case (LoopPop w)
    then have "sy_cpc (th_ring s) \<noteq> CIdle" "spsc_reach cap (th_ring s)" using c by (auto simp: control_ok_def)
    then obtain r where "spsc_exec cap (Consumer (length (sy_pushed (th_ring s)))) (th_ring s) = Some r"
      using spsc_pop_enabled [OF assms(1)] by blast
    then obtain t where t: "threads_exec cap parse (PopStep (length (sy_pushed (th_ring s)))) s = Some t"
      by (simp add: LoopPop Let_def)
    then show ?thesis using shutdown_pop [OF assms(1) c t run(1)] by blast
  qed (use that in simp)
  ultimately show ?thesis unfolding threads_step_def by blast
qed

fun threads_exec_all where
  "threads_exec_all cap parse [] s = Some s"
| "threads_exec_all cap parse (a # as) s =
     (case threads_exec cap parse a s of None \<Rightarrow> None | Some t \<Rightarrow> threads_exec_all cap parse as t)"

lemma threads_exec_all_reach:
  "threads_exec_all cap parse as s = Some t \<Longrightarrow> threads_reach cap parse rules s \<Longrightarrow> threads_reach cap parse rules t"
proof (induction as arbitrary: s)
  case (Cons a as)
  then obtain u where u: "threads_exec cap parse a s = Some u" "threads_exec_all cap parse as u = Some t"
    by (auto split: option.splits)
  have "threads_step cap parse s u" using u(1) by (auto simp: threads_step_def)
  then show ?case using Cons.IH [OF u(2)] Cons.prems(2) by (auto intro: reach.reach_step)
qed simp

lemma threads_reach_start: "length junk = unat cap \<Longrightarrow> threads_reach cap parse rules (threads_start rules junk)"
  by (rule reach.reach_init) (auto simp: threads_init_def)

text \<open>A tick that arrives between the exit of the consumer and the stop of the feed.\<close>

definition late_tick :: "(parse_result \<times> u32 \<times> u64) threads_action list" where
  "late_tick = [SignalArrives, CheckRunning, FrameArrives 1 (POk, 1, 5), PushStep 0, PushStep 0, PushStep 0, PushStep 0,
     CountPush, StopFeed]"

lemma late_tick_run:
  "case threads_exec_all 2 echo_parse late_tick (threads_start rules_init [zero_message, zero_message]) of
     None \<Rightarrow> False
   | Some s \<Rightarrow> th_loop s = LoopDone \<and> th_stopped s \<and> length (sy_pushed (th_ring s)) = 1 \<and>
       sy_popped (th_ring s) = [] \<and> co_pushed (th_counters s) = 1 \<and> co_processed (th_counters s) = 0"
  by code_simp

lemma late_tick_reach:
  "\<exists>s. threads_reach 2 echo_parse rules_init s \<and> th_loop s = LoopDone \<and> th_stopped s \<and>
     sy_popped (th_ring s) = [] \<and> length (sy_pushed (th_ring s)) = 1 \<and>
     co_pushed (th_counters s) = 1 \<and> co_processed (th_counters s) = 0"
proof -
  define s0 where "s0 = (threads_start rules_init [zero_message, zero_message] :: (parse_result \<times> u32 \<times> u64) threads)"
  have s0: "threads_reach 2 echo_parse rules_init s0" unfolding s0_def by (rule threads_reach_start) simp
  obtain s where s: "threads_exec_all 2 echo_parse late_tick s0 = Some s" "th_loop s = LoopDone" "th_stopped s"
    "length (sy_pushed (th_ring s)) = 1" "sy_popped (th_ring s) = []"
    "co_pushed (th_counters s) = 1" "co_processed (th_counters s) = 0"
    using late_tick_run unfolding s0_def [symmetric] by (auto split: option.splits)
  then show ?thesis using threads_exec_all_reach [OF s(1) s0] by blast
qed

theorem threads_end_to_end_witness:
  "\<exists>s. threads_reach 2 echo_parse rules_init s \<and> length (sy_pushed (th_ring s)) = 1 \<and>
     list_all (says_tick echo_parse (th_frames s)) (sy_pushed (th_ring s)) \<and> prefix (processed s) (sy_pushed (th_ring s))"
  using late_tick_reach threads_end_to_end [OF capacity_ok_2, where parse = echo_parse and rules = rules_init] by metis

theorem shutdown_terminates_witness:
  "\<exists>s. threads_reach 2 echo_parse rules_init s \<and> th_stopped s \<and>
     (\<forall>t. threads_step 2 echo_parse s t \<longrightarrow> t = s \<or> shutdown_rank t < shutdown_rank s)"
  using late_tick_reach shutdown_terminates [OF capacity_ok_2, where parse = echo_parse and rules = rules_init] by metis

end
