(* ===== verification/Daemon_Main.thy ===== *)
theory Daemon_Main
  imports Daemon
begin

text \<open>
  \<open>main\<close> of \<open>src/feed/coinbase_daemon_main.cpp\<close> with its files: the rule files read at the start, the
  alert file opened for appending (\<open>AlertWriter::open\<close>), every alert written and flushed as it is raised
  (\<open>AlertWriter::write\<close>), the statistics rewritten by their own thread at any time and once more after the
  consumer has been joined. An event of the run is a step of \<open>Daemon\<close>, with the clock its alerts are
  stamped with, or a turn of the statistics thread, which here reads all counters between two steps (\<open>Daemon_Process\<close> has its
  loads one by one). On a device that fills up a flush keeps what fits.
\<close>

datatype 'raw main_event = Callback nat "'raw daemon_event" | StatsTick nat

definition disk_text :: "disk \<Rightarrow> string \<Rightarrow> string option" where
  "disk_text d path = map_option (map char_at) (d_files d path)"

definition alerts_open :: "string \<Rightarrow> disk \<Rightarrow> disk option" where
  "alerts_open path d =
     (if d_creatable d path then Some (d\<lparr>d_files := (d_files d)(path \<mapsto> file_bytes path d)\<rparr>) else None)"

definition alert_append :: "string \<Rightarrow> nat \<Rightarrow> alert \<Rightarrow> disk \<Rightarrow> disk" where
  "alert_append path now_ms a d = fst (disk_append path (map byte_of (alert_write now_ms a [])) d)"

definition alerts_path :: "options \<Rightarrow> string" where
  "alerts_path opt = op_data_dir opt @ ''/alerts.jsonl''"

definition main_callback :: "'e dom \<Rightarrow> options \<Rightarrow> string daemon_event \<Rightarrow> message spsc daemon \<Rightarrow> message spsc daemon" where
  "main_callback api opt = daemon_step (build_subscribe opt) (coinbase_parse api (map_of (op_products opt)))
     (spsc_try_push daemon_capacity) (spsc_try_pop daemon_capacity)"

definition main_step ::
  "nat \<Rightarrow> 'e dom \<Rightarrow> options \<Rightarrow> u32 list \<Rightarrow> double \<Rightarrow> string main_event \<Rightarrow> message spsc daemon \<times> disk \<Rightarrow> message spsc daemon \<times> disk" where
  "main_step bufsz api opt stream_ids start_unix_s ev s =
     (case s of (dm, d) \<Rightarrow>
        case ev of
          Callback now_ms e \<Rightarrow>
            (let dm' = main_callback api opt e dm
             in (dm', fold (alert_append (alerts_path opt) now_ms) (drop (length (dm_alerts dm)) (dm_alerts dm')) d))
        | StatsTick now_ms \<Rightarrow>
            (dm, write_stats bufsz (op_data_dir opt) start_unix_s now_ms (dm_counters dm) stream_ids d))"

text \<open>The exit status, the daemon's last state and the disk.\<close>

definition daemon_main ::
  "nat \<Rightarrow> 'e dom \<Rightarrow> message list \<Rightarrow> string list \<Rightarrow> nat \<Rightarrow> string main_event list \<Rightarrow> nat \<Rightarrow> disk \<Rightarrow>
   nat \<times> message spsc daemon option \<times> disk" where
  "daemon_main bufsz api junk args start_ms evs final_ms d =
     (case daemon_setup (disk_text d) (d_creatable d) args of
        None \<Rightarrow> (2, None, d)
      | Some (opt, rules, stream_ids) \<Rightarrow>
     (case alerts_open (alerts_path opt) d of
        None \<Rightarrow> (2, None, d)
      | Some d0 \<Rightarrow>
          (let start_unix_s = d_div (d_of_int (int start_ms)) d_1000;
               (dm, d1) = fold (main_step bufsz api opt stream_ids start_unix_s) evs (daemon_start rules (spsc_init junk), d0)
           in (0, Some dm, write_stats bufsz (op_data_dir opt) start_unix_s final_ms (dm_counters dm) stream_ids d1))))"

section \<open>The alert file\<close>

lemma alert_writes_append: "alert_writes (as @ bs) out = alert_writes bs (alert_writes as out)"
  by (simp add: alert_writes_text)

lemma char_at_bytes [simp]: "map (char_at \<circ> byte_of) s = s"
  by (simp add: map_idI comp_def)

definition text_or_empty :: "disk \<Rightarrow> string \<Rightarrow> string" where
  "text_or_empty d path = (case disk_text d path of None \<Rightarrow> [] | Some s \<Rightarrow> s)"

lemma text_or_empty_bytes: "text_or_empty d p = map char_at (file_bytes p d)"
  by (simp add: text_or_empty_def disk_text_def file_bytes_def split: option.split)

lemma alert_append_effect:
  "d_room (alert_append p now a d) \<le> d_room d"
  "0 < d_room (alert_append p now a d) \<Longrightarrow> disk_text (alert_append p now a d) p = Some (alert_writes [(now, a)] (text_or_empty d p))"
  "q \<noteq> p \<Longrightarrow> d_files (alert_append p now a d) q = d_files d q"
  "d_creatable (alert_append p now a d) = d_creatable d"
  by (simp_all add: alert_append_def disk_append_def disk_text_def alert_write_def text_or_empty_bytes)

lemma alert_appends_effect:
  "d_room (fold (alert_append p now) as d) \<le> d_room d"
  "0 < d_room (fold (alert_append p now) as d) \<Longrightarrow>
     text_or_empty (fold (alert_append p now) as d) p = alert_writes (map (Pair now) as) (text_or_empty d p)"
  "q \<noteq> p \<Longrightarrow> d_files (fold (alert_append p now) as d) q = d_files d q"
  "d_creatable (fold (alert_append p now) as d) = d_creatable d"
proof (induction as arbitrary: d)
  case (Cons a as)
  { case 1 show ?case using Cons.IH(1) [of "alert_append p now a d"] alert_append_effect(1) [of p now a d] by simp }
  { case 2
    then have "0 < d_room (alert_append p now a d)" using Cons.IH(1) [of "alert_append p now a d"] by simp
    then have "text_or_empty (alert_append p now a d) p = alert_writes [(now, a)] (text_or_empty d p)"
      using alert_append_effect(2) by (simp add: text_or_empty_def [of "alert_append p now a d"])
    then show ?case using 2 Cons.IH(2) [of "alert_append p now a d"] by simp }
  { case 3 then show ?case using Cons.IH(3) alert_append_effect(3) by simp }
  { case 4 show ?case using Cons.IH(4) alert_append_effect(4) by simp }
qed simp_all

lemma on_gaps_alerts: "\<exists>as. dm_alerts (fold daemon_on_gap gs d) = dm_alerts d @ as"
  by (simp add: fold_on_gap)

lemma daemon_step_alerts: "\<exists>as. dm_alerts (daemon_step subscribe parse push pop e d) = dm_alerts d @ as"
  by (cases e) (simp_all add: daemon_step_def daemon_message_def daemon_consume_def daemon_drop_def fold_on_gap Let_def
      case_prod_unfold split: option.split)

section \<open>A whole run\<close>

definition callbacks :: "string main_event list \<Rightarrow> string daemon_event list" where
  "callbacks evs = concat (map (\<lambda>ev. case ev of Callback _ e \<Rightarrow> [e] | _ \<Rightarrow> []) evs)"

definition stats_paths :: "options \<Rightarrow> string list" where
  "stats_paths opt = [op_data_dir opt @ ''/stats.json'', op_data_dir opt @ ''/stats.json.tmp'']"

lemma alerts_not_stats: "alerts_path opt \<notin> set (stats_paths opt)"
  by (simp add: alerts_path_def stats_paths_def)

lemma write_stats_others:
  "q \<notin> set (stats_paths opt) \<Longrightarrow> d_files (write_stats b (op_data_dir opt) st now c ss d) q = d_files d q"
  "d_room (write_stats b (op_data_dir opt) st now c ss d) \<le> d_room d"
  "d_creatable (write_stats b (op_data_dir opt) st now c ss d) = d_creatable d"
  using write_stats_effect [OF refl refl refl refl, of b "op_data_dir opt" st now c ss d]
  by (auto simp: stats_paths_def split: if_splits)

definition main_inv :: "'e dom \<Rightarrow> options \<Rightarrow> message spsc daemon \<Rightarrow> disk \<Rightarrow> string main_event list \<Rightarrow> message spsc daemon \<times> disk \<Rightarrow> bool" where
  "main_inv api opt dm0 d0 evs s \<longleftrightarrow>
     (case s of (dm, d) \<Rightarrow> dm = fold (main_callback api opt) (callbacks evs) dm0 \<and> d_room d \<le> d_room d0 \<and>
        d_creatable d = d_creatable d0 \<and>
        (\<forall>q. q \<notin> set (alerts_path opt # stats_paths opt) \<longrightarrow> d_files d q = d_files d0 q) \<and>
        (0 < d_room d \<longrightarrow> (\<exists>as. map snd as = dm_alerts dm \<and>
           text_or_empty d (alerts_path opt) = alert_writes as (text_or_empty d0 (alerts_path opt)))))"

lemma main_step_inv:
  assumes "main_inv api opt dm0 d0 evs s"
  shows "main_inv api opt dm0 d0 (evs @ [ev]) (main_step b api opt ss st ev s)"
proof -
  obtain dm d where s: "s = (dm, d)" by force
  note i = assms [unfolded main_inv_def s prod.case]
  show ?thesis
  proof (cases ev)
    case (Callback now e)
    define dm' where "dm' = main_callback api opt e dm"
    obtain new where new: "dm_alerts dm' = dm_alerts dm @ new"
      using daemon_step_alerts by (fastforce simp: dm'_def main_callback_def)
    define d' where "d' = fold (alert_append (alerts_path opt) now) new d"
    have "\<exists>as. map snd as = dm_alerts dm' \<and>
        text_or_empty d' (alerts_path opt) = alert_writes as (text_or_empty d0 (alerts_path opt))" if r: "0 < d_room d'"
    proof -
      have "0 < d_room d" using r alert_appends_effect(1) unfolding d'_def by (rule less_le_trans)
      then obtain as where as: "map snd as = dm_alerts dm"
        "text_or_empty d (alerts_path opt) = alert_writes as (text_or_empty d0 (alerts_path opt))" using i by blast
      have "text_or_empty d' (alerts_path opt) = alert_writes (as @ map (Pair now) new) (text_or_empty d0 (alerts_path opt))"
        using alert_appends_effect(2) [OF r [unfolded d'_def]] as(2) by (simp add: d'_def alert_writes_append)
      moreover have "map snd (as @ map (Pair now) new) = dm_alerts dm'" by (simp add: as(1) new comp_def)
      ultimately show ?thesis by blast
    qed
    moreover have "main_step b api opt ss st ev s = (dm', d')"
      by (simp add: main_step_def s Callback dm'_def [symmetric] new d'_def Let_def)
    moreover have "d_room d' \<le> d_room d0" using i alert_appends_effect(1) [of "alerts_path opt" now new d]
      by (simp add: d'_def)
    ultimately show ?thesis using i
      by (simp add: main_inv_def callbacks_def Callback dm'_def d'_def alert_appends_effect(3,4))
  next
    case (StatsTick now)
    define d' where "d' = write_stats b (op_data_dir opt) st now (dm_counters dm) ss d"
    note o = write_stats_others [where opt = opt and b = b and st = st and now = now and c = "dm_counters dm" and ss = ss and d = d, folded d'_def]
    have t: "text_or_empty d' (alerts_path opt) = text_or_empty d (alerts_path opt)"
      using o(1) [OF alerts_not_stats] by (simp add: text_or_empty_def disk_text_def)
    have "main_step b api opt ss st ev s = (dm, d')" by (simp add: main_step_def s StatsTick d'_def)
    then show ?thesis using i o t by (auto simp: main_inv_def callbacks_def StatsTick)
  qed
qed

lemma main_run_inv:
  "main_inv api opt dm0 d0 evs (fold (main_step b api opt ss st) evs (dm0, d0))"
  if "dm_alerts dm0 = []"
proof (induction evs rule: rev_induct)
  case Nil
  then show ?case using that by (simp add: main_inv_def callbacks_def)
next
  case (snoc ev evs)
  then show ?case using main_step_inv by simp
qed

text \<open>The daemon's files after a run. A bad command line or rule file, or a directory where nothing can be written, ends
  the program with status 2 before it touches anything. Otherwise, unless the device filled up, the
  alert file is what it was before with one line appended for every alert of the run, in the order
  they were raised (so alerts survive restarts), the statistics file holds the final counters
  whatever the statistics thread did in between, and no other file but the temporary one has changed.\<close>

theorem daemon_main_files:
  assumes "daemon_main bufsz api junk args start_ms evs final_ms d = (status, res, d')"
  shows "case daemon_setup (disk_text d) (d_creatable d) args of
      None \<Rightarrow> status = 2 \<and> res = None \<and> d' = d
    | Some (opt, rules, stream_ids) \<Rightarrow>
        \<exists>dm. status = 0 \<and> res = Some dm \<and>
          dm = fold (main_callback api opt) (callbacks evs) (daemon_start rules (spsc_init junk)) \<and>
          (\<forall>q. q \<notin> set (alerts_path opt # stats_paths opt) \<longrightarrow> d_files d' q = d_files d q) \<and>
          (0 < d_room d' \<longrightarrow> (\<exists>as. map snd as = dm_alerts dm \<and>
             text_or_empty d' (alerts_path opt) = alert_writes as (text_or_empty d (alerts_path opt)))) \<and>
          (0 < d_room d' \<and> d_creatable d (op_data_dir opt @ ''/stats.json.tmp'') \<longrightarrow>
             disk_text d' (op_data_dir opt @ ''/stats.json'') =
               Some (stats_text (d_div (d_of_int (int start_ms)) d_1000) final_ms (dm_counters dm) stream_ids))"
proof (cases "daemon_setup (disk_text d) (d_creatable d) args")
  case None
  then show ?thesis using assms by (simp add: daemon_main_def)
next
  case (Some cfg)
  obtain opt rules ss where cfg: "cfg = (opt, rules, ss)" by (cases cfg)
  have cr: "d_creatable d (alerts_path opt)"
    using Some by (auto simp: cfg daemon_setup_def alerts_path_def split: option.splits if_splits)
  define d0 where "d0 = d\<lparr>d_files := (d_files d)(alerts_path opt \<mapsto> file_bytes (alerts_path opt) d)\<rparr>"
  define st where "st = d_div (d_of_int (int start_ms)) d_1000"
  define dm0 where "dm0 = daemon_start rules (spsc_init junk)"
  obtain dm d1 where run: "fold (main_step bufsz api opt ss st) evs (dm0, d0) = (dm, d1)" by force
  have "dm_alerts dm0 = []" by (simp add: dm0_def daemon_start_def)
  note i = main_run_inv [OF this, of api opt d0 evs bufsz ss st, unfolded run main_inv_def prod.case]
  have "alerts_open (alerts_path opt) d = Some d0" using cr by (simp add: alerts_open_def d0_def)
  then have m: "status = 0" "res = Some dm" "d' = write_stats bufsz (op_data_dir opt) st final_ms (dm_counters dm) ss d1"
    using assms Some run by (auto simp: daemon_main_def cfg Let_def st_def dm0_def)
  note o = write_stats_others [where opt = opt and b = bufsz and st = st and now = final_ms and c = "dm_counters dm" and ss = ss and d = d1, folded m(3)]
  have t0: "text_or_empty d0 (alerts_path opt) = text_or_empty d (alerts_path opt)"
    by (simp add: text_or_empty_bytes d0_def file_bytes_def)
  have t1: "text_or_empty d' (alerts_path opt) = text_or_empty d1 (alerts_path opt)"
    using o(1) [OF alerts_not_stats] by (simp add: text_or_empty_def disk_text_def)
  have others: "d_files d' q = d_files d q" if "q \<notin> set (alerts_path opt # stats_paths opt)" for q
  proof -
    have "d_files d' q = d_files d1 q" using o(1) that by simp
    also have "\<dots> = d_files d0 q" using i that by blast
    finally show ?thesis using that by (simp add: d0_def)
  qed
  have "disk_text d' (op_data_dir opt @ ''/stats.json'') = Some (stats_text st final_ms (dm_counters dm) ss)"
    if "0 < d_room d'" "d_creatable d (op_data_dir opt @ ''/stats.json.tmp'')"
  proof -
    have "d_creatable d1 (op_data_dir opt @ ''/stats.json.tmp'')" using i that(2) by (simp add: d0_def)
    then show ?thesis
      using write_stats_effect [OF refl refl refl refl, of bufsz "op_data_dir opt" st final_ms "dm_counters dm" ss d1] that(1)
      by (simp add: m(3) disk_text_def)
  qed
  moreover have "\<exists>as. map snd as = dm_alerts dm \<and>
      text_or_empty d' (alerts_path opt) = alert_writes as (text_or_empty d (alerts_path opt))" if "0 < d_room d'"
    using i that o(2) unfolding t0 t1 by (meson less_le_trans)
  ultimately show ?thesis using i m(1,2) others by (simp add: Some cfg st_def dm0_def)
qed

theorem daemon_main_files_witness:
  "case daemon_main 16 example_dom [] [] 0 [Callback 1 Signal, StatsTick 2] 3 \<lparr>d_files = Map.empty, d_room = 9, d_creatable = (\<lambda>_. True)\<rparr> of
     (status, res, d') \<Rightarrow> status = 0 \<and> (\<exists>dm. res = Some dm \<and> \<not> dm_running dm) \<and> d_files d' ''./data/other'' = None"
proof -
  define d where "d = \<lparr>d_files = Map.empty :: string \<rightharpoonup> u8 list, d_room = 9, d_creatable = (\<lambda>_. True)\<rparr>"
  obtain status res d' where m: "daemon_main 16 example_dom [] [] 0 [Callback 1 Signal, StatsTick 2] 3 d = (status, res, d')"
    by (cases "daemon_main 16 example_dom [] [] 0 [Callback 1 Signal, StatsTick 2] 3 d")
  obtain opt where o: "parse_args [] = Some opt" "op_data_dir opt = ''./data''" "op_rule_paths opt = []"
    by (simp add: parse_args_def default_options_def)
  have "daemon_setup (disk_text d) (d_creatable d) [] = Some (opt, rules_init, map snd (op_products opt))"
    by (simp add: daemon_setup_def o d_def)
  then show ?thesis using daemon_main_files [OF m] m
    by (simp add: d_def callbacks_def main_callback_def daemon_step_def daemon_start_def alerts_path_def stats_paths_def o)
qed

end
