(* ===== verification/Daemon_Process.thy ===== *)
theory Daemon_Process
  imports Daemon_Threads Daemon_Main
begin

text \<open>
  The whole process of \<open>src/feed/coinbase_daemon_main.cpp\<close> after its start: the threads of \<open>Daemon_Threads\<close>,
  the statistics thread, the end of \<open>main\<close> (wait for the signal, stop the feed, join the two threads, write the
  last statistics, return) and the disk they share. \<open>process_exec\<close> is one step of the scheduler's choice, None
  when the chosen thread has to wait. Alerts are on disk when the step that raises them is over
  (\<open>AlertWriter::write\<close> flushes under its lock).

  The statistics thread reads the nine counters by nine separate relaxed loads, each a step of its own. The
  order in which C++ evaluates the arguments of \<open>fprintf\<close> is open, so the scheduler chooses it. The ghost
  \<open>pr_trail\<close> lists the values the counters have had, and a load may return any of them, for each counter on its own,
  that is not older than what the thread has already seen of that counter (\<open>pr_seen\<close>): all a relaxed load promises.
  So a snapshot can mix moments. \<open>main\<close> writes its last statistics after it has joined all threads, when
  only the last values are left to be read; that one is a single step. \<open>pr_written\<close>, a ghost, lists the snapshots written.
\<close>

datatype counter_field =
  Received | Processed | Pushed | ParseFailures | Gaps | Reconnects | Alerts | LastMessageUnixMs | LastMessageTsNs

fun load_field :: "counter_field \<Rightarrow> counters \<Rightarrow> u64" where
  "load_field Received c = co_received c"
| "load_field Processed c = co_processed c"
| "load_field Pushed c = co_pushed c"
| "load_field ParseFailures c = co_parse_failures c"
| "load_field Gaps c = co_gaps c"
| "load_field Reconnects c = co_reconnects c"
| "load_field Alerts c = co_alerts c"
| "load_field LastMessageUnixMs c = co_last_message_unix_ms c"
| "load_field LastMessageTsNs c = co_last_message_ts_ns c"

fun store_field :: "counter_field \<Rightarrow> u64 \<Rightarrow> counters \<Rightarrow> counters" where
  "store_field Received v c = c\<lparr>co_received := v\<rparr>"
| "store_field Processed v c = c\<lparr>co_processed := v\<rparr>"
| "store_field Pushed v c = c\<lparr>co_pushed := v\<rparr>"
| "store_field ParseFailures v c = c\<lparr>co_parse_failures := v\<rparr>"
| "store_field Gaps v c = c\<lparr>co_gaps := v\<rparr>"
| "store_field Reconnects v c = c\<lparr>co_reconnects := v\<rparr>"
| "store_field Alerts v c = c\<lparr>co_alerts := v\<rparr>"
| "store_field LastMessageUnixMs v c = c\<lparr>co_last_message_unix_ms := v\<rparr>"
| "store_field LastMessageTsNs v c = c\<lparr>co_last_message_ts_ns := v\<rparr>"

text \<open>The loads of \<open>write_stats\<close>, in the order of the source.\<close>

definition stats_loads :: "counter_field list" where
  "stats_loads = [Received, Processed, Pushed, ParseFailures, Gaps, Reconnects, Alerts, LastMessageUnixMs, LastMessageTsNs]"

text \<open>\<open>StatsLoad\<close>: inside \<open>write_stats\<close>, with the loads still to do.\<close>

datatype stats_loop = StatsCheck | StatsLoad "counter_field list" | StatsSleep | StatsDone

datatype main_loop = MainCheck | MainSleep | MainStop | MainJoinConsumer | MainJoinStats | MainFinal | MainReturned

datatype 'raw process_action =
  ThreadAct nat "'raw threads_action"
| StatsAct nat
| LoadAct counter_field nat
| MainAct nat

text \<open>What \<open>main\<close> has set up and its lambdas capture.\<close>

record 'raw process_env =
  pe_bufsz :: nat
  pe_cap :: u64
  pe_parse :: "'raw \<Rightarrow> message \<Rightarrow> parse_result \<times> message"
  pe_opt :: options
  pe_start_unix_s :: double
  pe_stream_ids :: "u32 list"

record 'raw process =
  pr_threads :: "'raw threads"
  pr_stats :: stats_loop
  pr_main :: main_loop
  pr_disk :: disk
  pr_args :: counters
  pr_trail :: "counters list"
  pr_seen :: "counter_field \<Rightarrow> nat"
  pr_written :: "(counters \<times> (counter_field \<Rightarrow> nat)) list"

text \<open>The values between two steps: the alerts of one message are counted one by one, after the other counters.\<close>

definition counters_trail :: "nat \<Rightarrow> counters \<Rightarrow> counters \<Rightarrow> counters list" where
  "counters_trail raised c c' =
     (if c' = c then [] else map (\<lambda>i. c'\<lparr>co_alerts := co_alerts c + of_nat i\<rparr>) [0..<Suc raised])"

lemma counters_trail_same [simp]: "counters_trail n c c = []"
  by (simp add: counters_trail_def)

text \<open>\<open>write_stats\<close> with the counters it has loaded.\<close>

definition write_stats_now :: "'raw process_env \<Rightarrow> nat \<Rightarrow> 'raw process \<Rightarrow> disk" where
  "write_stats_now env now_ms s = write_stats (pe_bufsz env) (op_data_dir (pe_opt env)) (pe_start_unix_s env) now_ms
     (pr_args s) (pe_stream_ids env) (pr_disk s)"

definition load_counter :: "counter_field \<Rightarrow> nat \<Rightarrow> 'raw process \<Rightarrow> 'raw process option" where
  "load_counter f k s =
     (case pr_stats s of
        StatsLoad fs \<Rightarrow>
          (if f \<in> set fs \<and> pr_seen s f \<le> k \<and> k < length (pr_trail s)
           then Some (s\<lparr>pr_args := store_field f (load_field f (pr_trail s ! k)) (pr_args s),
                  pr_seen := (pr_seen s)(f := k), pr_stats := StatsLoad (remove1 f fs)\<rparr>)
           else None)
      | _ \<Rightarrow> None)"

text \<open>All loads of \<open>main\<close> after the joins.\<close>

definition load_final :: "'raw process \<Rightarrow> 'raw process" where
  "load_final s = s\<lparr>pr_args := th_counters (pr_threads s), pr_seen := (\<lambda>_. length (pr_trail s) - 1)\<rparr>"

definition write_snapshot :: "'raw process_env \<Rightarrow> nat \<Rightarrow> 'raw process \<Rightarrow> 'raw process" where
  "write_snapshot env now_ms s =
     s\<lparr>pr_disk := write_stats_now env now_ms s, pr_written := pr_written s @ [(pr_args s, pr_seen s)]\<rparr>"

definition worker_threads :: "'raw process_env \<Rightarrow> nat \<Rightarrow> 'raw threads_action \<Rightarrow> 'raw process \<Rightarrow> 'raw process option" where
  "worker_threads env now_ms a s =
     (if a = StopFeed then None
      else case threads_exec (pe_cap env) (pe_parse env) a (pr_threads s) of
             None \<Rightarrow> None
           | Some th \<Rightarrow>
               (let raised = drop (length (th_alerts (pr_threads s))) (th_alerts th)
                in Some (s\<lparr>pr_threads := th,
                     pr_trail := pr_trail s @ counters_trail (length raised) (th_counters (pr_threads s)) (th_counters th),
                     pr_disk := fold (alert_append (alerts_path (pe_opt env)) now_ms) raised (pr_disk s)\<rparr>)))"

definition stats_thread :: "'raw process_env \<Rightarrow> nat \<Rightarrow> 'raw process \<Rightarrow> 'raw process option" where
  "stats_thread env now_ms s =
     (case pr_stats s of
        StatsCheck \<Rightarrow> Some (s\<lparr>pr_stats := (if th_running (pr_threads s) then StatsLoad stats_loads else StatsDone)\<rparr>)
      | StatsLoad fs \<Rightarrow> (if fs = [] then Some ((write_snapshot env now_ms s)\<lparr>pr_stats := StatsSleep\<rparr>) else None)
      | StatsSleep \<Rightarrow> Some (s\<lparr>pr_stats := StatsCheck\<rparr>)
      | StatsDone \<Rightarrow> None)"

definition main_thread :: "'raw process_env \<Rightarrow> nat \<Rightarrow> 'raw process \<Rightarrow> 'raw process option" where
  "main_thread env now_ms s =
     (case pr_main s of
        MainCheck \<Rightarrow> Some (s\<lparr>pr_main := (if th_running (pr_threads s) then MainSleep else MainStop)\<rparr>)
      | MainSleep \<Rightarrow> Some (s\<lparr>pr_main := MainCheck\<rparr>)
      | MainStop \<Rightarrow> map_option (\<lambda>th. s\<lparr>pr_threads := th, pr_main := MainJoinConsumer\<rparr>) (stop_feed (pr_threads s))
      | MainJoinConsumer \<Rightarrow> (if th_loop (pr_threads s) = LoopDone then Some (s\<lparr>pr_main := MainJoinStats\<rparr>) else None)
      | MainJoinStats \<Rightarrow> (if pr_stats s = StatsDone then Some (s\<lparr>pr_main := MainFinal\<rparr>) else None)
      | MainFinal \<Rightarrow> Some ((write_snapshot env now_ms (load_final s))\<lparr>pr_main := MainReturned\<rparr>)
      | MainReturned \<Rightarrow> None)"

definition process_exec :: "'raw process_env \<Rightarrow> 'raw process_action \<Rightarrow> 'raw process \<Rightarrow> 'raw process option" where
  "process_exec env a s =
     (if pr_main s = MainReturned then None
      else case a of
             ThreadAct now_ms t \<Rightarrow> worker_threads env now_ms t s
           | StatsAct now_ms \<Rightarrow> stats_thread env now_ms s
           | LoadAct f k \<Rightarrow> load_counter f k s
           | MainAct now_ms \<Rightarrow> main_thread env now_ms s)"

definition process_start :: "rule_checker \<Rightarrow> message list \<Rightarrow> disk \<Rightarrow> 'raw process" where
  "process_start rules junk d =
     \<lparr>pr_threads = threads_start rules junk, pr_stats = StatsCheck, pr_main = MainCheck, pr_disk = d,
      pr_args = no_counts, pr_trail = [no_counts], pr_seen = (\<lambda>_. 0), pr_written = []\<rparr>"

definition process_step where
  "process_step env s t \<longleftrightarrow> (\<exists>a. process_exec env a s = Some t)"

definition process_init :: "'raw process_env \<Rightarrow> rule_checker \<Rightarrow> disk \<Rightarrow> 'raw process \<Rightarrow> bool" where
  "process_init env rules d s \<longleftrightarrow> (\<exists>junk. length junk = unat (pe_cap env) \<and> s = process_start rules junk d)"

abbreviation process_reach where
  "process_reach env rules d \<equiv> reach (process_init env rules d) (process_step env)"

lemma process_exec_cases:
  assumes "process_exec env a s = Some t"
  obtains (thread) now b th where "a = ThreadAct now b" "b \<noteq> StopFeed"
      "threads_exec (pe_cap env) (pe_parse env) b (pr_threads s) = Some th"
      "t = s\<lparr>pr_threads := th,
         pr_trail := pr_trail s @ counters_trail (length (th_alerts th) - length (th_alerts (pr_threads s)))
           (th_counters (pr_threads s)) (th_counters th),
         pr_disk := fold (alert_append (alerts_path (pe_opt env)) now)
           (drop (length (th_alerts (pr_threads s))) (th_alerts th)) (pr_disk s)\<rparr>"
    | (stats) now where "a = StatsAct now" "stats_thread env now s = Some t"
    | (load) f k fs where "a = LoadAct f k" "pr_stats s = StatsLoad fs" "f \<in> set fs" "pr_seen s f \<le> k" "k < length (pr_trail s)"
      "t = s\<lparr>pr_args := store_field f (load_field f (pr_trail s ! k)) (pr_args s),
         pr_seen := (pr_seen s)(f := k), pr_stats := StatsLoad (remove1 f fs)\<rparr>"
    | (main) now where "a = MainAct now" "main_thread env now s = Some t"
  using assms
  by (cases a) (auto simp: process_exec_def worker_threads_def load_counter_def Let_def split: if_splits option.splits stats_loop.splits)

text \<open>What a writing step leaves alone.\<close>

lemma write_snapshot_simps [simp]:
  "pr_threads (write_snapshot env now s) = pr_threads s" "pr_stats (write_snapshot env now s) = pr_stats s"
  "pr_main (write_snapshot env now s) = pr_main s" "pr_trail (write_snapshot env now s) = pr_trail s"
  "pr_args (write_snapshot env now s) = pr_args s" "pr_seen (write_snapshot env now s) = pr_seen s"
  "pr_disk (write_snapshot env now s) = write_stats_now env now s"
  "pr_written (write_snapshot env now s) = pr_written s @ [(pr_args s, pr_seen s)]"
  by (simp_all add: write_snapshot_def)

lemma load_final_simps [simp]:
  "pr_threads (load_final s) = pr_threads s" "pr_stats (load_final s) = pr_stats s" "pr_main (load_final s) = pr_main s"
  "pr_trail (load_final s) = pr_trail s" "pr_args (load_final s) = th_counters (pr_threads s)"
  "pr_seen (load_final s) = (\<lambda>_. length (pr_trail s) - 1)"
  "pr_disk (load_final s) = pr_disk s" "pr_written (load_final s) = pr_written s"
  by (simp_all add: load_final_def)

section \<open>The threads inside the process\<close>

lemma process_threads_step:
  assumes "process_exec env a s = Some t"
  shows "pr_threads t = pr_threads s \<or> threads_step (pe_cap env) (pe_parse env) (pr_threads s) (pr_threads t)"
  using assms
proof (cases rule: process_exec_cases)
  case (thread now b th)
  then show ?thesis by (auto simp: threads_step_def)
next
  case (stats now)
  then show ?thesis by (auto simp: stats_thread_def split: stats_loop.splits if_splits)
next
  case (load f k fs)
  then show ?thesis by simp
next
  case (main now)
  then have "pr_threads t = pr_threads s \<or> stop_feed (pr_threads s) = Some (pr_threads t)"
    by (auto simp del: stop_feed_def simp: main_thread_def split: main_loop.splits if_splits)
  then show ?thesis using threads_exec.simps(6) unfolding threads_step_def by metis
qed

lemma process_threads_reach:
  "process_reach env rules d s \<Longrightarrow> threads_reach (pe_cap env) (pe_parse env) rules (pr_threads s)"
proof (induction rule: reach.induct)
  case (reach_init s)
  then show ?case by (auto simp: process_init_def process_start_def intro: threads_reach_start)
next
  case (reach_step s t)
  then show ?case using process_threads_step unfolding process_step_def by (metis reach.reach_step)
qed

lemma begin_frame_keeps:
  "th_stopped (begin_frame parse now raw h s) = th_stopped s" "th_running (begin_frame parse now raw h s) = th_running s"
  "th_loop (begin_frame parse now raw h s) = th_loop s"
  "th_alerts (begin_frame parse now raw h s) = th_alerts s @ map gap_alert (drop (length (fh_gaps (th_handler s))) (fh_gaps h))"
  by (simp_all add: begin_frame_def Let_def)

lemma process_message_keeps:
  "th_stopped (call_try_pop w (process_message m s)) = th_stopped s"
  "th_running (call_try_pop w (process_message m s)) = th_running s"
  "th_alerts (call_try_pop w (process_message m s)) = th_alerts s @ fst (detect m (th_detectors s))"
  by (simp_all add: call_try_pop_def process_message_def Let_def case_prod_unfold)

lemma threads_exec_keeps:
  assumes "threads_exec cap parse b s = Some t" "b \<noteq> StopFeed"
  shows "th_stopped t = th_stopped s" "th_running t \<Longrightarrow> th_running s"
    "th_loop s = LoopDone \<Longrightarrow> th_loop t = LoopDone" "\<exists>new. th_alerts t = th_alerts s @ new"
proof -
  have "th_stopped t = th_stopped s \<and> (th_running t \<longrightarrow> th_running s) \<and>
      (th_loop s = LoopDone \<longrightarrow> th_loop t = LoopDone) \<and> (\<exists>new. th_alerts t = th_alerts s @ new)"
  proof (cases b)
    case (FrameArrives now raw)
    obtain out h where o: "frame_outcome parse raw (th_handler s) = (out, h)" by force
    then show ?thesis using assms(1)
      by (cases out) (auto simp: FrameArrives Let_def begin_frame_keeps split: if_splits)
  next
    case (PushStep k)
    then show ?thesis using assms(1) by (auto simp: Let_def split: option.splits)
  next
    case (PopStep k)
    obtain w r where "th_loop s = LoopPop w" "spsc_exec cap (Consumer k) (th_ring s) = Some r"
      using assms(1) by (auto simp: PopStep split: option.splits consumer_loop.splits)
    then show ?thesis using assms(1) by (auto simp: PopStep Let_def)
  next
    case ProcessMessage
    then obtain m where "th_loop s = LoopProcess m" using assms(1) by (auto split: consumer_loop.splits)
    then show ?thesis using assms(1) by (auto simp: ProcessMessage process_message_keeps)
  qed (use assms in \<open>auto simp: call_try_pop_def Let_def split: if_splits\<close>)
  then show "th_stopped t = th_stopped s" "th_running t \<Longrightarrow> th_running s"
    "th_loop s = LoopDone \<Longrightarrow> th_loop t = LoopDone" "\<exists>new. th_alerts t = th_alerts s @ new" by blast+
qed

text \<open>Where the statistics thread and \<open>main\<close> are.\<close>

fun main_stage :: "main_loop \<Rightarrow> nat" where
  "main_stage MainCheck = 0"
| "main_stage MainSleep = 0"
| "main_stage MainStop = 1"
| "main_stage MainJoinConsumer = 2"
| "main_stage MainJoinStats = 3"
| "main_stage MainFinal = 4"
| "main_stage MainReturned = 5"

definition process_control :: "'raw process \<Rightarrow> bool" where
  "process_control s \<longleftrightarrow>
     (th_stopped (pr_threads s) \<longleftrightarrow> 2 \<le> main_stage (pr_main s)) \<and>
     (3 \<le> main_stage (pr_main s) \<longrightarrow> th_loop (pr_threads s) = LoopDone) \<and>
     (4 \<le> main_stage (pr_main s) \<longrightarrow> pr_stats s = StatsDone) \<and>
     (1 \<le> main_stage (pr_main s) \<longrightarrow> \<not> th_running (pr_threads s)) \<and>
     (pr_stats s = StatsDone \<longrightarrow> \<not> th_running (pr_threads s))"

lemma process_control_step:
  assumes "process_exec env a s = Some t" "process_control s"
  shows "process_control t"
  using assms(1)
proof (cases rule: process_exec_cases)
  case (thread now b th)
  note k = threads_exec_keeps [OF thread(3,2)]
  have t: "pr_threads t = th" "pr_main t = pr_main s" "pr_stats t = pr_stats s" by (simp_all add: thread(4))
  have "\<not> th_running (pr_threads s) \<longrightarrow> \<not> th_running th" "th_loop (pr_threads s) = LoopDone \<longrightarrow> th_loop th = LoopDone"
    using k(2,3) by blast+
  then show ?thesis using assms(2) unfolding process_control_def t k(1) by blast
next
  case (stats now)
  then show ?thesis using assms(2)
    by (cases "pr_stats s") (auto simp: stats_thread_def process_control_def split: if_splits)
next
  case (load f k fs)
  then show ?thesis using assms(2) by (auto simp: process_control_def)
next
  case (main now)
  then show ?thesis using assms(2)
    by (cases "pr_main s") (auto simp: main_thread_def process_control_def split: if_splits)
qed

lemma process_reach_control: "process_reach env rules d s \<Longrightarrow> process_control s"
proof (induction rule: reach.induct)
  case (reach_init s)
  then show ?case by (auto simp: process_init_def process_start_def threads_start_def process_control_def)
next
  case (reach_step s t)
  then show ?case using process_control_step by (auto simp: process_step_def)
qed

section \<open>The files\<close>

definition stats_written :: "'raw process_env \<Rightarrow> nat \<Rightarrow> 'raw process \<Rightarrow> bool" where
  "stats_written env now_ms s \<longleftrightarrow> disk_text (pr_disk s) (op_data_dir (pe_opt env) @ ''/stats.json'') =
     Some (stats_text (pe_start_unix_s env) now_ms (th_counters (pr_threads s)) (pe_stream_ids env))"

text \<open>As long as the device has room, the alert file holds a line for every alert raised so far.\<close>

definition disk_ok :: "'raw process_env \<Rightarrow> disk \<Rightarrow> alert list \<Rightarrow> disk \<Rightarrow> bool" where
  "disk_ok env d0 alerts d \<longleftrightarrow> d_room d \<le> d_room d0 \<and> d_creatable d = d_creatable d0 \<and>
     (\<forall>q. q \<notin> set (alerts_path (pe_opt env) # stats_paths (pe_opt env)) \<longrightarrow> d_files d q = d_files d0 q) \<and>
     (0 < d_room d \<longrightarrow> (\<exists>as. map snd as = alerts \<and>
        text_or_empty d (alerts_path (pe_opt env)) = alert_writes as (text_or_empty d0 (alerts_path (pe_opt env)))))"

lemma disk_ok_append:
  assumes "disk_ok env d0 alerts d"
  shows "disk_ok env d0 (alerts @ new) (fold (alert_append (alerts_path (pe_opt env)) now) new d)"
proof -
  let ?p = "alerts_path (pe_opt env)" and ?d = "fold (alert_append (alerts_path (pe_opt env)) now) new d"
  have "\<exists>as. map snd as = alerts @ new \<and> text_or_empty ?d ?p = alert_writes as (text_or_empty d0 ?p)"
    if r: "0 < d_room ?d"
  proof -
    have "0 < d_room d" using r alert_appends_effect(1) [of ?p now new d] by simp
    then obtain as where as: "map snd as = alerts" "text_or_empty d ?p = alert_writes as (text_or_empty d0 ?p)"
      using assms by (auto simp: disk_ok_def)
    have "text_or_empty ?d ?p = alert_writes (as @ map (Pair now) new) (text_or_empty d0 ?p)"
      using alert_appends_effect(2) [OF r] as(2) by (simp add: alert_writes_append)
    moreover have "map snd (as @ map (Pair now) new) = alerts @ new" by (simp add: as(1) comp_def)
    ultimately show ?thesis by blast
  qed
  then show ?thesis using assms alert_appends_effect(1) [of ?p now new d]
    by (simp add: disk_ok_def alert_appends_effect(3,4))
qed

lemma disk_ok_stats:
  assumes "disk_ok env d0 alerts d"
  shows "disk_ok env d0 alerts (write_stats b (op_data_dir (pe_opt env)) st now c ss d)"
proof -
  let ?d = "write_stats b (op_data_dir (pe_opt env)) st now c ss d"
  note o = write_stats_others [where opt = "pe_opt env" and b = b and st = st and now = now and c = c and ss = ss and d = d]
  have "text_or_empty ?d (alerts_path (pe_opt env)) = text_or_empty d (alerts_path (pe_opt env))"
    using o(1) [OF alerts_not_stats] by (simp add: text_or_empty_def disk_text_def)
  then show ?thesis using assms o by (auto simp: disk_ok_def)
qed

lemma write_stats_now_text:
  assumes "0 < d_room (write_stats_now env now s)" "d_creatable (pr_disk s) (op_data_dir (pe_opt env) @ ''/stats.json.tmp'')"
  shows "disk_text (write_stats_now env now s) (op_data_dir (pe_opt env) @ ''/stats.json'') =
    Some (stats_text (pe_start_unix_s env) now (pr_args s) (pe_stream_ids env))"
  using assms write_stats_effect [OF refl refl refl refl, of "pe_bufsz env" "op_data_dir (pe_opt env)"
      "pe_start_unix_s env" now "pr_args s" "pe_stream_ids env" "pr_disk s"]
  by (simp add: disk_text_def write_stats_now_def)

definition process_files :: "'raw process_env \<Rightarrow> disk \<Rightarrow> 'raw process \<Rightarrow> bool" where
  "process_files env d0 s \<longleftrightarrow> disk_ok env d0 (th_alerts (pr_threads s)) (pr_disk s) \<and>
     (pr_main s = MainReturned \<and> 0 < d_room (pr_disk s) \<and> d_creatable d0 (op_data_dir (pe_opt env) @ ''/stats.json.tmp'') \<longrightarrow>
        (\<exists>now. stats_written env now s))"

lemma process_files_step:
  assumes "process_exec env a s = Some t" "process_files env d0 s"
  shows "process_files env d0 t"
proof -
  have r: "pr_main s \<noteq> MainReturned" using assms(1) by (auto simp: process_exec_def)
  have ok: "disk_ok env d0 (th_alerts (pr_threads s)) (pr_disk s)" using assms(2) by (simp add: process_files_def)
  from assms(1) show ?thesis
  proof (cases rule: process_exec_cases)
    case (thread now b th)
    then obtain new where "th_alerts th = th_alerts (pr_threads s) @ new" using threads_exec_keeps(4) by blast
    then show ?thesis using disk_ok_append [OF ok] r by (simp add: process_files_def thread(4))
  next
    case (stats now)
    then show ?thesis using ok disk_ok_stats [OF ok] r
      by (cases "pr_stats s") (auto simp: process_files_def stats_thread_def write_stats_now_def split: if_splits)
  next
    case (load f k fs)
    then show ?thesis using assms(2) r by (simp add: process_files_def)
  next
    case (main now)
    show ?thesis
    proof (cases "pr_main s")
      case MainFinal
      then have t: "t = (write_snapshot env now (load_final s))\<lparr>pr_main := MainReturned\<rparr>"
        using main by (simp add: main_thread_def)
      have "d_creatable (pr_disk s) = d_creatable d0" using ok by (simp add: disk_ok_def)
      then have "stats_written env now t" if "0 < d_room (pr_disk t)" "d_creatable d0 (op_data_dir (pe_opt env) @ ''/stats.json.tmp'')"
        using that write_stats_now_text [of env now "load_final s"] by (simp add: t stats_written_def)
      moreover have "disk_ok env d0 (th_alerts (pr_threads t)) (pr_disk t)"
        using disk_ok_stats [OF ok] by (simp add: t write_stats_now_def)
      ultimately show ?thesis by (auto simp: process_files_def)
    next
      case MainStop
      then show ?thesis using main ok by (auto simp: process_files_def main_thread_def split: if_splits)
    qed (use main ok r in \<open>auto simp: process_files_def main_thread_def split: if_splits\<close>)
  qed
qed

lemma process_reach_files: "process_reach env rules d0 s \<Longrightarrow> process_files env d0 s"
proof (induction rule: reach.induct)
  case (reach_init s)
  have "alert_writes [] x = x" for x by simp
  with reach_init show ?case
    by (auto simp: process_init_def process_start_def threads_start_def process_files_def disk_ok_def intro!: exI [of _ "[]"])
next
  case (reach_step s t)
  then show ?case using process_files_step by (auto simp: process_step_def)
qed

section \<open>The statistics\<close>

text \<open>The counters that only count; the two time stamps are overwritten.\<close>

definition count_fields :: "counter_field set" where
  "count_fields = {Received, Processed, Pushed, ParseFailures, Gaps, Reconnects, Alerts}"

definition counts_up :: "counters \<Rightarrow> counters \<Rightarrow> bool" where
  "counts_up c c' \<longleftrightarrow> (\<forall>f\<in>count_fields. load_field f c' = load_field f c \<or> load_field f c' = load_field f c + 1)"

lemma load_store: "load_field g (store_field f v c) = (if g = f then v else load_field g c)"
  by (cases f; cases g) simp_all

lemma counts_up_refl [simp]: "counts_up c c"
  by (simp add: counts_up_def)

lemma counts_upI:
  "counts_up (c\<lparr>co_alerts := a\<rparr>) (c'\<lparr>co_alerts := b\<rparr>) \<longleftrightarrow> counts_up (c\<lparr>co_alerts := 0\<rparr>) (c'\<lparr>co_alerts := 0\<rparr>) \<and> (b = a \<or> b = a + 1)"
  by (auto simp: counts_up_def count_fields_def)

definition counters_grow :: "nat \<Rightarrow> counters \<Rightarrow> counters \<Rightarrow> bool" where
  "counters_grow n c c' \<longleftrightarrow> counts_up (c\<lparr>co_alerts := 0\<rparr>) (c'\<lparr>co_alerts := 0\<rparr>) \<and> co_alerts c' = co_alerts c + of_nat n"

lemma counters_grow_refl [simp]: "counters_grow 0 c c"
  by (simp add: counters_grow_def)

lemma counters_trail_ok:
  assumes "counters_grow n c c'"
  shows "successively counts_up (c # counters_trail n c c')" "last (c # counters_trail n c c') = c'"
proof -
  let ?e = "\<lambda>i. c'\<lparr>co_alerts := co_alerts c + of_nat i\<rparr>"
  have c: "counts_up c (?e 0)"
    using assms counts_upI [where c = c and a = "co_alerts c" and c' = c' and b = "co_alerts c"] by (simp add: counters_grow_def)
  have e: "counts_up (?e i) (?e (Suc i))" for i
    using counts_upI [where c = c' and c' = c' and a = "co_alerts c + of_nat i" and b = "co_alerts c + of_nat (Suc i)"] by (simp add: ac_simps)
  have "successively counts_up (map ?e [0..<k])" for k
  proof (induction k)
    case (Suc k)
    then show ?case using e [of "k - 1"] by (cases k) (simp_all add: successively_append_iff)
  qed simp
  moreover have "hd (map ?e [0..<Suc n]) = ?e 0" by (simp add: hd_map del: upt_Suc)
  ultimately show "successively counts_up (c # counters_trail n c c')"
    using c by (simp add: counters_trail_def successively_Cons del: upt_Suc)
  show "last (c # counters_trail n c c') = c'"
    using assms by (simp add: counters_trail_def counters_grow_def)
qed

text \<open>One step of a thread counts each thing at most once, except alerts, which it counts as they are raised.\<close>

lemma accept_seq_one_gap: "length (fh_gaps (snd (feed_accept_seq i q h))) \<le> length (fh_gaps h) + 1"
  by (simp add: feed_accept_seq_def Let_def split: option.split)

lemma frame_outcome_one_gap: "length (fh_gaps (snd (frame_outcome parse raw h))) \<le> length (fh_gaps h) + 1"
  using accept_seq_one_gap by (auto simp: frame_outcome_def Let_def case_prod_unfold split: parse_result.split)

lemma begin_frame_counts:
  assumes "length (fh_gaps h) \<le> length (fh_gaps (th_handler s)) + 1"
  shows "counters_grow (length (fh_gaps h) - length (fh_gaps (th_handler s))) (th_counters s)
    (th_counters (begin_frame parse now raw h s))"
proof -
  define n where "n = length (fh_gaps h) - length (fh_gaps (th_handler s))"
  have "n = 0 \<or> n = 1" using assms by (auto simp: n_def)
  then show ?thesis
    by (auto simp: begin_frame_def Let_def count_frame_def counters_grow_def counts_up_def count_fields_def n_def [symmetric])
qed

lemma threads_exec_counts:
  assumes "threads_exec cap parse b s = Some t"
  shows "counters_grow (length (th_alerts t) - length (th_alerts s)) (th_counters s) (th_counters t)"
proof (cases b)
  case (FrameArrives now raw)
  obtain out h where o: "frame_outcome parse raw (th_handler s) = (out, h)" by force
  have g: "length (fh_gaps h) \<le> length (fh_gaps (th_handler s)) + 1"
    using frame_outcome_one_gap [of parse raw "th_handler s"] by (simp add: o)
  have "th_counters t = th_counters (begin_frame parse now raw h s)" "th_alerts t = th_alerts (begin_frame parse now raw h s)"
    using assms o by (auto simp: FrameArrives Let_def split: if_splits option.splits)
  then show ?thesis using begin_frame_counts [OF g] by (simp add: begin_frame_keeps)
next
  case (PushStep k)
  then show ?thesis using assms by (auto simp: Let_def split: option.splits)
next
  case (PopStep k)
  then show ?thesis using assms by (auto simp: Let_def split: option.splits consumer_loop.splits)
next
  case ProcessMessage
  then obtain m where m: "th_loop s = LoopProcess m" using assms by (auto split: consumer_loop.splits)
  have "th_counters (call_try_pop True (process_message m s)) = (let (alerts, dets) = detect m (th_detectors s); c = th_counters s
      in c\<lparr>co_processed := co_processed c + 1, co_last_message_ts_ns := m_ts_ns m, co_alerts := co_alerts c + of_nat (length alerts)\<rparr>)"
    by (simp add: call_try_pop_def process_message_def case_prod_unfold Let_def)
  then show ?thesis using assms m
    by (auto simp: ProcessMessage process_message_keeps counters_grow_def counts_up_def count_fields_def case_prod_unfold Let_def)
qed (use assms in \<open>auto simp: call_try_pop_def counters_grow_def counts_up_def count_fields_def Let_def split: if_splits\<close>)

text \<open>The ghosts: the trail ends with the counters, and what was loaded is on it.\<close>

definition trail_ok :: "'raw process \<Rightarrow> bool" where
  "trail_ok s \<longleftrightarrow> pr_trail s \<noteq> [] \<and> hd (pr_trail s) = no_counts \<and> last (pr_trail s) = th_counters (pr_threads s) \<and>
     successively counts_up (pr_trail s)"

definition snapshot_of :: "counters list \<Rightarrow> counters \<times> (counter_field \<Rightarrow> nat) \<Rightarrow> bool" where
  "snapshot_of trail w \<longleftrightarrow> (\<forall>f. snd w f < length trail \<and> load_field f (fst w) = load_field f (trail ! snd w f))"

definition loaded_before :: "counters \<times> (counter_field \<Rightarrow> nat) \<Rightarrow> counters \<times> (counter_field \<Rightarrow> nat) \<Rightarrow> bool" where
  "loaded_before w w' \<longleftrightarrow> (\<forall>f. snd w f \<le> snd w' f)"

lemma loaded_before_refl [simp]: "loaded_before w (c, snd w)" "loaded_before (c, p) (d, p)"
  by (simp_all add: loaded_before_def)

definition loads_ok :: "'raw process \<Rightarrow> bool" where
  "loads_ok s \<longleftrightarrow> list_all (snapshot_of (pr_trail s)) (pr_written s @ [(pr_args s, pr_seen s)]) \<and>
     sorted_wrt loaded_before (pr_written s @ [(pr_args s, pr_seen s)]) \<and>
     (pr_main s = MainReturned \<longrightarrow> pr_written s \<noteq> [] \<and> fst (last (pr_written s)) = th_counters (pr_threads s))"

lemma snapshot_of_append: "snapshot_of trail w \<Longrightarrow> snapshot_of (trail @ later) w"
  by (auto simp: snapshot_of_def nth_append trans_less_add1)

lemma trail_step:
  assumes "process_exec env a s = Some t" "trail_ok s"
  shows "trail_ok t \<and> (\<exists>later. pr_trail t = pr_trail s @ later)"
  using assms(1)
proof (cases rule: process_exec_cases)
  case (thread now b th)
  note g = counters_trail_ok [OF threads_exec_counts [OF thread(3)]]
  obtain xs where xs: "pr_trail s = xs @ [th_counters (pr_threads s)]"
    using assms(2) by (metis trail_ok_def append_butlast_last_id)
  show ?thesis using assms(2) g by (auto simp: thread(4) trail_ok_def xs successively_append_iff hd_append)
next
  case (stats now)
  then show ?thesis using assms(2) by (cases "pr_stats s") (auto simp: stats_thread_def trail_ok_def split: if_splits)
next
  case (load f k fs)
  then show ?thesis using assms(2) by (simp add: trail_ok_def)
next
  case (main now)
  then show ?thesis using assms(2)
    by (cases "pr_main s") (auto simp: main_thread_def trail_ok_def split: if_splits)
qed

lemma loads_step:
  assumes "process_exec env a s = Some t" "trail_ok s" "loads_ok s"
  shows "loads_ok t"
proof -
  have r: "pr_main s \<noteq> MainReturned" using assms(1) by (auto simp: process_exec_def)
  from assms(1) show ?thesis
  proof (cases rule: process_exec_cases)
    case (thread now b th)
    then show ?thesis using assms(3) r snapshot_of_append by (auto simp: loads_ok_def list_all_iff)
  next
    case (stats now)
    then show ?thesis using assms(3) r
      by (cases "pr_stats s") (auto simp: stats_thread_def loads_ok_def sorted_wrt_append split: if_splits)
  next
    case (load f k fs)
    have "snapshot_of (pr_trail t) (pr_args t, pr_seen t)"
      using assms(3) load(5) by (auto simp: load(6) loads_ok_def snapshot_of_def load_store)
    moreover have "loaded_before w (pr_args t, pr_seen t)" if "loaded_before w (pr_args s, pr_seen s)" for w
      using that load(4) order_trans by (auto simp: load(6) loaded_before_def)
    ultimately show ?thesis using assms(3) r by (auto simp: loads_ok_def load(6) sorted_wrt_append)
  next
    case (main now)
    show ?thesis
    proof (cases "pr_main s")
      case MainFinal
      then have t: "t = (write_snapshot env now (load_final s))\<lparr>pr_main := MainReturned\<rparr>"
        using main by (simp add: main_thread_def)
      have "pr_trail s ! (length (pr_trail s) - 1) = th_counters (pr_threads s)" "0 < length (pr_trail s)"
        using assms(2) by (auto simp: trail_ok_def last_conv_nth)
      then have "snapshot_of (pr_trail s) (th_counters (pr_threads s), \<lambda>_. length (pr_trail s) - 1)"
        by (simp add: snapshot_of_def)
      moreover have "loaded_before w (c, \<lambda>_. length (pr_trail s) - 1)" if "w \<in> set (pr_written s)" for w c
      proof -
        have lt: "snd w f < length (pr_trail s)" for f using assms(3) that by (auto simp: loads_ok_def list_all_iff snapshot_of_def)
        have "snd w f \<le> length (pr_trail s) - 1" for f using lt [of f] by linarith
        then show ?thesis by (simp add: loaded_before_def)
      qed
      ultimately show ?thesis using assms(3) by (auto simp: t loads_ok_def sorted_wrt_append)
    next
      case MainStop
      then show ?thesis using main assms(3) by (auto simp: loads_ok_def main_thread_def split: if_splits)
    qed (use main assms(3) r in \<open>auto simp: loads_ok_def main_thread_def split: if_splits\<close>)
  qed
qed

lemma process_reach_stats: "process_reach env rules d0 s \<Longrightarrow> trail_ok s \<and> loads_ok s"
proof (induction rule: reach.induct)
  case (reach_init s)
  then show ?case by (auto simp: process_init_def trail_ok_def process_start_def threads_start_def loads_ok_def snapshot_of_def)
next
  case (reach_step s t)
  then show ?case using trail_step loads_step unfolding process_step_def by blast
qed

text \<open>The file holds the last snapshot.\<close>

definition stats_file_ok :: "'raw process_env \<Rightarrow> disk \<Rightarrow> 'raw process \<Rightarrow> bool" where
  "stats_file_ok env d0 s \<longleftrightarrow>
     (pr_written s \<noteq> [] \<and> 0 < d_room (pr_disk s) \<and> d_creatable d0 (op_data_dir (pe_opt env) @ ''/stats.json.tmp'') \<longrightarrow>
        (\<exists>now. disk_text (pr_disk s) (op_data_dir (pe_opt env) @ ''/stats.json'') =
           Some (stats_text (pe_start_unix_s env) now (fst (last (pr_written s))) (pe_stream_ids env))))"

lemma stats_file_written:
  assumes "d_creatable (pr_disk s) = d_creatable d0" "pr_disk t = write_stats_now env now s"
    "pr_written t = pr_written s @ [(pr_args s, pr_seen s)]"
  shows "stats_file_ok env d0 t"
  using write_stats_now_text [of env now s] assms by (auto simp: stats_file_ok_def)

lemma stats_file_kept:
  assumes "stats_file_ok env d0 s" "pr_disk t = pr_disk s" "pr_written t = pr_written s"
  shows "stats_file_ok env d0 t"
  using assms by (simp add: stats_file_ok_def)

lemma stats_file_step:
  assumes "process_exec env a s = Some t" "stats_file_ok env d0 s" "d_creatable (pr_disk s) = d_creatable d0"
  shows "stats_file_ok env d0 t"
  using assms(1)
proof (cases rule: process_exec_cases)
  case (thread now b th)
  define d where "d = fold (alert_append (alerts_path (pe_opt env)) now) (drop (length (th_alerts (pr_threads s))) (th_alerts th)) (pr_disk s)"
  have "op_data_dir (pe_opt env) @ ''/stats.json'' \<noteq> alerts_path (pe_opt env)" by (simp add: alerts_path_def)
  then have "disk_text d (op_data_dir (pe_opt env) @ ''/stats.json'') = disk_text (pr_disk s) (op_data_dir (pe_opt env) @ ''/stats.json'')"
    by (simp add: d_def disk_text_def alert_appends_effect(3))
  moreover have "d_room d \<le> d_room (pr_disk s)" by (simp add: d_def alert_appends_effect(1))
  moreover have "pr_disk t = d" "pr_written t = pr_written s" by (simp_all add: thread(4) d_def)
  ultimately show ?thesis using assms(2) by (auto simp: stats_file_ok_def)
next
  case (stats now)
  then show ?thesis using stats_file_kept [OF assms(2)] stats_file_written [OF assms(3), of t env now]
    by (cases "pr_stats s") (auto simp: stats_thread_def split: if_splits)
next
  case (load f k fs)
  then show ?thesis by (intro stats_file_kept [OF assms(2)]) simp_all
next
  case (main now)
  then show ?thesis
    using stats_file_kept [OF assms(2)] stats_file_written [of "load_final s" d0 t env now] assms(3)
    by (cases "pr_main s") (auto simp: main_thread_def split: if_splits)
qed

lemma process_reach_stats_file: "process_reach env rules d0 s \<Longrightarrow> stats_file_ok env d0 s"
proof (induction rule: reach.induct)
  case (reach_init s)
  then show ?case by (auto simp: process_init_def process_start_def stats_file_ok_def)
next
  case (reach_step s t)
  have "d_creatable (pr_disk s) = d_creatable d0"
    using process_reach_files [OF reach_step(1)] by (simp add: process_files_def disk_ok_def)
  then show ?case using reach_step stats_file_step unfolding process_step_def by blast
qed

text \<open>What counts the frames.\<close>

definition malformed :: "('raw \<Rightarrow> message \<Rightarrow> parse_result \<times> message) \<Rightarrow> 'raw \<Rightarrow> bool" where
  "malformed parse raw \<longleftrightarrow> fst (parse raw zero_message) = PMalformed"

definition frames_counted :: "('raw \<Rightarrow> message \<Rightarrow> parse_result \<times> message) \<Rightarrow> 'raw threads \<Rightarrow> bool" where
  "frames_counted parse s \<longleftrightarrow> co_received (th_counters s) = of_nat (length (th_frames s)) \<and>
     co_parse_failures (th_counters s) = of_nat (length (filter (malformed parse) (th_frames s)))"

lemma frames_counted_step:
  assumes "threads_exec cap parse b s = Some t" "frames_counted parse s"
  shows "frames_counted parse t"
proof (cases b)
  case (FrameArrives now raw)
  then show ?thesis using assms
    by (auto simp: frames_counted_def malformed_def begin_frame_def count_frame_def Let_def case_prod_unfold split: if_splits option.splits)
next
  case (PushStep k)
  then show ?thesis using assms by (auto simp: frames_counted_def Let_def split: option.splits)
next
  case (PopStep k)
  then show ?thesis using assms by (auto simp: frames_counted_def Let_def split: option.splits consumer_loop.splits)
next
  case ProcessMessage
  then show ?thesis using assms
    by (auto simp: frames_counted_def call_try_pop_def process_message_def case_prod_unfold Let_def split: consumer_loop.splits)
qed (use assms in \<open>auto simp: frames_counted_def call_try_pop_def Let_def split: if_splits\<close>)

lemma threads_reach_frames: "threads_reach cap parse rules s \<Longrightarrow> frames_counted parse s"
proof (induction rule: reach.induct)
  case (reach_init s)
  then show ?case by (auto simp: threads_init_def threads_start_def frames_counted_def no_counts_def)
next
  case (reach_step s t)
  then show ?case using frames_counted_step unfolding threads_step_def by blast
qed

text \<open>Fewer than \<open>2 ^ 64\<close> changes of the counters do not wrap one.\<close>

lemma successively_nth: "successively P xs \<Longrightarrow> Suc i < length xs \<Longrightarrow> P (xs ! i) (xs ! Suc i)"
proof (induction P xs arbitrary: i rule: successively.induct)
  case (3 P x y xs)
  then show ?case by (cases i) simp_all
qed simp_all

lemma trail_counts:
  assumes "successively counts_up xs" "xs \<noteq> []" "hd xs = no_counts" "f \<in> count_fields" "length xs < 2 ^ 64"
  shows "i < length xs \<Longrightarrow> unat (load_field f (xs ! i)) \<le> i"
    "i + n < length xs \<Longrightarrow> load_field f (xs ! i) \<le> load_field f (xs ! (i + n))"
proof -
  have up: "load_field f (xs ! Suc i) = load_field f (xs ! i) \<or> load_field f (xs ! Suc i) = load_field f (xs ! i) + 1"
    if "Suc i < length xs" for i
    using successively_nth [OF assms(1) that] assms(4) by (auto simp: counts_up_def)
  have plus: "unat (v + 1) = unat v + 1 \<and> v \<le> v + 1" if "unat v < i" "i < length xs" for v :: u64 and i
  proof -
    have "unat v + 1 < 2 ^ 64" using that assms(5) by simp
    then have "unat (v + 1) = unat v + 1" by (simp add: unat_word_ariths)
    then show ?thesis by (simp add: word_le_nat_alt)
  qed
  show le: "i < length xs \<Longrightarrow> unat (load_field f (xs ! i)) \<le> i" for i
  proof (induction i)
    case 0
    have "load_field f no_counts = 0" by (cases f) (simp_all add: no_counts_def)
    then show ?case using assms(2,3) by (simp add: hd_conv_nth [symmetric])
  next
    case (Suc i)
    then have "unat (load_field f (xs ! i)) < Suc i" by simp
    then show ?case using up [OF Suc.prems] plus [OF _ Suc.prems] by fastforce
  qed
  show "i + n < length xs \<Longrightarrow> load_field f (xs ! i) \<le> load_field f (xs ! (i + n))"
  proof (induction n)
    case (Suc n)
    have "unat (load_field f (xs ! (i + n))) < Suc (i + n)" using le [of "i + n"] Suc.prems by simp
    then have "load_field f (xs ! (i + n)) \<le> load_field f (xs ! (i + Suc n))"
      using up [of "i + n"] plus [of _ "Suc (i + n)"] Suc.prems by auto
    then show ?case using Suc.IH Suc.prems by simp
  qed simp
qed

lemma snapshot_counts:
  assumes "process_reach env rules d0 s" "length (pr_trail s) < 2 ^ 64" "f \<in> count_fields"
  shows "w \<in> set (pr_written s) \<Longrightarrow> load_field f (fst w) \<le> load_field f (th_counters (pr_threads s))"
    "w \<in> set (pr_written s) \<Longrightarrow> loaded_before w w' \<Longrightarrow> w' \<in> set (pr_written s) \<Longrightarrow> load_field f (fst w) \<le> load_field f (fst w')"
proof -
  have t: "trail_ok s" "loads_ok s" using process_reach_stats [OF assms(1)] by blast+
  note c = trail_counts(2) [OF _ _ _ assms(3,2)]
  have mono: "load_field f (pr_trail s ! i) \<le> load_field f (pr_trail s ! j)" if "i \<le> j" "j < length (pr_trail s)" for i j
    using c [of i "j - i"] that t(1) by (simp add: trail_ok_def)
  have w: "snd w f < length (pr_trail s)" "load_field f (fst w) = load_field f (pr_trail s ! snd w f)"
    if "w \<in> set (pr_written s)" for w
    using t(2) that by (auto simp: loads_ok_def list_all_iff snapshot_of_def)
  have l: "th_counters (pr_threads s) = pr_trail s ! (length (pr_trail s) - 1)" "0 < length (pr_trail s)"
    using t(1) by (auto simp: trail_ok_def last_conv_nth)
  show "w \<in> set (pr_written s) \<Longrightarrow> load_field f (fst w) \<le> load_field f (th_counters (pr_threads s))"
  proof -
    assume *: "w \<in> set (pr_written s)"
    have "snd w f \<le> length (pr_trail s) - 1" using w(1) [OF *] by linarith
    then show ?thesis using mono w(2) [OF *] l by simp
  qed
  show "w \<in> set (pr_written s) \<Longrightarrow> loaded_before w w' \<Longrightarrow> w' \<in> set (pr_written s) \<Longrightarrow> load_field f (fst w) \<le> load_field f (fst w')"
    using mono [of "snd w f" "snd w' f"] w by (simp add: loaded_before_def)
qed

lemma unat_counted: "w = of_nat n \<Longrightarrow> unat (w :: u64) \<le> n"
  by (simp add: unat_of_nat take_bit_nat_less_eq_self)

lemma process_counters:
  assumes "process_reach env rules d0 s"
  defines "th \<equiv> pr_threads s"
  shows "unat (co_received (th_counters th)) \<le> length (th_frames th)"
    "unat (co_parse_failures (th_counters th)) \<le> length (filter (malformed (pe_parse env)) (th_frames th))"
    "unat (co_pushed (th_counters th)) \<le> length (sy_pushed (th_ring th))"
    "unat (co_processed (th_counters th)) \<le> length (sy_popped (th_ring th))"
    "unat (co_gaps (th_counters th)) \<le> length (filter from_feed (th_alerts th))"
    "unat (co_alerts (th_counters th)) \<le> length (th_alerts th)"
proof -
  have r: "threads_reach (pe_cap env) (pe_parse env) rules th" unfolding th_def by (rule process_threads_reach [OF assms(1)])
  note i = threads_invariant [OF r] and fr = threads_reach_frames [OF r]
  show "unat (co_received (th_counters th)) \<le> length (th_frames th)"
    "unat (co_parse_failures (th_counters th)) \<le> length (filter (malformed (pe_parse env)) (th_frames th))"
    using fr by (auto simp: frames_counted_def intro: unat_counted)
  show "unat (co_gaps (th_counters th)) \<le> length (filter from_feed (th_alerts th))"
    "unat (co_alerts (th_counters th)) \<le> length (th_alerts th)"
    using i by (auto simp: feed_counts_ok_def intro: unat_counted)
  have "length (processed th) \<le> length (sy_popped (th_ring th))"
    by (simp add: processed_def split: consumer_loop.split)
  moreover have "unat (co_processed (th_counters th)) \<le> length (processed th)"
    using i by (auto simp: consumer_ok_def intro: unat_counted)
  ultimately show "unat (co_processed (th_counters th)) \<le> length (sy_popped (th_ring th))" by simp
  define n where "n = length (sy_pushed (th_ring th))"
  have c: "co_pushed (th_counters th) + (if th_ws th = WsCount then 1 else 0) = of_nat n" "th_ws th = WsCount \<longrightarrow> 0 < n"
    using i by (simp_all add: feed_counts_ok_def n_def)
  have "unat (co_pushed (th_counters th)) \<le> n"
  proof (cases "th_ws th = WsCount")
    case True
    then have "co_pushed (th_counters th) + 1 = of_nat (n - 1) + 1" using c by (simp add: of_nat_diff)
    then have "co_pushed (th_counters th) = of_nat (n - 1)" by simp
    then have "unat (co_pushed (th_counters th)) \<le> n - 1" by (rule unat_counted)
    then show ?thesis by simp
  qed (use c in \<open>auto intro: unat_counted\<close>)
  then show "unat (co_pushed (th_counters th)) \<le> length (sy_pushed (th_ring th))" by (simp add: n_def)
qed

text \<open>C17: What the statistics say, with every counter read by a relaxed load of its own while the other threads go
  on counting (fewer than \<open>2 ^ 64\<close> changes of the counters in all). Each number written is one its counter really
  had, and from one snapshot to the next no count goes back, which the readers of the file rely on
  when they send differences. No count runs ahead of what it counts: frames
  received, malformed frames, messages pushed, messages popped, gap alerts, alerts (raised, though their line may still have to be written). As long as the device has room and the
  temporary file can be opened, the statistics file holds the last snapshot taken; the one written when \<open>main\<close> returns is exact. How two counts of one
  snapshot relate is left open, because they can be of different moments.\<close>

theorem statistics_snapshots:
  assumes "process_reach env rules d0 s" "length (pr_trail s) < 2 ^ 64"
  shows "sorted_wrt (\<lambda>c c'. \<forall>f\<in>count_fields. load_field f c \<le> load_field f c') (map fst (pr_written s)) \<and>
    (\<forall>c\<in>set (map fst (pr_written s)).
       (\<forall>f. \<exists>v\<in>set (pr_trail s). load_field f c = load_field f v) \<and>
       unat (co_received c) \<le> length (th_frames (pr_threads s)) \<and>
       unat (co_parse_failures c) \<le> length (filter (malformed (pe_parse env)) (th_frames (pr_threads s))) \<and>
       unat (co_pushed c) \<le> length (sy_pushed (th_ring (pr_threads s))) \<and>
       unat (co_processed c) \<le> length (sy_popped (th_ring (pr_threads s))) \<and>
       unat (co_gaps c) \<le> length (filter from_feed (th_alerts (pr_threads s))) \<and>
       unat (co_alerts c) \<le> length (th_alerts (pr_threads s))) \<and>
    (pr_written s \<noteq> [] \<and> 0 < d_room (pr_disk s) \<and> d_creatable d0 (op_data_dir (pe_opt env) @ ''/stats.json.tmp'') \<longrightarrow>
       (\<exists>now. disk_text (pr_disk s) (op_data_dir (pe_opt env) @ ''/stats.json'') =
          Some (stats_text (pe_start_unix_s env) now (fst (last (pr_written s))) (pe_stream_ids env)))) \<and>
    (pr_main s = MainReturned \<longrightarrow> pr_written s \<noteq> [] \<and> fst (last (pr_written s)) = th_counters (pr_threads s))"
proof -
  have t: "trail_ok s" "loads_ok s" using process_reach_stats [OF assms(1)] by blast+
  have "sorted_wrt (\<lambda>w w'. \<forall>f\<in>count_fields. load_field f (fst w) \<le> load_field f (fst w')) (pr_written s)"
  proof (rule sorted_wrt_mono_rel)
    show "sorted_wrt loaded_before (pr_written s)" using t(2) by (simp add: loads_ok_def sorted_wrt_append)
  qed (use snapshot_counts(2) [OF assms] in blast)
  moreover have "(\<forall>f. \<exists>v\<in>set (pr_trail s). load_field f (fst w) = load_field f v) \<and>
      (\<forall>f\<in>count_fields. unat (load_field f (fst w)) \<le> unat (load_field f (th_counters (pr_threads s))))"
    if "w \<in> set (pr_written s)" for w
    using t(2) that snapshot_counts(1) [OF assms _ that]
    by (auto simp: loads_ok_def list_all_iff snapshot_of_def word_le_nat_alt)
  moreover have "stats_file_ok env d0 s" by (rule process_reach_stats_file [OF assms(1)])
  ultimately show ?thesis using t(2) process_counters [OF assms(1)]
    by (simp add: sorted_wrt_map loads_ok_def stats_file_ok_def count_fields_def) (meson le_trans)
qed

section \<open>Runs\<close>

lemma process_reach_path: "(process_step env)\<^sup>*\<^sup>* s t \<Longrightarrow> process_reach env rules d0 s \<Longrightarrow> process_reach env rules d0 t"
  by (induction rule: rtranclp_induct) (auto intro: reach.reach_step)

lemma process_threads_run:
  assumes "threads_exec_all (pe_cap env) (pe_parse env) bs (pr_threads s) = Some th" "StopFeed \<notin> set bs" "pr_main s \<noteq> MainReturned"
  obtains t where "(process_step env)\<^sup>*\<^sup>* s t" "pr_threads t = th" "pr_main t = pr_main s" "pr_stats t = pr_stats s"
    "pr_args t = pr_args s" "pr_seen t = pr_seen s" "pr_written t = pr_written s" "prefix (pr_trail s) (pr_trail t)"
    "length (pr_trail t) + length (th_alerts (pr_threads s)) \<le> length (pr_trail s) + length bs + length (th_alerts th)"
proof -
  have "\<exists>t. (process_step env)\<^sup>*\<^sup>* s t \<and> pr_threads t = th \<and> pr_main t = pr_main s \<and> pr_stats t = pr_stats s \<and>
      pr_args t = pr_args s \<and> pr_seen t = pr_seen s \<and> pr_written t = pr_written s \<and> prefix (pr_trail s) (pr_trail t) \<and>
      length (pr_trail t) + length (th_alerts (pr_threads s)) \<le> length (pr_trail s) + length bs + length (th_alerts th)"
    using assms
  proof (induction bs arbitrary: s)
    case (Cons b bs)
    then obtain u where u: "threads_exec (pe_cap env) (pe_parse env) b (pr_threads s) = Some u"
      "threads_exec_all (pe_cap env) (pe_parse env) bs u = Some th" by (auto split: option.splits)
    define new where "new = drop (length (th_alerts (pr_threads s))) (th_alerts u)"
    define v where "v = s\<lparr>pr_threads := u,
      pr_trail := pr_trail s @ counters_trail (length new) (th_counters (pr_threads s)) (th_counters u),
      pr_disk := fold (alert_append (alerts_path (pe_opt env)) 0) new (pr_disk s)\<rparr>"
    have bound: "length (counters_trail (length new) (th_counters (pr_threads s)) (th_counters u)) \<le> Suc (length new)"
      by (simp add: counters_trail_def)
    have ns: "b \<noteq> StopFeed" using Cons.prems(2) by auto
    have v: "process_exec env (ThreadAct 0 b) s = Some v"
      using ns Cons.prems(3) u(1) by (simp add: process_exec_def worker_threads_def v_def new_def Let_def)
    have k: "pr_threads v = u" "pr_main v = pr_main s" "pr_stats v = pr_stats s"
      "pr_args v = pr_args s" "pr_seen v = pr_seen s" "pr_written v = pr_written s" "prefix (pr_trail s) (pr_trail v)"
      "length (pr_trail v) \<le> length (pr_trail s) + Suc (length (th_alerts u) - length (th_alerts (pr_threads s)))"
      using bound by (simp_all add: v_def new_def)
    have al: "length (th_alerts (pr_threads s)) \<le> length (th_alerts u)"
      using threads_exec_keeps(4) [OF u(1) ns] by auto
    have st: "process_step env s v" using v unfolding process_step_def by blast
    obtain t where t: "(process_step env)\<^sup>*\<^sup>* v t" "pr_threads t = th" "pr_main t = pr_main v" "pr_stats t = pr_stats v"
      "pr_args t = pr_args v" "pr_seen t = pr_seen v" "pr_written t = pr_written v" "prefix (pr_trail v) (pr_trail t)"
      "length (pr_trail t) + length (th_alerts u) \<le> length (pr_trail v) + length bs + length (th_alerts th)"
      using Cons.IH [of v] u(2) k(1,2) Cons.prems(2,3) by auto
    then have "length (pr_trail t) + length (th_alerts (pr_threads s)) \<le> length (pr_trail s) + length (b # bs) + length (th_alerts th)"
      using k(8) al by simp
    then show ?case using t k converse_rtranclp_into_rtranclp [OF st t(1)] by (intro exI [of _ t]) auto
  qed auto
  then show thesis using that by blast
qed

text \<open>The loads of one \<open>write_stats\<close>, each as stale as the scheduler likes.\<close>

lemma process_load_run:
  assumes "pr_stats s = StatsLoad fs" "distinct fs" "pr_main s \<noteq> MainReturned"
    "\<And>f. f \<in> set fs \<Longrightarrow> pr_seen s f \<le> k f \<and> k f < length (pr_trail s)"
  obtains t where "(process_step env)\<^sup>*\<^sup>* s t" "pr_stats t = StatsLoad []" "pr_threads t = pr_threads s" "pr_main t = pr_main s"
    "pr_trail t = pr_trail s" "pr_written t = pr_written s"
    "\<And>f. load_field f (pr_args t) = (if f \<in> set fs then load_field f (pr_trail s ! k f) else load_field f (pr_args s))"
proof -
  have "\<exists>t. (process_step env)\<^sup>*\<^sup>* s t \<and> pr_stats t = StatsLoad [] \<and> pr_threads t = pr_threads s \<and> pr_main t = pr_main s \<and>
      pr_trail t = pr_trail s \<and> pr_written t = pr_written s \<and>
      (\<forall>f. load_field f (pr_args t) = (if f \<in> set fs then load_field f (pr_trail s ! k f) else load_field f (pr_args s)))"
    using assms
  proof (induction fs arbitrary: s)
    case (Cons f fs)
    define u where "u = s\<lparr>pr_args := store_field f (load_field f (pr_trail s ! k f)) (pr_args s),
      pr_seen := (pr_seen s)(f := k f), pr_stats := StatsLoad fs\<rparr>"
    have "process_exec env (LoadAct f (k f)) s = Some u"
      using Cons.prems(1,3) Cons.prems(4) [of f] by (simp add: process_exec_def load_counter_def u_def)
    then have "process_step env s u" unfolding process_step_def by blast
    moreover have u: "pr_stats u = StatsLoad fs" "pr_main u \<noteq> MainReturned" "distinct fs" "f \<notin> set fs"
      "\<And>g. g \<in> set fs \<Longrightarrow> pr_seen u g \<le> k g \<and> k g < length (pr_trail u)"
      using Cons.prems by (auto simp: u_def)
    moreover obtain t where "(process_step env)\<^sup>*\<^sup>* u t" "pr_stats t = StatsLoad []" "pr_threads t = pr_threads u" "pr_main t = pr_main u"
      "pr_trail t = pr_trail u" "pr_written t = pr_written u"
      "\<And>g. load_field g (pr_args t) = (if g \<in> set fs then load_field g (pr_trail u ! k g) else load_field g (pr_args u))"
      using Cons.IH [OF u(1,3,2,5)] by blast
    ultimately show ?case
      by (intro exI [of _ t]) (auto simp: u_def load_store intro: converse_rtranclp_into_rtranclp)
  next
    case Nil
    then show ?case by (intro exI [of _ s]) simp
  qed
  then show thesis using that by blast
qed

text \<open>A process of two slots.\<close>

definition small_env :: "(parse_result \<times> u32 \<times> u64) process_env" where
  "small_env = \<lparr>pe_bufsz = 16, pe_cap = 2, pe_parse = echo_parse, pe_opt = default_options,
     pe_start_unix_s = 0, pe_stream_ids = [10]\<rparr>"

definition small_disk :: disk where
  "small_disk = \<lparr>d_files = Map.empty, d_room = 1000, d_creatable = (\<lambda>_. True)\<rparr>"

text \<open>The statistics thread has begun to load when a tick comes; it still reads the old number of received frames
  and then the new number of pushed messages: a snapshot of no moment.\<close>

definition one_push :: "'raw \<Rightarrow> 'raw threads_action list" where
  "one_push raw = [FrameArrives 0 raw, PushStep 0, PushStep 0, PushStep 0, PushStep 0, CountPush]"

lemmas push_run_defs = one_push_def threads_start_def frame_outcome_def feed_accept_seq_def feed_init_def begin_frame_def
  count_frame_def no_counts_def spsc_start_def spsc_init_def spsc_exec.simps Let_def

lemma some_of_case: "(case x of None \<Rightarrow> False | Some y \<Rightarrow> P y) \<Longrightarrow> \<exists>y. x = Some y \<and> P y"
  by (cases x) simp_all

lemma one_push_run:
  assumes "parse raw zero_message = (POk, m)" "cap \<noteq> 0"
  shows "case threads_exec_all cap parse (one_push raw) (threads_start rules junk) of
      None \<Rightarrow> False
    | Some th \<Rightarrow> co_pushed (th_counters th) = 1 \<and> th_alerts th = []"
  using assms by (simp add: push_run_defs)

lemma torn_snapshot:
  obtains s c where "process_reach small_env rules_init small_disk s" "length (pr_trail s) \<le> 7"
    "c \<in> set (map fst (pr_written s))" "co_received c = 0" "co_pushed c = 1"
proof -
  let ?s = "process_start rules_init [zero_message, zero_message] small_disk :: (parse_result \<times> u32 \<times> u64) process"
  let ?raw = "(POk, 1, 5) :: parse_result \<times> u32 \<times> u64"
  define s1 where "s1 = ?s\<lparr>pr_stats := StatsLoad stats_loads\<rparr>"
  have s: "process_reach small_env rules_init small_disk ?s"
    by (rule reach.reach_init) (auto simp: process_init_def small_env_def intro!: exI [of _ "[zero_message, zero_message]"])
  have "process_exec small_env (StatsAct 0) ?s = Some s1"
    by (simp add: process_exec_def stats_thread_def s1_def process_start_def threads_start_def)
  then have s1: "process_step small_env ?s s1" unfolding process_step_def by blast
  have "pe_parse small_env ?raw zero_message = (POk, zero_message\<lparr>m_stream_id := 1, m_seq := 5\<rparr>)" "pe_cap small_env \<noteq> 0"
    by (simp_all add: small_env_def echo_parse_def)
  note run = one_push_run [where parse = "pe_parse small_env" and raw = ?raw and cap = "pe_cap small_env" and
    rules = rules_init and junk = "[zero_message, zero_message]", OF this]
  have th0: "pr_threads s1 = threads_start rules_init [zero_message, zero_message]" by (simp add: s1_def process_start_def)
  obtain th where th: "threads_exec_all (pe_cap small_env) (pe_parse small_env) (one_push ?raw) (pr_threads s1) = Some th"
    "co_pushed (th_counters th) = 1" "th_alerts th = []"
    using some_of_case [OF run] unfolding th0 by blast
  have f: "th_alerts (pr_threads s1) = []" "pr_trail s1 = [no_counts]"
    "pr_seen s1 = (\<lambda>_. 0)" "pr_stats s1 = StatsLoad stats_loads" "pr_main s1 = MainCheck"
    by (simp_all add: s1_def process_start_def threads_start_def)
  have "StopFeed \<notin> set (one_push ?raw)" "pr_main s1 \<noteq> MainReturned" by (simp_all add: one_push_def f)
  then obtain u where t: "(process_step small_env)\<^sup>*\<^sup>* s1 u" "pr_threads u = th" "pr_main u = pr_main s1" "pr_stats u = pr_stats s1"
    "pr_seen u = pr_seen s1"
    "length (pr_trail u) + length (th_alerts (pr_threads s1)) \<le> length (pr_trail s1) + length (one_push ?raw) + length (th_alerts th)"
    by (rule process_threads_run [OF th(1)])
  have "length (one_push ?raw) = 6" by (simp add: one_push_def)
  then have u: "(process_step small_env)\<^sup>*\<^sup>* s1 u" "pr_threads u = th" "pr_main u = MainCheck" "pr_stats u = StatsLoad stats_loads"
    "pr_seen u = (\<lambda>_. 0)" "length (pr_trail u) \<le> 7"
    using t unfolding f th(3) by simp_all
  have ru: "process_reach small_env rules_init small_disk u"
    using process_reach_path [OF u(1)] reach.reach_step [OF s s1] by blast
  have tr: "pr_trail u \<noteq> []" "pr_trail u ! 0 = no_counts" "pr_trail u ! (length (pr_trail u) - 1) = th_counters th"
    using process_reach_stats [OF ru] u(2) by (auto simp: trail_ok_def last_conv_nth hd_conv_nth)
  define k where "k f = (if f = Pushed then length (pr_trail u) - 1 else 0)" for f
  have "distinct stats_loads" "pr_main u \<noteq> MainReturned" by (simp_all add: stats_loads_def u(3))
  moreover have "pr_seen u f \<le> k f \<and> k f < length (pr_trail u)" for f using tr(1) by (simp add: u(5) k_def)
  ultimately obtain v where v: "(process_step small_env)\<^sup>*\<^sup>* u v" "pr_stats v = StatsLoad []" "pr_main v = pr_main u"
    "pr_trail v = pr_trail u"
    "\<And>f. load_field f (pr_args v) = (if f \<in> set stats_loads then load_field f (pr_trail u ! k f) else load_field f (pr_args u))"
    using process_load_run [OF u(4), where k = k] by blast
  define w where "w = (write_snapshot small_env 0 v)\<lparr>pr_stats := StatsSleep\<rparr>"
  have "process_exec small_env (StatsAct 0) v = Some w" using v u(3) by (simp add: process_exec_def stats_thread_def w_def)
  then have "process_step small_env v w" unfolding process_step_def by blast
  then have "process_reach small_env rules_init small_disk w" using process_reach_path [OF v(1) ru] by (meson reach.reach_step)
  moreover have "co_received (pr_args v) = 0" "co_pushed (pr_args v) = 1"
    using v(5) [of Received] v(5) [of Pushed] tr th(2) by (simp_all add: k_def stats_loads_def no_counts_def)
  ultimately show thesis using u(6) v(4) by (intro that [of w "pr_args v"]) (simp_all add: w_def)
qed

theorem statistics_snapshots_witness:
  "\<exists>s c. process_reach small_env rules_init small_disk s \<and> c \<in> set (map fst (pr_written s)) \<and>
     co_received c < co_pushed c \<and> unat (co_pushed c) \<le> length (sy_pushed (th_ring (pr_threads s)))"
proof -
  obtain s c where s: "process_reach small_env rules_init small_disk s" "length (pr_trail s) \<le> 7"
    "c \<in> set (map fst (pr_written s))" "co_received c = 0" "co_pushed c = 1" by (rule torn_snapshot)
  have "length (pr_trail s) < 2 ^ 64" using s(2) by simp
  from statistics_snapshots [OF s(1) this] s(3) have "unat (co_pushed c) \<le> length (sy_pushed (th_ring (pr_threads s)))" by blast
  then show ?thesis using s by (intro exI [of _ s] exI [of _ c]) simp
qed

end
