(* ===== verification/Daemon_Shutdown.thy ===== *)
theory Daemon_Shutdown
  imports Daemon_Process
begin

text \<open>
  The end of the daemon: after the signal \<open>main\<close> of \<open>src/feed/coinbase_daemon_main.cpp\<close> always comes to its
  return, by a rank that the steps of all threads lower, and what it leaves then: threads ended, exact counters, the
  alert file and the statistics file, and ticks in the ring nobody has looked at. \<open>process_boot\<close> is \<open>main\<close> up to the start of its threads.
\<close>

section \<open>The return of main\<close>

fun stats_rank :: "stats_loop \<Rightarrow> nat" where
  "stats_rank StatsDone = 0"
| "stats_rank StatsCheck = 1"
| "stats_rank StatsSleep = 2"
| "stats_rank (StatsLoad fs) = 3 + length fs"

definition process_rank :: "'raw process \<Rightarrow> nat" where
  "process_rank s = shutdown_rank (pr_threads s) + stats_rank (pr_stats s) + (5 - main_stage (pr_main s))"

text \<open>Until the feed is stopped only the steps of \<open>main\<close> and of a running callback count.\<close>

fun waiting_rank :: "main_loop \<Rightarrow> nat" where
  "waiting_rank MainSleep = 2"
| "waiting_rank MainCheck = 1"
| "waiting_rank _ = 0"

fun callback_rank :: "ws_loop \<Rightarrow> message producer_pc \<Rightarrow> nat" where
  "callback_rank WsIdle pc = 0"
| "callback_rank WsCount pc = 1"
| "callback_rank WsPush pc = 2 + producer_rank pc"

definition stop_rank :: "'raw process \<Rightarrow> nat" where
  "stop_rank s = waiting_rank (pr_main s) + callback_rank (th_ws (pr_threads s)) (sy_ppc (th_ring (pr_threads s)))"

lemma spsc_push_enabled:
  assumes "capacity_ok cap" "spsc_reach cap r" "sy_ppc r \<noteq> PIdle"
  shows "\<exists>r'. spsc_exec cap (Producer (length (sy_popped r))) r = Some r' \<and> producer_rank (sy_ppc r') < producer_rank (sy_ppc r)"
  using assms(3) spsc_reach_inv [OF assms(1,2)] by (cases "sy_ppc r") (auto simp: spsc_sys_defs spsc_exec.simps)

lemma stop_progress:
  assumes "capacity_ok (pe_cap env)" "process_reach env rules d0 s" "\<not> th_running (pr_threads s)" "\<not> th_stopped (pr_threads s)"
  shows "\<exists>t. process_step env s t \<and> \<not> th_running (pr_threads t) \<and>
    (th_stopped (pr_threads t) \<or> stop_rank t < stop_rank s)"
proof -
  have pc: "process_control s" by (rule process_reach_control [OF assms(2)])
  then have stage: "main_stage (pr_main s) < 2" using assms(4) by (simp add: process_control_def)
  have co: "control_ok (pe_cap env) (pr_threads s)"
    using threads_invariant [OF process_threads_reach [OF assms(2)]] by blast
  have ex: ?thesis if "process_exec env a s = Some t" "\<not> th_running (pr_threads t)"
    "th_stopped (pr_threads t) \<or> stop_rank t < stop_rank s" for a t
    using that unfolding process_step_def by blast
  show ?thesis
  proof (cases "pr_main s")
    case MainCheck
    then show ?thesis using assms(3)
      by (intro ex [of "MainAct 0" "s\<lparr>pr_main := MainStop\<rparr>"]) (simp_all add: process_exec_def main_thread_def stop_rank_def)
  next
    case MainSleep
    then show ?thesis using assms(3)
      by (intro ex [of "MainAct 0" "s\<lparr>pr_main := MainCheck\<rparr>"]) (simp_all add: process_exec_def main_thread_def stop_rank_def)
  next
    case MainStop
    show ?thesis
    proof (cases "th_ws (pr_threads s)")
      case WsIdle
      then show ?thesis using assms(3) MainStop
        by (intro ex [of "MainAct 0" "s\<lparr>pr_threads := (pr_threads s)\<lparr>th_stopped := True\<rparr>, pr_main := MainJoinConsumer\<rparr>"])
          (simp_all add: process_exec_def main_thread_def)
    next
      case WsCount
      then obtain th where th: "count_push (pr_threads s) = Some th" "th_running th = th_running (pr_threads s)"
        "th_alerts th = th_alerts (pr_threads s)" "th_ws th = WsIdle" by simp
      have "\<exists>t. process_exec env (ThreadAct 0 CountPush) s = Some t \<and> \<not> th_running (pr_threads t) \<and> stop_rank t < stop_rank s"
        using assms(3) MainStop WsCount th
        by (simp add: process_exec_def worker_threads_def stop_rank_def Let_def del: count_push_def)
      then show ?thesis using ex by blast
    next
      case WsPush
      then have "sy_ppc (th_ring (pr_threads s)) \<noteq> PIdle" "spsc_reach (pe_cap env) (th_ring (pr_threads s))"
        using co by (auto simp: control_ok_def)
      then obtain r where r: "spsc_exec (pe_cap env) (Producer (length (sy_popped (th_ring (pr_threads s))))) (th_ring (pr_threads s)) = Some r"
        "producer_rank (sy_ppc r) < producer_rank (sy_ppc (th_ring (pr_threads s)))"
        using spsc_push_enabled [OF assms(1)] by blast
      obtain th where th: "push_access (pe_cap env) (length (sy_popped (th_ring (pr_threads s)))) (pr_threads s) = Some th"
        "th_running th = th_running (pr_threads s)" "th_alerts th = th_alerts (pr_threads s)" "th_ring th = r"
        "th_ws th = WsPush \<or> th_ws th \<in> {WsIdle, WsCount}"
        by (auto simp: r(1) Let_def)
      have "callback_rank (th_ws th) (sy_ppc r) < callback_rank WsPush (sy_ppc (th_ring (pr_threads s)))"
        using th(5) r(2) by auto
      then have "\<exists>t. process_exec env (ThreadAct 0 (PushStep (length (sy_popped (th_ring (pr_threads s)))))) s = Some t \<and>
          \<not> th_running (pr_threads t) \<and> stop_rank t < stop_rank s"
        using assms(3) MainStop WsPush th
        by (simp add: process_exec_def worker_threads_def stop_rank_def Let_def del: push_access_def)
      then show ?thesis using ex by blast
    qed
  qed (use stage in simp_all)
qed

lemma shutdown_steps:
  assumes "capacity_ok (pe_cap env)" "process_reach env rules d0 s" "th_stopped (pr_threads s)" "process_step env s t"
  shows "t = s \<or> process_rank t < process_rank s \<and> th_stopped (pr_threads t) \<and>
    sy_pushed (th_ring (pr_threads t)) = sy_pushed (th_ring (pr_threads s))"
proof -
  have pc: "process_control s" by (rule process_reach_control [OF assms(2)])
  have th: "threads_reach (pe_cap env) (pe_parse env) rules (pr_threads s)" by (rule process_threads_reach [OF assms(2)])
  obtain a where "process_exec env a s = Some t" using assms(4) unfolding process_step_def by blast
  then show ?thesis
  proof (cases rule: process_exec_cases)
    case (thread now b u)
    then have "threads_step (pe_cap env) (pe_parse env) (pr_threads s) u" unfolding threads_step_def by blast
    then have "u = pr_threads s \<or> shutdown_rank u < shutdown_rank (pr_threads s) \<and> th_stopped u \<and>
        sy_pushed (th_ring u) = sy_pushed (th_ring (pr_threads s))"
      using shutdown_terminates [OF assms(1) th assms(3)] by blast
    then show ?thesis by (auto simp: thread(4) process_rank_def)
  next
    case (stats now)
    then show ?thesis using assms(3) pc
      by (cases "pr_stats s") (auto simp: stats_thread_def process_rank_def process_control_def split: if_splits)
  next
    case (load f k fs)
    then have "0 < length fs" by auto
    then have "length (remove1 f fs) < length fs" using load(3) by (simp add: length_remove1)
    then show ?thesis using assms(3) by (simp add: load(2,6) process_rank_def)
  next
    case (main now)
    then show ?thesis using assms(3) pc
      by (cases "pr_main s") (auto simp: main_thread_def process_rank_def process_control_def split: if_splits)
  qed
qed

lemma shutdown_progress:
  assumes "capacity_ok (pe_cap env)" "process_reach env rules d0 s" "th_stopped (pr_threads s)" "pr_main s \<noteq> MainReturned"
  shows "\<exists>t. process_step env s t \<and> process_rank t < process_rank s"
proof -
  have pc: "process_control s" by (rule process_reach_control [OF assms(2)])
  have th: "threads_reach (pe_cap env) (pe_parse env) rules (pr_threads s)" by (rule process_threads_reach [OF assms(2)])
  have ex: ?thesis if "process_exec env a s = Some t" "process_rank t < process_rank s" for a t
    using that unfolding process_step_def by blast
  show ?thesis
  proof (cases "th_loop (pr_threads s) = LoopDone \<and> pr_stats s = StatsDone")
    case True
    then have "\<exists>t. process_exec env (MainAct 0) s = Some t \<and> process_rank t < process_rank s" using assms(3,4) pc
      by (cases "pr_main s") (auto simp: process_exec_def main_thread_def process_rank_def process_control_def)
    then show ?thesis using ex by blast
  next
    case False
    show ?thesis
    proof (cases "pr_stats s = StatsDone")
      case True
      then obtain u where u: "threads_step (pe_cap env) (pe_parse env) (pr_threads s) u"
        "shutdown_rank u < shutdown_rank (pr_threads s)"
        using False shutdown_terminates [OF assms(1) th assms(3)] by blast
      then obtain b where b: "threads_exec (pe_cap env) (pe_parse env) b (pr_threads s) = Some u"
        unfolding threads_step_def by blast
      moreover have "b \<noteq> StopFeed"
      proof
        assume "b = StopFeed"
        then have "u = pr_threads s" using b assms(3) by (auto split: if_splits)
        then show False using u(2) by simp
      qed
      ultimately have "\<exists>t. process_exec env (ThreadAct 0 b) s = Some t \<and> process_rank t < process_rank s"
        using assms(4) u(2) by (simp add: process_exec_def worker_threads_def Let_def process_rank_def)
      then show ?thesis using ex by blast
    next
      case False
      show ?thesis
      proof (cases "\<exists>f fs. pr_stats s = StatsLoad (f # fs)")
        case True
        then obtain f fs where f: "pr_stats s = StatsLoad (f # fs)" by blast
        have "pr_seen s f < length (pr_trail s)"
          using process_reach_stats [OF assms(2)] by (auto simp: loads_ok_def snapshot_of_def)
        then have "\<exists>t. process_exec env (LoadAct f (pr_seen s f)) s = Some t \<and> process_rank t < process_rank s"
          using assms(4) by (simp add: process_exec_def load_counter_def f process_rank_def)
        then show ?thesis using ex by blast
      next
        case False
        then have "\<exists>t. process_exec env (StatsAct 0) s = Some t \<and> process_rank t < process_rank s"
          using assms(3,4) pc \<open>pr_stats s \<noteq> StatsDone\<close>
          by (cases "pr_stats s") (auto simp: process_exec_def stats_thread_def process_rank_def process_control_def neq_Nil_conv)
        then show ?thesis using ex by blast
      qed
    qed
  qed
qed

lemma stopped_process_returns:
  assumes "capacity_ok (pe_cap env)" "process_reach env rules d0 s" "th_stopped (pr_threads s)"
  shows "\<exists>t. (process_step env)\<^sup>*\<^sup>* s t \<and> pr_main t = MainReturned"
  using assms(2,3)
proof (induction "process_rank s" arbitrary: s rule: less_induct)
  case less
  show ?case
  proof (cases "pr_main s = MainReturned")
    case False
    then obtain u where u: "process_step env s u" "process_rank u < process_rank s"
      using shutdown_progress [OF assms(1) less.prems] by blast
    then have "th_stopped (pr_threads u)" using shutdown_steps [OF assms(1) less.prems u(1)] by auto
    moreover have "process_reach env rules d0 u" using less.prems(1) u(1) by (rule reach.reach_step)
    ultimately show ?thesis using less.hyps [OF u(2)] u(1) by (meson converse_rtranclp_into_rtranclp)
  qed blast
qed

lemma signalled_process_returns:
  assumes "capacity_ok (pe_cap env)" "process_reach env rules d0 s" "\<not> th_running (pr_threads s)"
  shows "\<exists>t. (process_step env)\<^sup>*\<^sup>* s t \<and> pr_main t = MainReturned"
  using assms(2,3)
proof (induction "stop_rank s" arbitrary: s rule: less_induct)
  case less
  show ?case
  proof (cases "th_stopped (pr_threads s)")
    case False
    then obtain u where u: "process_step env s u" "\<not> th_running (pr_threads u)"
      "th_stopped (pr_threads u) \<or> stop_rank u < stop_rank s"
      using stop_progress [OF assms(1) less.prems] by blast
    have "process_reach env rules d0 u" using less.prems(1) u(1) by (rule reach.reach_step)
    then have "\<exists>t. (process_step env)\<^sup>*\<^sup>* u t \<and> pr_main t = MainReturned"
      using less.hyps [of u] stopped_process_returns [OF assms(1)] u(2,3) by blast
    then show ?thesis using u(1) by (meson converse_rtranclp_into_rtranclp)
  qed (use stopped_process_returns [OF assms(1) less.prems(1)] in blast)
qed

text \<open>C10: The daemon returns. From whatever point of whatever schedule the signal has reached, the process can
  always still come to the end of \<open>main\<close>: no thread waits for ever for another. Once \<open>main\<close> has stopped the feed
  the end comes on every schedule: nothing is pushed any more, and until \<open>main\<close> has returned some thread can
  run and every step that changes anything brings the process nearer to the end.\<close>

theorem daemon_returns:
  assumes "capacity_ok (pe_cap env)" "process_reach env rules d0 s" "\<not> th_running (pr_threads s)"
  shows "(\<exists>t. (process_step env)\<^sup>*\<^sup>* s t \<and> pr_main t = MainReturned) \<and>
    (th_stopped (pr_threads s) \<longrightarrow>
       (pr_main s \<noteq> MainReturned \<longrightarrow> (\<exists>t. process_step env s t \<and> process_rank t < process_rank s)) \<and>
       (\<forall>t. process_step env s t \<longrightarrow> t = s \<or> process_rank t < process_rank s \<and> th_stopped (pr_threads t) \<and>
          sy_pushed (th_ring (pr_threads t)) = sy_pushed (th_ring (pr_threads s))))"
  using signalled_process_returns [OF assms] shutdown_progress [OF assms(1,2)] shutdown_steps [OF assms(1,2)]
  by blast

text \<open>A process of two slots that has just been signalled.\<close>

definition signalled :: "(parse_result \<times> u32 \<times> u64) process" where
  "signalled = (let s = process_start rules_init [zero_message, zero_message] small_disk
     in s\<lparr>pr_threads := handle_signal (pr_threads s)\<rparr>)"

lemma signalled_reach: "process_reach small_env rules_init small_disk signalled"
proof -
  let ?s = "process_start rules_init [zero_message, zero_message] small_disk :: (parse_result \<times> u32 \<times> u64) process"
  have "process_reach small_env rules_init small_disk ?s"
    by (rule reach.reach_init) (auto simp: process_init_def small_env_def intro!: exI [of _ "[zero_message, zero_message]"])
  moreover have "process_step small_env ?s signalled" unfolding process_step_def
    by (rule exI [of _ "ThreadAct 0 SignalArrives"])
      (simp add: process_exec_def worker_threads_def signalled_def process_start_def Let_def)
  ultimately show ?thesis by (rule reach.reach_step)
qed

lemma small_env_facts: "capacity_ok (pe_cap small_env)" "\<not> th_running (pr_threads signalled)"
  by (simp_all add: small_env_def capacity_ok_2 signalled_def Let_def)

theorem daemon_returns_witness:
  "\<exists>t. (process_step small_env)\<^sup>*\<^sup>* signalled t \<and> pr_main t = MainReturned"
  using daemon_returns [OF small_env_facts(1) signalled_reach small_env_facts(2)] by blast

section \<open>What the daemon leaves\<close>

text \<open>\<open>main\<close> up to the start of its threads; None is the exit with status 2.\<close>

definition process_boot ::
  "nat \<Rightarrow> 'e dom \<Rightarrow> message list \<Rightarrow> string list \<Rightarrow> nat \<Rightarrow> disk \<Rightarrow> (string process_env \<times> string process) option" where
  "process_boot bufsz api junk args start_ms d =
     (case daemon_setup (disk_text d) (d_creatable d) args of
        None \<Rightarrow> None
      | Some (opt, rules, stream_ids) \<Rightarrow>
     (case alerts_open (alerts_path opt) d of
        None \<Rightarrow> None
      | Some d0 \<Rightarrow>
          Some (\<lparr>pe_bufsz = bufsz, pe_cap = daemon_capacity,
                  pe_parse = coinbase_parse api (map_of (op_products opt)), pe_opt = opt,
                  pe_start_unix_s = d_div (d_of_int (int start_ms)) d_1000, pe_stream_ids = stream_ids\<rparr>,
                process_start rules junk d0)))"

lemma daemon_capacity_ok: "capacity_ok daemon_capacity"
  by (simp add: capacity_ok_def daemon_capacity_def)

lemma process_boot_reach:
  assumes "process_boot bufsz api junk args start_ms d = Some (env, s0)" "length junk = unat daemon_capacity"
  obtains rules d0 where "process_reach env rules d0 s0" "pe_cap env = daemon_capacity"
    "d0 = d\<lparr>d_files := (d_files d)(alerts_path (pe_opt env) \<mapsto> file_bytes (alerts_path (pe_opt env)) d)\<rparr>"
proof -
  obtain opt rules ids d0 where s: "daemon_setup (disk_text d) (d_creatable d) args = Some (opt, rules, ids)"
    "alerts_open (alerts_path opt) d = Some d0" "pe_opt env = opt" "pe_cap env = daemon_capacity"
    "s0 = process_start rules junk d0"
    using assms(1) by (auto simp: process_boot_def split: option.splits)
  have "process_reach env rules d0 s0" using s(4,5) assms(2)
    by (intro reach.reach_init) (auto simp: process_init_def)
  then show ?thesis using s by (intro that) (auto simp: alerts_open_def split: if_splits)
qed

text \<open>C9: What the daemon leaves when \<open>main\<close> returns, whatever the command line and the rule files that got it started, the
  frames and events of the feed, the moment of the signal and the schedule. All threads have ended and nothing
  can happen any more; the messages processed are the first of those pushed, and what is lost is at
  most what the ring of 65536 slots holds; the counters are those of the pushed and processed messages and the
  alerts. Unless the device filled up, the alert file is what it was before with a line appended for
  every alert in the order they were raised (so alerts survive restarts), and, when its temporary file can be
  created, the statistics file holds these last counters whatever the statistics thread wrote before. Apart from
  the alert file, the statistics file and that temporary file, no file has changed.\<close>

theorem daemon_exit:
  assumes "process_boot bufsz api junk args start_ms d = Some (env, s0)" "length junk = unat daemon_capacity"
    "(process_step env)\<^sup>*\<^sup>* s0 s" "pr_main s = MainReturned"
  shows "th_loop (pr_threads s) = LoopDone \<and> th_stopped (pr_threads s) \<and> pr_stats s = StatsDone \<and>
    (\<forall>t. \<not> process_step env s t) \<and>
    prefix (processed (pr_threads s)) (sy_pushed (th_ring (pr_threads s))) \<and>
    length (sy_pushed (th_ring (pr_threads s))) \<le> length (processed (pr_threads s)) + 65536 \<and>
    co_pushed (th_counters (pr_threads s)) = of_nat (length (sy_pushed (th_ring (pr_threads s)))) \<and>
    co_processed (th_counters (pr_threads s)) = of_nat (length (processed (pr_threads s))) \<and>
    co_alerts (th_counters (pr_threads s)) = of_nat (length (th_alerts (pr_threads s))) \<and>
    (0 < d_room (pr_disk s) \<longrightarrow> (\<exists>as. map snd as = th_alerts (pr_threads s) \<and>
       text_or_empty (pr_disk s) (alerts_path (pe_opt env)) = alert_writes as (text_or_empty d (alerts_path (pe_opt env))))) \<and>
    (0 < d_room (pr_disk s) \<and> d_creatable d (op_data_dir (pe_opt env) @ ''/stats.json.tmp'') \<longrightarrow>
       (\<exists>now. stats_written env now s)) \<and>
    (\<forall>q. q \<notin> set (alerts_path (pe_opt env) # stats_paths (pe_opt env)) \<longrightarrow> d_files (pr_disk s) q = d_files d q)"
proof -
  let ?th = "pr_threads s"
  obtain rules d0 where b: "process_reach env rules d0 s0" "pe_cap env = daemon_capacity"
    "d0 = d\<lparr>d_files := (d_files d)(alerts_path (pe_opt env) \<mapsto> file_bytes (alerts_path (pe_opt env)) d)\<rparr>"
    using process_boot_reach [OF assms(1,2)] .
  have r: "process_reach env rules d0 s" by (rule process_reach_path [OF assms(3) b(1)])
  have cap: "capacity_ok (pe_cap env)" "unat (pe_cap env) = 65536"
    by (simp_all add: b(2) daemon_capacity_ok) (simp add: daemon_capacity_def)
  have pc: "process_control s" by (rule process_reach_control [OF r])
  have i: "control_ok (pe_cap env) ?th" "consumer_ok rules ?th" "feed_counts_ok ?th"
    using threads_invariant [OF process_threads_reach [OF r]] by blast+
  have l: "th_loop ?th = LoopDone" "th_stopped ?th" "pr_stats s = StatsDone"
    using pc assms(4) by (auto simp: process_control_def)
  have "th_ws ?th = WsIdle" using i(1) l(2) by (auto simp: control_ok_def)
  then have c: "co_pushed (th_counters ?th) = of_nat (length (sy_pushed (th_ring ?th)))"
    "co_alerts (th_counters ?th) = of_nat (length (th_alerts ?th))"
    using i(3) by (simp_all add: feed_counts_ok_def)
  have "spsc_sys_inv (pe_cap env) (th_ring ?th)" using i(1) cap(1) by (auto simp: control_ok_def intro: spsc_reach_inv)
  then have len: "length (sy_pushed (th_ring ?th)) \<le> length (processed ?th) + 65536"
    using l(1) cap(2) by (auto simp: spsc_sys_defs processed_def)
  have d0: "text_or_empty d0 (alerts_path (pe_opt env)) = text_or_empty d (alerts_path (pe_opt env))"
    "d_creatable d0 = d_creatable d" "q \<noteq> alerts_path (pe_opt env) \<Longrightarrow> d_files d0 q = d_files d q" for q
    by (simp_all add: b(3) text_or_empty_bytes file_bytes_def)
  have "process_files env d0 s" by (rule process_reach_files [OF r])
  moreover have "\<forall>t. \<not> process_step env s t" using assms(4) by (simp add: process_step_def process_exec_def)
  ultimately show ?thesis using l c len threads_ring(1) [OF cap(1) i(1,2)] i(2) assms(4)
    by (auto simp: process_files_def disk_ok_def consumer_ok_def d0)
qed

text \<open>A tick that arrives between the exit of the consumer and the stop of the feed.\<close>

definition late_frame :: "'raw \<Rightarrow> 'raw threads_action list" where
  "late_frame raw = [SignalArrives, CheckRunning] @ one_push raw"

lemma late_frame_run:
  assumes "parse raw zero_message = (POk, m)" "cap \<noteq> 0"
  obtains th where "threads_exec_all cap parse (late_frame raw) (threads_start rules junk) = Some th" "th_loop th = LoopDone"
    "th_ws th = WsIdle" "\<not> th_running th" "sy_pushed (th_ring th) = [m]" "sy_popped (th_ring th) = []"
    "co_pushed (th_counters th) = 1" "co_processed (th_counters th) = 0"
  using assms
  by (simp add: late_frame_def push_run_defs)

text \<open>The end of \<open>main\<close> when the consumer has gone and no callback runs.\<close>

lemma main_ends:
  assumes "pr_main s = MainCheck" "pr_stats s = StatsCheck" "pr_threads s = th"
    "th_loop th = LoopDone" "th_ws th = WsIdle" "\<not> th_running th"
  obtains t where "(process_step env)\<^sup>*\<^sup>* s t" "pr_main t = MainReturned" "pr_threads t = th\<lparr>th_stopped := True\<rparr>"
proof -
  define t1 where "t1 = s\<lparr>pr_stats := StatsDone\<rparr>"
  define t2 where "t2 = t1\<lparr>pr_main := MainStop\<rparr>"
  define t3 where "t3 = t2\<lparr>pr_threads := th\<lparr>th_stopped := True\<rparr>, pr_main := MainJoinConsumer\<rparr>"
  define t4 where "t4 = t3\<lparr>pr_main := MainJoinStats\<rparr>"
  define t5 where "t5 = t4\<lparr>pr_main := MainFinal\<rparr>"
  define t6 where "t6 = (write_snapshot env 0 (load_final t5))\<lparr>pr_main := MainReturned\<rparr>"
  note e = process_exec_def stats_thread_def main_thread_def
  have "process_exec env (StatsAct 0) s = Some t1" using assms by (simp add: t1_def e)
  moreover have "process_exec env (MainAct 0) t1 = Some t2" using assms by (simp add: t1_def t2_def e)
  moreover have "process_exec env (MainAct 0) t2 = Some t3" using assms by (simp add: t1_def t2_def t3_def e)
  moreover have "process_exec env (MainAct 0) t3 = Some t4" using assms by (simp add: t3_def t4_def e)
  moreover have "process_exec env (MainAct 0) t4 = Some t5" by (simp add: t1_def t2_def t3_def t4_def t5_def e)
  moreover have "process_exec env (MainAct 0) t5 = Some t6" by (simp add: t5_def t6_def e)
  ultimately have "process_step env s t1" "process_step env t1 t2" "process_step env t2 t3" "process_step env t3 t4"
    "process_step env t4 t5" "process_step env t5 t6"
    unfolding process_step_def by blast+
  then have "(process_step env)\<^sup>*\<^sup>* s t6" by (meson rtranclp.rtrancl_into_rtrancl rtranclp.rtrancl_refl)
  then show thesis by (rule that) (simp_all add: t6_def t5_def t4_def t3_def)
qed

text \<open>C39: The daemon can lose ticks at shutdown: whatever command line and files got it started, and whatever frame
  its parser reads as a tick, there is a run up to the return of \<open>main\<close> in which that tick is pushed into the ring and
  counted as pushed, and never processed. Nothing drains the ring after the signal, as the smoke program does.\<close>

theorem shutdown_may_lose_ticks:
  assumes "process_boot bufsz api junk args start_ms d = Some (env, s0)" "pe_parse env raw zero_message = (POk, m)"
  shows "\<exists>s. (process_step env)\<^sup>*\<^sup>* s0 s \<and> pr_main s = MainReturned \<and> sy_pushed (th_ring (pr_threads s)) = [m] \<and>
    processed (pr_threads s) = [] \<and> co_pushed (th_counters (pr_threads s)) = 1 \<and> co_processed (th_counters (pr_threads s)) = 0"
proof -
  obtain rules d0 where s0: "s0 = process_start rules junk d0" "pe_cap env = daemon_capacity"
    using assms(1) by (auto simp: process_boot_def split: option.splits)
  have "pe_cap env \<noteq> 0" by (simp add: s0(2) daemon_capacity_def)
  then obtain th where
    th: "threads_exec_all (pe_cap env) (pe_parse env) (late_frame raw) (threads_start rules junk) = Some th"
    "th_loop th = LoopDone" "th_ws th = WsIdle" "\<not> th_running th" "sy_pushed (th_ring th) = [m]" "sy_popped (th_ring th) = []"
    "co_pushed (th_counters th) = 1" "co_processed (th_counters th) = 0"
    using late_frame_run [where parse = "pe_parse env" and raw = raw and m = m and rules = rules and junk = junk] assms(2) by blast
  have start: "threads_start rules junk = pr_threads s0" "pr_main s0 = MainCheck" "pr_stats s0 = StatsCheck"
    by (simp_all add: s0(1) process_start_def)
  have "StopFeed \<notin> set (late_frame raw)" by (simp add: late_frame_def one_push_def)
  from process_threads_run [OF th(1) [unfolded start(1)] this] obtain u where
    u: "(process_step env)\<^sup>*\<^sup>* s0 u" "pr_threads u = th" "pr_main u = MainCheck" "pr_stats u = StatsCheck"
    using start(2,3) by auto
  from main_ends [OF u(3,4,2) th(2-4)] obtain s where "(process_step env)\<^sup>*\<^sup>* u s" "pr_main s = MainReturned"
    "pr_threads s = th\<lparr>th_stopped := True\<rparr>" by blast
  then show ?thesis using u(1) th by (intro exI [of _ s]) (simp add: processed_def)
qed

theorem shutdown_may_lose_ticks_witness:
  "\<exists>env s0 s. process_boot 16 example_dom (replicate 65536 zero_message) [] 0 small_disk = Some (env, s0) \<and>
     (process_step env)\<^sup>*\<^sup>* s0 s \<and> pr_main s = MainReturned \<and>
     length (sy_pushed (th_ring (pr_threads s))) = 1 \<and> processed (pr_threads s) = []"
proof -
  obtain opt where o: "parse_args [] = Some opt" "op_rule_paths opt = []" "op_products opt = [(''BTC-USD'', 10), (''ETH-USD'', 11)]"
    by (simp add: parse_args_def default_options_def)
  obtain env s0 where b: "process_boot 16 example_dom (replicate 65536 zero_message) [] 0 small_disk = Some (env, s0)"
    and e: "pe_parse env = coinbase_parse example_dom (map_of [(''BTC-USD'', 10), (''ETH-USD'', 11)])"
    by (simp add: process_boot_def daemon_setup_def o small_disk_def alerts_open_def)
  obtain m where "pe_parse env ''tick'' zero_message = (POk, m)"
    unfolding e using example_tick_ok [of "map_of [(''BTC-USD'', 10), (''ETH-USD'', 11)]"] by simp
  from shutdown_may_lose_ticks [OF b this] show ?thesis using b by fastforce
qed

theorem daemon_exit_witness:
  "\<exists>env s0 s. process_boot 16 example_dom (replicate 65536 zero_message) [] 0 small_disk = Some (env, s0) \<and>
     (process_step env)\<^sup>*\<^sup>* s0 s \<and> pr_main s = MainReturned \<and> pr_stats s = StatsDone \<and>
     length (sy_pushed (th_ring (pr_threads s))) \<le> length (processed (pr_threads s)) + 65536"
proof -
  have junk: "length (replicate 65536 zero_message) = unat daemon_capacity" by (simp add: daemon_capacity_def)
  obtain opt where o: "parse_args [] = Some opt" "op_rule_paths opt = []"
    by (simp add: parse_args_def default_options_def)
  have "process_boot 16 example_dom (replicate 65536 zero_message) [] 0 small_disk \<noteq> None"
    by (simp add: process_boot_def daemon_setup_def o small_disk_def alerts_open_def)
  then obtain env s0 where b: "process_boot 16 example_dom (replicate 65536 zero_message) [] 0 small_disk = Some (env, s0)"
    by auto
  obtain rules d0 where r: "process_reach env rules d0 s0" "pe_cap env = daemon_capacity"
    using process_boot_reach [OF b junk] .
  have main: "pr_main s0 = MainCheck" using b by (auto simp: process_boot_def process_start_def split: option.splits)
  define s1 where "s1 = s0\<lparr>pr_threads := handle_signal (pr_threads s0)\<rparr>"
  have s1: "process_step env s0 s1" unfolding process_step_def
    by (rule exI [of _ "ThreadAct 0 SignalArrives"]) (simp add: process_exec_def worker_threads_def s1_def main Let_def)
  have "capacity_ok (pe_cap env)" "\<not> th_running (pr_threads s1)" by (simp_all add: r(2) daemon_capacity_ok s1_def)
  then obtain s where s: "(process_step env)\<^sup>*\<^sup>* s1 s" "pr_main s = MainReturned"
    using signalled_process_returns reach.reach_step [OF r(1) s1] by blast
  then have "(process_step env)\<^sup>*\<^sup>* s0 s" using s1 by (meson converse_rtranclp_into_rtranclp)
  then show ?thesis using daemon_exit [OF b junk _ s(2)] b s(2) by blast
qed

end
