(* ===== verification/Live_Smoke.thy ===== *)
theory Live_Smoke
  imports Coinbase Daemon_Options
begin

text \<open>
  The live smoke program, \<open>src/feed/coinbase_live_main.cpp\<close>: the Coinbase handler and an SPSC ring of 65536
  slots as in the daemon, a consumer that only counts the ticks of the two products, and at the end
  a last drain of the ring and a printed summary. Each callback of the web socket and each turn of the
  consumer's inner loop is an event; the last drain is \<open>live_drain\<close>; \<open>live_main\<close> is what the program prints
  on its two output streams. Sleeping is left out.
\<close>

datatype 'raw live_event = LiveOpen | LiveMessage 'raw | LiveCloseOrError | LiveOther | LiveConsume

record live_stats =
  ls_received :: u64
  ls_pushed :: u64
  ls_parse_failures :: u64
  ls_gaps :: u64
  ls_reconnects :: u64

record 'q live =
  lv_handler :: feed_handler
  lv_ring :: 'q
  lv_stats :: live_stats
  lv_btc_ticks :: u64
  lv_eth_ticks :: u64
  lv_sent :: "string list"

definition kLiveEndpoint :: string where
  "kLiveEndpoint = ''wss://ws-feed.exchange.coinbase.com''"

definition kSubscribe :: string where
  "kSubscribe = ''{\"type\":\"subscribe\",\"product_ids\":[\"BTC-USD\",\"ETH-USD\"],'' @
     ''\"channels\":[\"ticker\",\"heartbeat\"]}''"

definition live_capacity :: u64 where
  "live_capacity = 65536"

definition live_products :: product_map where
  "live_products = [''BTC-USD'' \<mapsto> 1, ''ETH-USD'' \<mapsto> 2]"

definition live_start :: "'q \<Rightarrow> 'q live" where
  "live_start q = \<lparr>lv_handler = feed_init True, lv_ring = q,
     lv_stats = \<lparr>ls_received = 0, ls_pushed = 0, ls_parse_failures = 0, ls_gaps = 0, ls_reconnects = 0\<rparr>,
     lv_btc_ticks = 0, lv_eth_ticks = 0, lv_sent = []\<rparr>"

text \<open>The only option; anything else on the command line is ignored.\<close>

fun live_seconds :: "string list \<Rightarrow> u32 \<Rightarrow> u32" where
  "live_seconds (a # v # args) seconds =
     (if a = ''--seconds'' then live_seconds args (atoi v) else live_seconds (v # args) seconds)"
| "live_seconds _ seconds = seconds"

text \<open>The body of the consumer's loop, for one message.\<close>

definition live_tick :: "message \<Rightarrow> 'q live \<Rightarrow> 'q live" where
  "live_tick m s =
     (if m_stream_id m = 1 then s\<lparr>lv_btc_ticks := lv_btc_ticks s + 1\<rparr>
      else if m_stream_id m = 2 then s\<lparr>lv_eth_ticks := lv_eth_ticks s + 1\<rparr>
      else s)"

definition live_consume :: "('q \<Rightarrow> message option \<times> 'q) \<Rightarrow> 'q live \<Rightarrow> 'q live" where
  "live_consume pop s =
     (case pop (lv_ring s) of
        (None, q) \<Rightarrow> s\<lparr>lv_ring := q\<rparr>
      | (Some m, q) \<Rightarrow> live_tick m (s\<lparr>lv_ring := q\<rparr>))"

definition live_message ::
  "('raw \<Rightarrow> message \<Rightarrow> parse_result \<times> message) \<Rightarrow> (message \<Rightarrow> 'q \<Rightarrow> bool \<times> 'q) \<Rightarrow> 'raw \<Rightarrow> 'q live \<Rightarrow> 'q live" where
  "live_message parse push raw s =
     (let st = lv_stats s;
          st = st\<lparr>ls_received := ls_received st + 1\<rparr>;
          st = (if fst (parse raw zero_message) = PMalformed
                then st\<lparr>ls_parse_failures := ls_parse_failures st + 1\<rparr> else st);
          (ok, h, q) = feed_handle parse push raw (lv_handler s) (lv_ring s);
          new_gaps = length (fh_gaps h) - length (fh_gaps (lv_handler s));
          st = st\<lparr>ls_gaps := ls_gaps st + of_nat new_gaps\<rparr>;
          st = (if ok then st\<lparr>ls_pushed := ls_pushed st + 1\<rparr> else st)
      in s\<lparr>lv_handler := h, lv_ring := q, lv_stats := st\<rparr>)"

definition live_drop :: "'q live \<Rightarrow> 'q live" where
  "live_drop s = s\<lparr>lv_stats := (lv_stats s)\<lparr>ls_reconnects := ls_reconnects (lv_stats s) + 1\<rparr>,
     lv_handler := feed_on_reconnect (feed_on_disconnect (lv_handler s))\<rparr>"

definition live_step ::
  "('raw \<Rightarrow> message \<Rightarrow> parse_result \<times> message) \<Rightarrow> (message \<Rightarrow> 'q \<Rightarrow> bool \<times> 'q) \<Rightarrow>
   ('q \<Rightarrow> message option \<times> 'q) \<Rightarrow> 'raw live_event \<Rightarrow> 'q live \<Rightarrow> 'q live" where
  "live_step parse push pop e s =
     (case e of
        LiveOpen \<Rightarrow> s\<lparr>lv_sent := lv_sent s @ [kSubscribe]\<rparr>
      | LiveMessage raw \<Rightarrow> live_message parse push raw s
      | LiveCloseOrError \<Rightarrow> live_drop s
      | LiveOther \<Rightarrow> s
      | LiveConsume \<Rightarrow> live_consume pop s)"

definition live_run where
  "live_run parse push pop es s = fold (live_step parse push pop) es s"

text \<open>After the feed has been stopped: \<open>while (ring.try_pop(m))\<close>. That it ends is a fact about the ring.\<close>

partial_function (option) live_drain :: "('q \<Rightarrow> message option \<times> 'q) \<Rightarrow> 'q live \<Rightarrow> 'q live option" where
  "live_drain pop s =
     (case pop (lv_ring s) of
        (None, q) \<Rightarrow> Some (s\<lparr>lv_ring := q\<rparr>)
      | (Some m, q) \<Rightarrow> live_drain pop (live_tick m (s\<lparr>lv_ring := q\<rparr>)))"

text \<open>What is printed: a line for each gap (on the error stream), one at the start, the summary at the end.\<close>

definition live_gap_text :: "u32 \<times> u64 \<times> u64 \<Rightarrow> string" where
  "live_gap_text g = (case g of (sid, prev, seq) \<Rightarrow>
     ''gap on stream '' @ show_nat (unat sid) @ '': '' @ show_nat (unat prev) @ '' -> '' @ show_nat (unat seq) @ [CHR 0x0A])"

definition live_connecting :: "u32 \<Rightarrow> string" where
  "live_connecting seconds =
     ''connecting to '' @ kLiveEndpoint @ '' for '' @ show_int (sint seconds) @ ''s...'' @ [CHR 0x0A]"

definition summary_line :: "string \<Rightarrow> u64 \<Rightarrow> string" where
  "summary_line title n = title @ '': '' @ show_nat (unat n) @ [CHR 0x0A]"

definition live_summary :: "'q live \<Rightarrow> string" where
  "live_summary s =
     [CHR 0x0A] @ ''=== coinbase_live_smoke summary ==='' @ [CHR 0x0A] @
     summary_line ''messages received '' (ls_received (lv_stats s)) @
     summary_line ''Messages pushed   '' (ls_pushed (lv_stats s)) @
     summary_line ''  BTC-USD ticks   '' (lv_btc_ticks s) @
     summary_line ''  ETH-USD ticks   '' (lv_eth_ticks s) @
     summary_line ''gap events        '' (ls_gaps (lv_stats s)) @
     summary_line ''parse failures    '' (ls_parse_failures (lv_stats s)) @
     summary_line ''reconnects        '' (ls_reconnects (lv_stats s))"

definition live_main :: "'e dom \<Rightarrow> message list \<Rightarrow> string list \<Rightarrow> string live_event list \<Rightarrow> (string \<times> string) option" where
  "live_main api junk args es =
     map_option (\<lambda>s. (live_connecting (live_seconds args 15) @ live_summary s,
         concat (map live_gap_text (fh_gaps (lv_handler s)))))
       (live_drain (spsc_try_pop live_capacity)
         (live_run (coinbase_parse api live_products) (spsc_try_push live_capacity) (spsc_try_pop live_capacity)
           es (live_start (spsc_init junk))))"

section \<open>The program as a run of the feed pipeline\<close>

definition live_feed_event :: "'raw live_event \<Rightarrow> 'raw feed_event list" where
  "live_feed_event e = (case e of LiveMessage raw \<Rightarrow> [Received raw] | LiveCloseOrError \<Rightarrow> [FeedDrop]
     | LiveConsume \<Rightarrow> [Drain] | _ \<Rightarrow> [])"

definition live_frames :: "'raw live_event list \<Rightarrow> 'raw list" where
  "live_frames es = concat (map (\<lambda>e. case e of LiveMessage raw \<Rightarrow> [raw] | _ \<Rightarrow> []) es)"

definition ticks_on :: "u32 \<Rightarrow> message list \<Rightarrow> u64" where
  "ticks_on i ms = of_nat (length (filter (\<lambda>m. m_stream_id m = i) ms))"

definition live_agrees :: "'q live \<Rightarrow> 'q feed_state \<Rightarrow> bool" where
  "live_agrees s f \<longleftrightarrow> lv_handler s = fs_handler f \<and> lv_ring s = fs_ring f \<and>
     ls_pushed (lv_stats s) = of_nat (length (fs_pushed f)) \<and>
     ls_gaps (lv_stats s) = of_nat (length (fh_gaps (fs_handler f))) \<and>
     lv_btc_ticks s = ticks_on 1 (fs_popped f) \<and> lv_eth_ticks s = ticks_on 2 (fs_popped f)"

lemma ticks_on_simps [simp]:
  "ticks_on i [] = 0" "ticks_on i (xs @ ys) = ticks_on i xs + ticks_on i ys"
  "ticks_on i [m] = (if m_stream_id m = i then 1 else 0)"
  by (simp_all add: ticks_on_def)

lemma live_tick_counts:
  "lv_btc_ticks (live_tick m s) = lv_btc_ticks s + ticks_on 1 [m]"
  "lv_eth_ticks (live_tick m s) = lv_eth_ticks s + ticks_on 2 [m]"
  "lv_handler (live_tick m s) = lv_handler s" "lv_ring (live_tick m s) = lv_ring s"
  "lv_stats (live_tick m s) = lv_stats s"
  by (simp_all add: live_tick_def)

lemma live_agrees_step:
  assumes "live_agrees s f"
  shows "live_agrees (live_step parse push pop e s) (feed_run parse push pop (live_feed_event e) f)"
proof (cases e)
  case (LiveMessage raw)
  obtain ok h q where hd: "feed_handle parse push raw (fs_handler f) (fs_ring f) = (ok, h, q)"
    by (cases "feed_handle parse push raw (fs_handler f) (fs_ring f)")
  obtain gs where gs: "fh_gaps h = fh_gaps (fs_handler f) @ gs"
    using handle_gaps [of parse push raw "fs_handler f" "fs_ring f"] by (auto simp: hd)
  have s: "lv_handler s = fs_handler f" "lv_ring s = fs_ring f" using assms by (simp_all add: live_agrees_def)
  show ?thesis using assms
    by (simp add: LiveMessage live_step_def live_feed_event_def live_agrees_def live_message_def feed_step_def s hd gs Let_def)
next
  case LiveCloseOrError
  then show ?thesis using assms
    by (simp add: live_step_def live_feed_event_def live_drop_def feed_step_def live_agrees_def
        feed_on_reconnect_def feed_on_disconnect_def feed_reset_def)
next
  case LiveConsume
  obtain r q where p: "pop (fs_ring f) = (r, q)" by force
  then show ?thesis using assms LiveConsume
    by (cases r) (simp_all add: live_step_def live_feed_event_def live_consume_def feed_step_def live_agrees_def live_tick_counts)
qed (use assms in \<open>simp_all add: live_step_def live_feed_event_def live_agrees_def\<close>)

lemma live_agrees_run:
  "live_agrees s f \<Longrightarrow>
     live_agrees (live_run parse push pop es s) (feed_run parse push pop (concat (map live_feed_event es)) f)"
  by (induction es arbitrary: s f) (simp_all add: live_run_def feed_run_append live_agrees_step)

lemma live_counts_step:
  "ls_received (lv_stats (live_step parse push pop e s)) =
     ls_received (lv_stats s) + of_nat (length (live_frames [e]))"
  "ls_parse_failures (lv_stats (live_step parse push pop e s)) =
     ls_parse_failures (lv_stats s) +
       of_nat (length (filter (\<lambda>raw. fst (parse raw zero_message) = PMalformed) (live_frames [e])))"
  "ls_reconnects (lv_stats (live_step parse push pop e s)) =
     ls_reconnects (lv_stats s) + of_nat (length (filter (\<lambda>e. e = LiveCloseOrError) [e]))"
  by (cases e; simp add: live_step_def live_frames_def live_message_def live_drop_def live_consume_def live_tick_counts
      Let_def split: prod.split option.split)+

lemma live_counts_run:
  "ls_received (lv_stats (live_run parse push pop es s)) =
     ls_received (lv_stats s) + of_nat (length (live_frames es))"
  "ls_parse_failures (lv_stats (live_run parse push pop es s)) =
     ls_parse_failures (lv_stats s) +
       of_nat (length (filter (\<lambda>raw. fst (parse raw zero_message) = PMalformed) (live_frames es)))"
  "ls_reconnects (lv_stats (live_run parse push pop es s)) =
     ls_reconnects (lv_stats s) + of_nat (length (filter (\<lambda>e. e = LiveCloseOrError) es))"
proof (induction es arbitrary: s)
  case (Cons e es)
  have cons: "live_frames (e # es) = live_frames [e] @ live_frames es" by (simp add: live_frames_def)
  have run: "live_run parse push pop (e # es) s = live_run parse push pop es (live_step parse push pop e s)" for s
    by (simp add: live_run_def)
  { case 1 show ?case by (simp only: run Cons.IH cons live_counts_step length_append filter_append of_nat_add add.assoc) }
  { case 2 show ?case by (simp only: run Cons.IH cons live_counts_step length_append filter_append of_nat_add add.assoc) }
  { case 3 show ?case by (simp only: run Cons.IH live_counts_step) simp }
qed (simp_all add: live_run_def live_frames_def)

section \<open>The last drain\<close>

context bounded_fifo
begin

text \<open>Emptying a ring ends, and takes out what it holds.\<close>

lemma pop_step:
  assumes "inv q"
  shows "case contents q of
      [] \<Rightarrow> \<exists>q'. pop q = (None, q') \<and> inv q' \<and> contents q' = []
    | x # xs \<Rightarrow> \<exists>q'. pop q = (Some x, q') \<and> inv q' \<and> contents q' = xs"
  by (cases rule: pop_cases [OF assms]) (auto simp: assms)

end

lemma live_drain_counts:
  assumes "spsc_ok cap (lv_ring s)"
  shows "\<exists>s'. live_drain (spsc_try_pop cap) s = Some s' \<and> spsc_contents cap (lv_ring s') = [] \<and>
    lv_btc_ticks s' = lv_btc_ticks s + ticks_on 1 (spsc_contents cap (lv_ring s)) \<and>
    lv_eth_ticks s' = lv_eth_ticks s + ticks_on 2 (spsc_contents cap (lv_ring s)) \<and>
    lv_stats s' = lv_stats s \<and> lv_handler s' = lv_handler s"
  using assms
proof (induction "spsc_contents cap (lv_ring s)" arbitrary: s)
  case Nil
  then show ?case using spsc_ring.pop_step [OF Nil.prems]
    by (auto simp: live_drain.simps [of _ s] simp flip: Nil.hyps)
next
  case (Cons m ms)
  obtain q where q: "spsc_try_pop cap (lv_ring s) = (Some m, q)" "spsc_ok cap q" "spsc_contents cap q = ms"
    using spsc_ring.pop_step [OF Cons.prems] by (auto simp flip: Cons.hyps(2))
  define t where "t = live_tick m (s\<lparr>lv_ring := q\<rparr>)"
  have t: "lv_ring t = q" "lv_btc_ticks t = lv_btc_ticks s + ticks_on 1 [m]"
    "lv_eth_ticks t = lv_eth_ticks s + ticks_on 2 [m]" "lv_stats t = lv_stats s"
    "lv_handler t = lv_handler s"
    by (simp_all add: t_def live_tick_counts)
  have d: "live_drain (spsc_try_pop cap) s = live_drain (spsc_try_pop cap) t"
    by (simp add: live_drain.simps [of _ s] q(1) t_def)
  have c: "spsc_contents cap (lv_ring s) = [m] @ ms" using Cons.hyps(2) by simp
  show ?case unfolding d c ticks_on_simps(2)
    using Cons.hyps(1) [of t] q(2,3) t by (simp only: add.assoc)
qed

lemma ticks_on_two:
  "list_all (\<lambda>m. m_stream_id m \<in> {1, 2}) ms \<Longrightarrow> ticks_on 1 ms + ticks_on 2 ms = of_nat (length ms)"
  by (induction ms) (auto simp: ticks_on_def)

text \<open>The summary of the smoke program adds up. Whatever the feed does and however the consumer is
  scheduled, the last drain ends with an empty ring, and then the ticks of the two products
  together are the messages pushed; the frames received, the malformed ones and the gaps are
  counted exactly (all modulo \<open>2 ^ 64\<close>, the width of the counters).\<close>

theorem live_summary_adds_up:
  assumes "length junk = unat live_capacity"
    "s = live_run (coinbase_parse api live_products) (spsc_try_push live_capacity) (spsc_try_pop live_capacity)
       es (live_start (spsc_init junk))"
  shows "\<exists>s'. live_drain (spsc_try_pop live_capacity) s = Some s' \<and>
    spsc_contents live_capacity (lv_ring s') = [] \<and>
    ls_pushed (lv_stats s') = lv_btc_ticks s' + lv_eth_ticks s' \<and>
    ls_received (lv_stats s') = of_nat (length (live_frames es)) \<and>
    ls_parse_failures (lv_stats s') = of_nat (length (filter
      (\<lambda>raw. fst (coinbase_parse api live_products raw zero_message) = PMalformed) (live_frames es))) \<and>
    ls_gaps (lv_stats s') = of_nat (length (fh_gaps (lv_handler s'))) \<and>
    ls_reconnects (lv_stats s') = of_nat (length (filter (\<lambda>e. e = LiveCloseOrError) es))"
proof -
  define fes where "fes = concat (map live_feed_event es)"
  define f where "f = feed_run (coinbase_parse api live_products) (spsc_try_push live_capacity)
    (spsc_try_pop live_capacity) fes (feed_start True (spsc_init junk))"
  have cap: "capacity_ok live_capacity" by (simp add: capacity_ok_def live_capacity_def)
  have q: "spsc_ok live_capacity (spsc_init junk)" "spsc_contents live_capacity (spsc_init junk) = []"
    using cap spsc_inv_init [OF assms(1)] by (simp_all add: spsc_ok_def)
  have "live_agrees (live_start (spsc_init junk)) (feed_start True (spsc_init junk))"
    by (simp add: live_agrees_def live_start_def feed_start_def feed_init_def)
  from live_agrees_run [OF this] have ag: "live_agrees s f" by (simp add: assms(2) f_def fes_def)
  have good: "feed_good (spsc_ok live_capacity) (spsc_contents live_capacity) f"
    unfolding f_def by (intro spsc_feed.run_good spsc_feed.start_good q)
  have "list_all (backed (ticker_says api live_products) fes) (fs_pushed f)"
    unfolding f_def by (rule coinbase_feed.run_backed [OF spsc_feed.start_good [OF q]])
      (simp_all add: feed_start_def)
  then have "list_all (\<lambda>m. m_stream_id m \<in> {1, 2}) (fs_pushed f)"
    by (auto simp: list_all_iff backed_def ticker_says_def live_products_def split: if_splits)
  note two = ticks_on_two [OF this]
  have ring: "spsc_ok live_capacity (lv_ring s)"
    "fs_pushed f = fs_popped f @ spsc_contents live_capacity (lv_ring s)"
    using good ag by (simp_all add: feed_good_def live_agrees_def)
  obtain s' where s': "live_drain (spsc_try_pop live_capacity) s = Some s'"
    "spsc_contents live_capacity (lv_ring s') = []" "lv_stats s' = lv_stats s" "lv_handler s' = lv_handler s"
    "lv_btc_ticks s' = ticks_on 1 (fs_pushed f)" "lv_eth_ticks s' = ticks_on 2 (fs_pushed f)"
    using live_drain_counts [OF ring(1)] ag by (auto simp: live_agrees_def ring(2))
  have "ls_pushed (lv_stats s') = lv_btc_ticks s' + lv_eth_ticks s'"
    "ls_gaps (lv_stats s') = of_nat (length (fh_gaps (lv_handler s')))"
    using ag by (simp_all add: s'(3-6) two live_agrees_def)
  moreover note live_counts_run [of "coinbase_parse api live_products" "spsc_try_push live_capacity"
      "spsc_try_pop live_capacity" es "live_start (spsc_init junk)", folded assms(2)]
  ultimately show ?thesis using s'(1-3) by (intro exI [of _ s']) (simp add: live_start_def)
qed

theorem live_summary_adds_up_witness:
  "\<exists>s'. live_drain (spsc_try_pop live_capacity)
      (live_run (coinbase_parse example_dom live_products) (spsc_try_push live_capacity) (spsc_try_pop live_capacity)
        [LiveOpen, LiveMessage ''tick'', LiveCloseOrError, LiveMessage ''tick'', LiveConsume]
        (live_start (spsc_init (replicate 65536 zero_message)))) = Some s' \<and>
    ls_pushed (lv_stats s') = lv_btc_ticks s' + lv_eth_ticks s' \<and> ls_received (lv_stats s') = 2"
proof -
  have l: "length (replicate 65536 zero_message) = unat live_capacity" by (simp add: live_capacity_def)
  have n: "length (live_frames [LiveOpen, LiveMessage ''tick'', LiveCloseOrError, LiveMessage ''tick'', LiveConsume]) = 2"
    by (simp add: live_frames_def)
  show ?thesis
    using live_summary_adds_up [OF l refl, of example_dom
        "[LiveOpen, LiveMessage ''tick'', LiveCloseOrError, LiveMessage ''tick'', LiveConsume]", unfolded n]
    by (fastforce simp only: of_nat_numeral)
qed

text \<open>C16: The printed report of the smoke program adds up. Whatever the command line, whatever the feed does and
  however the consumer is scheduled, the program ends and prints a summary in which the ticks of the
  two products are together the messages pushed, the messages received, the parse failures and the
  reconnects are those of the feed, and the gap events are as many as the lines printed for gaps (all modulo
  \<open>2 ^ 64\<close>, the width of the counters). The number of seconds in the first line is what \<open>atoi\<close> gives, which C leaves
  open when the argument does not fit an \<open>int\<close>.\<close>

theorem live_report_adds_up:
  assumes "length junk = unat live_capacity"
  shows "\<exists>(s :: message spsc live) gaps. live_main api junk args es =
      Some (live_connecting (live_seconds args 15) @ live_summary s, concat (map live_gap_text gaps)) \<and>
    ls_pushed (lv_stats s) = lv_btc_ticks s + lv_eth_ticks s \<and>
    ls_received (lv_stats s) = of_nat (length (live_frames es)) \<and>
    ls_parse_failures (lv_stats s) = of_nat (length (filter
      (\<lambda>raw. fst (coinbase_parse api live_products raw zero_message) = PMalformed) (live_frames es))) \<and>
    ls_reconnects (lv_stats s) = of_nat (length (filter (\<lambda>e. e = LiveCloseOrError) es)) \<and>
    ls_gaps (lv_stats s) = of_nat (length gaps)"
proof -
  from live_summary_adds_up [OF assms refl, of api es] obtain s where
    "live_drain (spsc_try_pop live_capacity) (live_run (coinbase_parse api live_products) (spsc_try_push live_capacity)
       (spsc_try_pop live_capacity) es (live_start (spsc_init junk))) = Some s"
    "ls_pushed (lv_stats s) = lv_btc_ticks s + lv_eth_ticks s"
    "ls_received (lv_stats s) = of_nat (length (live_frames es))"
    "ls_parse_failures (lv_stats s) = of_nat (length (filter
      (\<lambda>raw. fst (coinbase_parse api live_products raw zero_message) = PMalformed) (live_frames es)))"
    "ls_gaps (lv_stats s) = of_nat (length (fh_gaps (lv_handler s)))"
    "ls_reconnects (lv_stats s) = of_nat (length (filter (\<lambda>e. e = LiveCloseOrError) es))"
    by blast
  then show ?thesis
    by (intro exI [of _ s] exI [of _ "fh_gaps (lv_handler s)"]) (simp add: live_main_def)
qed

theorem live_report_adds_up_witness:
  "\<exists>(s :: message spsc live) gaps. live_main example_dom (replicate 65536 zero_message) [''--seconds'', ''3'']
      [LiveOpen, LiveMessage ''tick'', LiveCloseOrError, LiveMessage ''tick'', LiveConsume] =
      Some (live_connecting 3 @ live_summary s, concat (map live_gap_text gaps)) \<and>
    ls_pushed (lv_stats s) = lv_btc_ticks s + lv_eth_ticks s \<and> ls_received (lv_stats s) = 2 \<and> ls_reconnects (lv_stats s) = 1"
proof -
  have l: "length (replicate 65536 zero_message) = unat live_capacity" by (simp add: live_capacity_def)
  have n: "length (live_frames [LiveOpen, LiveMessage ''tick'', LiveCloseOrError, LiveMessage ''tick'', LiveConsume]) = 2"
    "length (filter (\<lambda>e. e = LiveCloseOrError) [LiveOpen, LiveMessage ''tick'', LiveCloseOrError, LiveMessage ''tick'', LiveConsume]) = 1"
    by (simp_all add: live_frames_def)
  have "char_of (51 :: nat) = CHR ''3''" by code_simp
  then have "show_nat 3 = ''3''" by (simp add: show_nat.simps)
  then have "live_seconds [''--seconds'', ''3''] 15 = 3" using atoi_show [of 3] by simp
  with live_report_adds_up [OF l, of example_dom "[''--seconds'', ''3'']"
        "[LiveOpen, LiveMessage ''tick'', LiveCloseOrError, LiveMessage ''tick'', LiveConsume]", unfolded n]
  show ?thesis by (simp only: of_nat_numeral of_nat_1) blast
qed

end
