(* ===== verification/Spec2Isabelle.thy ===== *)
theory Spec2Isabelle
  imports Mpsc_Concurrent Pool_Allocator Message_Layout Python_Module Gridradar Adsb Daemon_Shutdown Live_Smoke
begin

text \<open>
  Verification of the telemetry anomaly engine (the C++ code under \<open>src/include\<close> and \<open>src/src\<close>).

  The program and its parts. Feeds deliver frames of text; an adapter reads a frame into the
  64-byte \<open>Message\<close>; the feed handler checks the sequence numbers of the stream and
  pushes the message into a lock-free ring; the consumer thread pops it and runs four detection layers
  (hard rules, an exponentially weighted baseline, CUSUM, a conformal threshold), which raise
  alerts. Beside this live path there is a replay path: streams are recorded to files, replayed from
  them, hashed to compare two runs, and faults with known labels are injected into recordings.

  The theories, and what of the code each of them models:

    \<^item> \<open>Telemetry_Prelude\<close>: the machine integers, the collections \<open>ring_simps\<close>, \<open>fifo_laws\<close> and the lemmas on
      words, masks and lists; \<open>Message\<close> and \<open>Message_Layout\<close>: \<open>core/message.hpp\<close>, as a record and as bytes.
    \<^item> \<open>Bounded_Fifo\<close>: the contract of a ring as the locale \<open>bounded_fifo\<close> (push appends or refuses when
      full, pop takes the oldest), with conservation over any history proved once. \<open>Spsc_Ring\<close> and
      \<open>Mpsc_Ring\<close> (\<open>core/ring_buffer.hpp\<close>) interpret it on the two rings as one thread sees them.
    \<^item> \<open>Spsc_Concurrent\<close>, \<open>Mpsc_Concurrent\<close>: the same functions cut at every atomic access, as inductive
      step relations of one producer and one consumer, and of any number of producers and one
      consumer; any interleaving is a run. A load of an index the other side writes may return any
      earlier value, as acquire and release allow, not older than what the thread has seen; the plain accesses
      to a slot are proved never to overlap in time.
    \<^item> \<open>Pool_Allocator\<close>: \<open>core/pool_allocator.hpp\<close>, the intrusive free list on a byte memory with 64-bit addresses.
    \<^item> \<open>Feed_Handler\<close>: \<open>feed/handler.hpp\<close> (\<open>accept_seq\<close>, \<open>handle\<close>, resets). \<open>Feed_Pipeline\<close>: frames, drops and
      drains in any order, as the locale \<open>feed_pipeline\<close> over a ring contract and a parse function;
      \<open>Feed_Adapter\<close>: the contract between handler and adapter (\<open>feed_adapter\<close>, \<open>adapted_pipeline\<close>).
    \<^item> \<open>Rfc3339\<close>, \<open>Text_Input\<close>, \<open>Json_Dom\<close>, \<open>Coinbase\<close>: \<open>feed/coinbase.hpp\<close>; \<open>Text_Input\<close> holds \<open>strtod\<close>,
      \<open>from_chars\<close> and \<open>getline\<close>, \<open>Json_Dom\<close> the accessors of simdjson as a record that is a parameter.
    \<^item> \<open>Sample_Maxima\<close>, \<open>Gridradar\<close>, \<open>Adsb\<close>: the polled adapters \<open>feed/gridradar.hpp\<close> and \<open>feed/adsb.hpp\<close>.
    \<^item> \<open>Ieee_Double\<close>, \<open>Double_Exact\<close>: binary64 on 64-bit patterns, with the correctly rounded operations the
      detectors use, and when they are exact.
    \<^item> \<open>Rules\<close>, \<open>Baseline\<close>, \<open>Cusum\<close>, \<open>Conformal\<close>: \<open>detect/rules.hpp\<close> with its configuration parser,
      \<open>detect/baseline.hpp\<close>, \<open>detect/cusum.hpp\<close>, \<open>detect/conformal.hpp\<close>.
    \<^item> \<open>Record_Format\<close>, \<open>Stream_File\<close>, \<open>Recorder\<close>, \<open>Replayer\<close>, \<open>Checksum\<close>: the headers of the same names
      under \<open>replay\<close>; \<open>Stream_File\<close> holds the file streams and a disk that can fill up.
    \<^item> \<open>Fault_Labels\<close>, \<open>Fault_Injector\<close>: \<open>replay/fault_injector.hpp\<close>.
    \<^item> \<open>Detect_Pipeline\<close>, \<open>Daemon_Text\<close>, \<open>Daemon_Options\<close>, \<open>Daemon\<close>, \<open>Daemon_Main\<close>, \<open>Daemon_Threads\<close>, \<open>Daemon_Process\<close>,
      \<open>Daemon_Shutdown\<close>: \<open>src/feed/coinbase_daemon_main.cpp\<close>, the program that connects the live path: the detectors in their order, the texts
      it writes, its command line; the callback and the consumer over an atomic ring (\<open>Daemon\<close>), with the
      files of a run (\<open>Daemon_Main\<close>); the web socket's and the consumer's thread and the signal over the ring's
      atomic accesses, one definition per step of a thread (\<open>Daemon_Threads\<close>); the whole process, with the
      statistics thread and its nine separate relaxed loads, the end of \<open>main\<close> and the disk (\<open>Daemon_Process\<close>); its
      return and what it leaves (\<open>Daemon_Shutdown\<close>). The interleaving itself (\<open>threads_exec\<close>, \<open>process_exec\<close>) stands for the
      scheduler. The consumer's work on one message, and the callback's on one frame up to its push, are one step each: their counts,
      log entries and alerts appear together, and no theorem relates two counters while such a step is under way.
    \<^item> \<open>Live_Smoke\<close>: \<open>src/feed/coinbase_live_main.cpp\<close>, the manual check over the same handler and ring, with what it prints.
    \<^item> \<open>Python_Bindings\<close>, \<open>Python_Module\<close>: \<open>src/bindings/bindings.cpp\<close>: the functions written there and the Python
      loop over a replayer; the registered module as the calls of a session with its objects and the disk.

  Correspondence. A class is a record of its members, a method a function that takes and returns
  the record; an exception or a status is a value (\<open>rule_error\<close> on the left of a sum, None, \<open>replay_status\<close>).
  \<open>std::size_t\<close> and the fixed-width integers are words, signed ones read with \<open>sint\<close>; a \<open>double\<close> is its
  bit pattern; a hash map is a map or an association list, the latter where the code walks over it.
  Uninitialised memory (the slots of a ring, the padding of some messages) is a parameter named
  \<open>junk\<close>. A callback is a log in the record (\<open>fh_gaps\<close>, \<open>gr_gaps\<close>).

  What the lemmas show, by group. Rings: conservation and order under every interleaving, absence of data races, an
  uninterrupted call is the sequential function, wait-freedom of the single-producer ring, and
  the failure of the other ring at capacity one. Feed: delivered sequence numbers increase, every gap is
  reported, every message is backed by a frame. Adapters: what is accepted, rejected and left
  untouched, round trips of time stamps, equality of the two copies of the time stamp parser, and the
  polled adapters emit the samples later than all before, per stream. Detectors: when
  the z-score is a number, bounds of the CUSUM sums, when an alarm must come, the conformal threshold as an order
  statistic with the floating-point index computed exactly, independence of the streams.
  Replay: a recording replays to the messages written, cut off at a full device; a corrupt byte changes
  the checksum; labels are the ground truth of the injected faults. Daemon: it refines the feed
  pipeline followed by the detectors, also thread by thread with stale loads; its alerts are backed by
  frames; its statistics are numbers the counters really had, none ahead of what it counts, though one snapshot can mix
  moments; from any moment of the signal it can return, and does on
  every schedule once the feed is stopped, leaving exact counters, alert and statistics files, though
  whatever its configuration it may leave a tick in the ring unchecked; its options and time stamps are what they should be. The smoke program's
  printed report adds up. A Python loop over a replayer ends, and a Python script that records, injects faults
  and reads the results back sees exactly the faulted stream and its true labels.

  Bounds and fuel. No definition needs fuel: the loops are structural or come with a measure, and
  the retry loop of the multi-producer push and the last drain of the smoke program are
  \<open>partial_function (option)\<close> proved to return, the former when it is not disturbed. The shutdown of the
  daemon has a rank that every step of its threads lowers. The unbounded counters of the rings are compared with the true counts for fewer than
  \<open>2 ^ 63\<close> operations where the code takes signed differences, and without a bound where it does
  not. The properties on the value of a time stamp are about the years 1970 to 2261, which fit 64-bit
  nanoseconds, and count the days by the calendar's rules.

  Where C or C++ leave a result undefined the definitions pick one: \<open>parse_rfc3339_ns\<close> and \<open>adsb_ts_ns\<close> wrap where signed
  arithmetic overflows (years past 2262, huge polling times), \<open>conf_threshold\<close> sorts a window with NaN in some order,
  \<open>atoi\<close> truncates a number that does not fit an \<open>int\<close>. No property gives the value of such a result. The properties on the streams of
  aircraft, on the new samples of the polled grid frequency, on the independence of the streams, on the equality of the two time stamp
  parsers, on the routing of frames and on the printed report have no hypothesis that excludes these inputs; their statements compare what was picked with itself
  and hold whatever it is.

  The pool's theorems assume memory as \<open>aligned_alloc\<close> promises it and that the region's size does not wrap, which the
  constructor does not check. The room of a \<open>disk\<close> only shrinks: truncating or replacing a file gives none
  back, so "the device did not fill up" asks for more room than a real device needs.

  Not modelled: the third-party libraries themselves (simdjson is the parameter \<open>dom\<close>, IXWebSocket
  is the sequence of events, pybind11 the conversion of arguments before a call); the scheduler and
  the clock, which are arguments; failing allocations (the catch-all of \<open>inject\<close>); sleeping and the daemon's
  console output, which change no state; the benchmarks, which time the
  modelled code; the Go and Python programs around the engine, which are other languages.
\<close>

end
